(* ===== verification/Prelude.thy ===== *)
theory Prelude
  imports Complex_Main "HOL-Library.Word" "HOL-Library.Log_Nat"
begin

text \<open>
  Shared vocabulary of the development: the machine integers, times and binary floating point
  numbers the Rust sources compute with, the result type of code that may panic, and the generic
  lemmas the component theories use.

  \<^item> \<open>u32\<close> and \<open>usize\<close> are machine words; \<open>saturating_add\<close> and \<open>saturating_sub\<close> are the methods of
    the same name of Rust's unsigned integers.
  \<^item> \<open>duration\<close> is a number of nanoseconds. An \<open>instant\<close> is a number of nanoseconds since an
    arbitrary origin; \<open>later - earlier\<close> on \<open>nat\<close> is \<open>Instant::duration_since\<close>, which returns zero
    when the argument is later. Instants are unbounded: the platform's range (centuries) is not
    part of the model, so the overflow panic of \<open>Instant + Duration\<close> is not either.
  \<^item> \<open>f32\<close> and \<open>f64\<close> are the values of finite floating point numbers, as rationals;
    \<open>ieee_round p\<close> rounds to nearest, ties to even, with \<open>p\<close> significant bits, which is IEEE 754
    rounding wherever the result is a normal number.
  \<^item> \<open>'a panicking\<close> is the outcome of code with assertions: \<open>Inl\<close> carries the panic message.
\<close>

section \<open>Types\<close>

type_synonym u8 = "8 word"
type_synonym u32 = "32 word"
type_synonym u64 = "64 word"
type_synonym usize = "64 word"
type_synonym instant = nat
type_synonym duration = nat
type_synonym f32 = rat
type_synonym f64 = rat
type_synonym 'a panicking = "string + 'a"

named_theorems word_arith_simps
named_theorems panic_simps

section \<open>Saturating machine arithmetic\<close>

definition saturating_add :: "'a::len word \<Rightarrow> 'a word \<Rightarrow> 'a word" where
  "saturating_add a b = (if unat a + unat b < 2 ^ LENGTH('a) then a + b else - 1)"

definition saturating_sub :: "'a::len word \<Rightarrow> 'a word \<Rightarrow> 'a word" where
  "saturating_sub a b = (if a < b then 0 else a - b)"

lemma unat_max_word: "unat (- 1 :: 'a::len word) = 2 ^ LENGTH('a) - 1"
  by (simp add: unsigned_minus_1_eq_mask mask_eq_exp_minus_1)

lemma unat_saturating_add [word_arith_simps]:
  "unat (saturating_add a b :: 'a::len word) = min (unat a + unat b) (2 ^ LENGTH('a) - 1)"
  by (auto simp: saturating_add_def unat_max_word unat_word_ariths min_def)

lemma unat_saturating_sub [word_arith_simps]:
  "unat (saturating_sub a b) = unat a - unat b"
  by (auto simp: saturating_sub_def word_less_nat_alt unat_sub word_le_nat_alt)

lemma saturating_sub_self [simp]: "saturating_sub a a = 0"
  by (simp add: saturating_sub_def)

lemma saturating_sub_0 [simp]: "saturating_sub a 0 = a"
  by (simp add: saturating_sub_def)

lemma saturating_add_0 [simp]: "saturating_add a 0 = a" "saturating_add 0 a = a"
  by (simp_all add: saturating_add_def)

section \<open>Code that may panic\<close>

definition panic_bind :: "'a panicking \<Rightarrow> ('a \<Rightarrow> 'b panicking) \<Rightarrow> 'b panicking" where
  "panic_bind m f = (case m of Inl e \<Rightarrow> Inl e | Inr x \<Rightarrow> f x)"

definition assert_or_panic :: "bool \<Rightarrow> string \<Rightarrow> unit panicking" where
  "assert_or_panic b msg = (if b then Inr () else Inl msg)"

fun panic_map :: "('a \<Rightarrow> 'b panicking) \<Rightarrow> 'a list \<Rightarrow> 'b list panicking" where
  "panic_map f [] = Inr []"
| "panic_map f (x # xs) = panic_bind (f x) (\<lambda>y. panic_bind (panic_map f xs) (\<lambda>ys. Inr (y # ys)))"

lemma panic_bind_simps [simp, panic_simps]:
  "panic_bind (Inl e) f = Inl e" "panic_bind (Inr x) f = f x"
  by (simp_all add: panic_bind_def)

lemma panic_bind_eq_Inr [panic_simps]:
  "panic_bind m f = Inr y \<longleftrightarrow> (\<exists>x. m = Inr x \<and> f x = Inr y)"
  by (cases m) simp_all

lemma panic_bind_eq_Inl [panic_simps]:
  "panic_bind m f = Inl e \<longleftrightarrow> m = Inl e \<or> (\<exists>x. m = Inr x \<and> f x = Inl e)"
  by (cases m) simp_all

lemma assert_or_panic_eq_Inr [simp, panic_simps]: "assert_or_panic b msg = Inr u \<longleftrightarrow> b"
  by (simp add: assert_or_panic_def)

lemma assert_or_panic_eq_Inl [simp, panic_simps]:
  "assert_or_panic b msg = Inl e \<longleftrightarrow> \<not> b \<and> e = msg"
  by (auto simp: assert_or_panic_def)

lemma panic_map_Inr: "(\<And>x. x \<in> set xs \<Longrightarrow> f x = Inr (g x)) \<Longrightarrow> panic_map f xs = Inr (map g xs)"
  by (induction xs) simp_all

lemma panic_map_eq_Inr_set: "panic_map f xs = Inr ys \<Longrightarrow> y \<in> set ys \<Longrightarrow> \<exists>x \<in> set xs. f x = Inr y"
  by (induction xs arbitrary: ys) (auto simp: panic_bind_eq_Inr)

lemma panic_map_eq_Inr_length: "panic_map f xs = Inr ys \<Longrightarrow> length ys = length xs"
  by (induction xs arbitrary: ys) (auto simp: panic_bind_eq_Inr)

text \<open>Reading words as naturals.\<close>

lemma unat_u32_less: "unat (w :: u32) < 2 ^ 32"
  using unsigned_less [of w] by simp

lemma unat_u64_less: "unat (w :: u64) < 2 ^ 64"
  using unsigned_less [of w] by simp

lemma unat_of_nat_small: "n < 2 ^ LENGTH('a::len) \<Longrightarrow> unat (of_nat n :: 'a word) = n"
  by (simp add: unsigned_of_nat take_bit_nat_eq_self)

section \<open>Decimal rendering\<close>

fun decimal_of_nat :: "nat \<Rightarrow> string" where
  "decimal_of_nat n =
     (if n < 10 then [char_of (48 + n)] else decimal_of_nat (n div 10) @ [char_of (48 + n mod 10)])"

declare decimal_of_nat.simps [simp del]

section \<open>Binary floating point\<close>

definition round_half_even :: "rat \<Rightarrow> int" where
  "round_half_even x =
     (let n = \<lfloor>x\<rfloor>; d = x - of_int n
      in if d < 1 / 2 then n
         else if 1 / 2 < d then n + 1
         else if even n then n else n + 1)"

definition pow2 :: "int \<Rightarrow> rat" where
  "pow2 k = (if 0 \<le> k then 2 ^ nat k else 1 / 2 ^ nat (- k))"

text \<open>The exponent of a positive rational: the \<open>e\<close> with \<open>2\<^sup>e \<le> x < 2\<^sup>e\<^sup>+\<^sup>1\<close>.\<close>

definition ilog2 :: "rat \<Rightarrow> int" where
  "ilog2 x =
     (let (a, b) = quotient_of x; k = int (nat (bitlen a)) - int (nat (bitlen b))
      in if pow2 k \<le> x then k else k - 1)"

definition ieee_round :: "nat \<Rightarrow> rat \<Rightarrow> rat" where
  "ieee_round p x =
     (if x \<le> 0 then 0
      else let q = pow2 (ilog2 x - (int p - 1)) in of_int (round_half_even (x / q)) * q)"

text \<open>Facts about the exponent and the rounding.\<close>

lemma pow2_pos [simp]: "0 < pow2 k"
  by (simp add: pow2_def)

lemma pow2_neq_0 [simp]: "pow2 k \<noteq> 0"
  by (metis less_irrefl pow2_pos)

lemma pow2_add: "pow2 (a + b) = pow2 a * pow2 b"
proof -
  have eq: "pow2 k = 2 powi k" for k
    by (simp add: pow2_def power_int_def field_simps)
  show ?thesis by (simp add: eq power_int_add)
qed

lemma pow2_mono: "a \<le> b \<Longrightarrow> pow2 a \<le> pow2 b"
proof -
  assume "a \<le> b"
  have "pow2 b = pow2 a * pow2 (b - a)" by (simp flip: pow2_add)
  moreover have "1 \<le> pow2 (b - a)" using \<open>a \<le> b\<close> by (simp add: pow2_def)
  ultimately show ?thesis using pow2_pos [of a] by simp
qed

lemma pow2_Suc: "pow2 (a + 1) = 2 * pow2 a"
  by (simp add: pow2_add) (simp add: pow2_def)

lemma pow2_nat: "pow2 (int n) = 2 ^ n"
  by (simp add: pow2_def)

lemma round_half_even_of_int [simp]: "round_half_even (of_int n) = n"
  by (simp add: round_half_even_def)

lemma round_half_even_cases:
  "round_half_even x = \<lfloor>x\<rfloor> \<and> x - of_int \<lfloor>x\<rfloor> \<le> 1 / 2 \<or>
   round_half_even x = \<lfloor>x\<rfloor> + 1 \<and> 1 / 2 \<le> x - of_int \<lfloor>x\<rfloor>"
  by (auto simp: round_half_even_def Let_def)

lemma round_half_even_mono: "x \<le> y \<Longrightarrow> round_half_even x \<le> round_half_even y"
proof (cases "\<lfloor>x\<rfloor> = \<lfloor>y\<rfloor>")
  case True
  assume "x \<le> y"
  with True show ?thesis by (auto simp: round_half_even_def Let_def)
next
  case False
  assume "x \<le> y"
  with False have "\<lfloor>x\<rfloor> + 1 \<le> \<lfloor>y\<rfloor>" using floor_mono [of x y] by linarith
  then show ?thesis using round_half_even_cases [of x] round_half_even_cases [of y] by linarith
qed

lemma ilog2_bounds:
  assumes "0 < x"
  shows "pow2 (ilog2 x) \<le> x" and "x < pow2 (ilog2 x + 1)"
proof -
  obtain a b where q: "quotient_of x = (a, b)" by force
  have x: "x = of_int a / of_int b" and b: "0 < b"
    using quotient_of_div [OF q] quotient_of_denom_pos [OF q] by simp_all
  have a: "0 < a" using assms b by (simp add: x zero_less_divide_iff)
  define m n where "m = nat (bitlen a)" and "n = nat (bitlen b)"
  have bits: "2 ^ (nat (bitlen c) - 1) \<le> c \<and> c < 2 ^ nat (bitlen c) \<and> 0 < nat (bitlen c)"
    if "0 < c" for c
  proof -
    have "0 < bitlen c" using bitlen_bounds [OF that] that by (cases "bitlen c \<le> 0") auto
    then show ?thesis using bitlen_bounds [OF that] by (simp add: nat_diff_distrib)
  qed
  have ba: "2 ^ (m - 1) \<le> a" "a < 2 ^ m" "0 < m" and bb: "2 ^ (n - 1) \<le> b" "b < 2 ^ n" "0 < n"
    using bits [OF a] bits [OF b] by (simp_all add: m_def n_def)
  have le_rat: "(2::rat) ^ i \<le> of_int c \<longleftrightarrow> 2 ^ i \<le> c" "of_int c < (2::rat) ^ i \<longleftrightarrow> c < 2 ^ i" for c i
    by (metis of_int_le_iff of_int_numeral of_int_power, metis of_int_less_iff of_int_numeral of_int_power)
  have lo: "pow2 (int m - int n - 1) \<le> x"
  proof -
    have "pow2 (int m - int n - 1) * of_int b \<le> pow2 (int m - int n - 1) * pow2 (int n)"
      using bb(2) by (simp add: pow2_nat less_imp_le le_rat)
    also have "\<dots> = pow2 (int (m - 1))" using ba(3) by (simp flip: pow2_add add: of_nat_diff)
    also have "\<dots> \<le> of_int a" using ba(1) by (simp only: pow2_nat le_rat)
    finally show ?thesis using b by (simp add: x pos_le_divide_eq)
  qed
  have hi: "x < pow2 (int m - int n + 1)"
  proof -
    have "of_int a < pow2 (int m)" using ba(2) by (simp only: pow2_nat le_rat)
    also have "\<dots> = pow2 (int m - int n + 1) * pow2 (int (n - 1))"
      using bb(3) by (simp flip: pow2_add add: of_nat_diff)
    also have "\<dots> \<le> pow2 (int m - int n + 1) * of_int b"
      using bb(1) by (intro mult_left_mono) (simp_all only: pow2_nat le_rat, simp add: less_imp_le)
    finally show ?thesis using b by (simp add: x pos_divide_less_eq)
  qed
  have "ilog2 x = (if pow2 (int m - int n) \<le> x then int m - int n else int m - int n - 1)"
    by (simp add: ilog2_def q m_def n_def)
  then show "pow2 (ilog2 x) \<le> x" and "x < pow2 (ilog2 x + 1)"
    using lo hi by auto
qed

lemma ilog2_mono: "0 < x \<Longrightarrow> x \<le> y \<Longrightarrow> ilog2 x \<le> ilog2 y"
proof (rule ccontr)
  assume "0 < x" "x \<le> y" "\<not> ilog2 x \<le> ilog2 y"
  then have "pow2 (ilog2 y + 1) \<le> pow2 (ilog2 x)" by (intro pow2_mono) simp
  also have "\<dots> \<le> x" by (rule ilog2_bounds) fact
  also have "\<dots> \<le> y" by fact
  finally show False using ilog2_bounds(2) [of y] \<open>0 < x\<close> \<open>x \<le> y\<close> by simp
qed

lemma ieee_round_bounds:
  assumes "0 < x" "0 < p"
  shows "pow2 (ilog2 x) \<le> ieee_round p x" and "ieee_round p x \<le> pow2 (ilog2 x + 1)"
proof -
  define e q where "e = ilog2 x" and "q = pow2 (ilog2 x - (int p - 1))"
  have q0: "0 < q" and lo: "pow2 e = 2 ^ (p - 1) * q" and hi: "pow2 (e + 1) = 2 ^ p * q"
    using assms(2) by (simp_all add: q_def e_def flip: pow2_nat pow2_add add: of_nat_diff)
  have ints: "(2::rat) ^ n = of_int (2 ^ n)" for n by simp
  have "2 ^ (p - 1) \<le> x / q" "x / q \<le> 2 ^ p"
    using ilog2_bounds [OF assms(1)] lo hi q0 by (simp_all add: e_def pos_le_divide_eq pos_divide_le_eq)
  then have "2 ^ (p - 1) \<le> round_half_even (x / q)" "round_half_even (x / q) \<le> 2 ^ p"
    using round_half_even_mono [of _ "x / q"] round_half_even_mono [of "x / q"]
    by (metis ints round_half_even_of_int)+
  then have "2 ^ (p - 1) \<le> (of_int (round_half_even (x / q)) :: rat)"
      "(of_int (round_half_even (x / q)) :: rat) \<le> 2 ^ p"
    by (simp_all only: ints of_int_le_iff)
  then show "pow2 (ilog2 x) \<le> ieee_round p x" and "ieee_round p x \<le> pow2 (ilog2 x + 1)"
    using assms(1) q0 lo hi by (simp_all add: ieee_round_def Let_def q_def e_def)
qed

lemma ieee_round_nonneg: "0 \<le> ieee_round p x"
  by (cases "0 < p"; cases "0 < x")
     (auto simp: ieee_round_def Let_def round_half_even_def zero_le_mult_iff less_imp_le)

lemma ieee_round_mono:
  assumes "0 < p" "x \<le> y"
  shows "ieee_round p x \<le> ieee_round p y"
proof (cases "0 < x")
  case False
  then show ?thesis using ieee_round_nonneg by (simp add: ieee_round_def)
next
  case True
  then have y: "0 < y" using assms(2) by simp
  show ?thesis
  proof (cases "ilog2 x = ilog2 y")
    case True
    define q where "q = pow2 (ilog2 y - (int p - 1))"
    have "x / q \<le> y / q" using assms(2) by (simp add: q_def divide_right_mono less_imp_le)
    then have "round_half_even (x / q) \<le> round_half_even (y / q)" by (rule round_half_even_mono)
    then show ?thesis using True \<open>0 < x\<close> y by (simp add: ieee_round_def Let_def q_def)
  next
    case False
    then have "ilog2 x + 1 \<le> ilog2 y" using ilog2_mono [OF \<open>0 < x\<close> assms(2)] by simp
    then have "pow2 (ilog2 x + 1) \<le> pow2 (ilog2 y)" by (rule pow2_mono)
    then show ?thesis
      using ieee_round_bounds(2) [OF \<open>0 < x\<close> assms(1)] ieee_round_bounds(1) [OF y assms(1)] by linarith
  qed
qed

lemma ieee_round_0 [simp]: "ieee_round p 0 = 0"
  by (simp add: ieee_round_def)

text \<open>A value is representable when rounding leaves it alone.\<close>

definition representable :: "nat \<Rightarrow> rat \<Rightarrow> bool" where
  "representable p x \<longleftrightarrow> ieee_round p x = x"

lemma representable_mono:
  assumes "representable p x" "p \<le> p'" "0 < p"
  shows "representable p' x"
proof (cases "0 < x")
  case False
  then show ?thesis using assms(1) by (auto simp: representable_def ieee_round_def)
next
  case True
  define n d where "n = round_half_even (x / pow2 (ilog2 x - (int p - 1)))"
    and "d = pow2 (ilog2 x - (int p' - 1))"
  have "x = of_int n * pow2 (ilog2 x - (int p - 1))"
    using assms(1) True by (simp add: representable_def ieee_round_def Let_def n_def)
  also have "pow2 (ilog2 x - (int p - 1)) = pow2 (int (p' - p)) * d"
    using assms(2) by (simp add: d_def flip: pow2_add add: of_nat_diff algebra_simps)
  finally have x: "x = of_int (n * 2 ^ (p' - p)) * d" by (simp add: pow2_nat)
  then have "x / d = of_int (n * 2 ^ (p' - p))"
    by (metis d_def nonzero_mult_div_cancel_right pow2_neq_0)
  then have "round_half_even (x / d) = n * 2 ^ (p' - p)" by (metis round_half_even_of_int)
  then have "of_int (round_half_even (x / d)) * d = x" using x by metis
  then show ?thesis using True by (simp add: representable_def ieee_round_def Let_def d_def)
qed

lemma ieee_round_ge_representable:
  "0 < p \<Longrightarrow> representable p t \<Longrightarrow> t \<le> x \<Longrightarrow> t \<le> ieee_round p x"
  using ieee_round_mono [of p t x] by (simp add: representable_def)

lemma ieee_round_le_representable:
  "0 < p \<Longrightarrow> representable p t \<Longrightarrow> x \<le> t \<Longrightarrow> ieee_round p x \<le> t"
  using ieee_round_mono [of p x t] by (simp add: representable_def)

abbreviation f32_of :: "rat \<Rightarrow> f32" where
  "f32_of \<equiv> ieee_round 24"

abbreviation f64_of :: "rat \<Rightarrow> f64" where
  "f64_of \<equiv> ieee_round 53"

lemma representable_1 [simp]: "representable 24 1" "representable 53 1"
  by code_simp+

end
