(* ===== verification/Backoff.thy ===== *)
theory Backoff
  imports Prelude
begin

text \<open>
  Attempts (\<open>seatbelt/src/attempt.rs\<close>) and the delays between retries
  (\<open>seatbelt/src/retry/backoff.rs\<close>).

  Durations are nanoseconds up to \<open>DURATION_MAX\<close>. The code computes delays in \<open>f64\<close> seconds; each
  operation is the exact one on rationals followed by \<open>f64_round\<close>, the rounding to 53 bits for either
  sign. A product that overflows to infinity in the code is at least \<open>2\<^sup>1\<^sup>0\<^sup>2\<^sup>4\<close> here, and both saturate
  to \<open>DURATION_MAX\<close>. The functions \<open>exp2\<close>, \<open>sqrt\<close> and \<open>tanh\<close>, whose precision the language leaves
  open, are the parameters \<open>float_fns\<close> of the decorrelated jitter; the random draw is an argument.
\<close>

section \<open>Attempts\<close>

record attempt =
  at_index :: u32
  at_is_last :: bool

definition attempt_new :: "u32 \<Rightarrow> bool \<Rightarrow> attempt" where
  "attempt_new index is_last = \<lparr>at_index = index, at_is_last = is_last\<rparr>"

definition attempt_default :: attempt where
  "attempt_default = attempt_new 0 True"

definition attempt_is_first :: "attempt \<Rightarrow> bool" where
  "attempt_is_first a \<longleftrightarrow> at_index a = 0"

definition attempt_increment :: "attempt \<Rightarrow> u32 \<Rightarrow> attempt option" where
  "attempt_increment a max_attempts =
     (let nxt = saturating_add (at_index a) 1
      in if max_attempts \<le> nxt then None
         else let is_last = (nxt = saturating_sub max_attempts 1) in Some (attempt_new nxt is_last))"

definition attempt_first :: "u32 \<Rightarrow> attempt" where
  "attempt_first max_attempts = attempt_new 0 (max_attempts = 1)"

section \<open>Durations and floating point\<close>

definition DURATION_MAX :: duration where
  "DURATION_MAX = 2 ^ 64 * 1000000000 - 1"

definition f64_round :: "rat \<Rightarrow> f64" where
  "f64_round x = (if x < 0 then - f64_of (- x) else f64_of x)"

definition as_secs_f64 :: "duration \<Rightarrow> f64" where
  "as_secs_f64 d =
     f64_round (f64_round (of_nat (d div 1000000000)) + f64_round (of_nat (d mod 1000000000) / 1000000000))"

definition try_from_secs_f64 :: "f64 \<Rightarrow> duration option" where
  "try_from_secs_f64 secs =
     (let nanos = round_half_even (secs * 1000000000)
      in if secs < 0 \<or> int DURATION_MAX < nanos then None else Some (nat nanos))"

definition secs_to_duration_saturating :: "f64 \<Rightarrow> duration" where
  "secs_to_duration_saturating secs =
     (if secs \<le> 0 then 0
      else case try_from_secs_f64 secs of Some d \<Rightarrow> d | None \<Rightarrow> DURATION_MAX)"

definition duration_saturating_mul :: "duration \<Rightarrow> u32 \<Rightarrow> duration" where
  "duration_saturating_mul d n = min (d * unat n) DURATION_MAX"

section \<open>Backoff\<close>

datatype backoff = BO_Constant | BO_Linear | BO_Exponential

definition JITTER_FACTOR :: f64 where
  "JITTER_FACTOR = 1 / 2"

definition EXPONENTIAL_FACTOR :: f64 where
  "EXPONENTIAL_FACTOR = 2"

record backoff_options =
  bo_backoff_type :: backoff
  bo_base_delay :: duration
  bo_max_delay :: "duration option"
  bo_use_jitter :: bool

definition backoff_options_default :: backoff_options where
  "backoff_options_default =
     \<lparr>bo_backoff_type = BO_Exponential, bo_base_delay = 10000000, bo_max_delay = None, bo_use_jitter = True\<rparr>"

definition clamp_to_max :: "duration \<Rightarrow> duration option \<Rightarrow> duration" where
  "clamp_to_max d max_delay = (case max_delay of None \<Rightarrow> d | Some m \<Rightarrow> min d m)"

definition duration_mul_pow2 :: "duration \<Rightarrow> u32 \<Rightarrow> duration" where
  "duration_mul_pow2 base attempt =
     (let factor = EXPONENTIAL_FACTOR ^ min (unat attempt) (2 ^ 31 - 1)
      in secs_to_duration_saturating (f64_round (as_secs_f64 base * factor)))"

definition apply_jitter :: "duration \<Rightarrow> f64 \<Rightarrow> duration" where
  "apply_jitter delay rnd =
     (let ms = f64_round (as_secs_f64 delay * 1000);
          offset = f64_round (f64_round (ms * JITTER_FACTOR) / 2);
          random_delay = f64_round (f64_round (ms * JITTER_FACTOR) * rnd - offset);
          new_ms = f64_round (ms + random_delay)
      in secs_to_duration_saturating (f64_round (new_ms / 1000)))"

record float_fns =
  ff_exp2 :: "f64 \<Rightarrow> f64"
  ff_sqrt :: "f64 \<Rightarrow> f64"
  ff_tanh :: "f64 \<Rightarrow> f64"

definition decorrelated_jitter_backoff_v2 ::
  "float_fns \<Rightarrow> u32 \<Rightarrow> duration \<Rightarrow> f64 \<Rightarrow> f64 \<Rightarrow> duration \<times> f64" where
  "decorrelated_jitter_backoff_v2 fns attempt base_delay prev rnd =
     (let rp_scaling = f64_round (1 / f64_round (14 / 10));
          target_secs_first_delay = as_secs_f64 base_delay;
          t = f64_round (of_nat (unat attempt) + rnd);
          nxt = f64_round (ff_exp2 fns t * ff_tanh fns (ff_sqrt fns (f64_round (4 * t))))
      in if 2 ^ 1024 \<le> nxt then (DURATION_MAX, nxt)
         else let formula_intrinsic_value = f64_round (nxt - prev)
              in (secs_to_duration_saturating
                    (f64_round (f64_round (formula_intrinsic_value * rp_scaling) * target_secs_first_delay)),
                  nxt))"

record delays_iter =
  di_props :: backoff_options
  di_attempt :: u32
  di_prev :: f64

definition backoff_delays :: "backoff_options \<Rightarrow> delays_iter" where
  "backoff_delays props = \<lparr>di_props = props, di_attempt = 0, di_prev = 0\<rparr>"

definition delays_next :: "float_fns \<Rightarrow> delays_iter \<Rightarrow> f64 \<Rightarrow> delays_iter \<times> duration" where
  "delays_next fns it rnd =
     (let props = di_props it
      in if bo_base_delay props = 0 then (it, 0)
         else let next_attempt = saturating_add (di_attempt it) 1;
                  (delay, prev) =
                    (case bo_backoff_type props of
                       BO_Constant \<Rightarrow>
                         (if bo_use_jitter props then apply_jitter (bo_base_delay props) rnd
                          else bo_base_delay props, di_prev it)
                     | BO_Linear \<Rightarrow>
                         (let delay = duration_saturating_mul (bo_base_delay props) next_attempt
                          in (if bo_use_jitter props then apply_jitter delay rnd else delay, di_prev it))
                     | BO_Exponential \<Rightarrow>
                         if bo_use_jitter props
                         then decorrelated_jitter_backoff_v2 fns (di_attempt it) (bo_base_delay props)
                                (di_prev it) rnd
                         else (duration_mul_pow2 (bo_base_delay props) (di_attempt it), di_prev it))
              in (it\<lparr>di_attempt := next_attempt, di_prev := prev\<rparr>, clamp_to_max delay (bo_max_delay props)))"

text \<open>The first delays of an iterator, for a list of draws.\<close>

fun take_delays :: "float_fns \<Rightarrow> delays_iter \<Rightarrow> f64 list \<Rightarrow> duration list" where
  "take_delays fns it [] = []"
| "take_delays fns it (rnd # rnds) =
     (let (it', d) = delays_next fns it rnd in d # take_delays fns it' rnds)"

section \<open>Rounding facts\<close>

lemma ilog2_unique:
  assumes "0 < x" "pow2 e \<le> x" "x < pow2 (e + 1)"
  shows "ilog2 x = e"
proof (rule ccontr)
  assume "ilog2 x \<noteq> e"
  then consider "ilog2 x + 1 \<le> e" | "e + 1 \<le> ilog2 x" by linarith
  then show False
  proof cases
    case 1
    from pow2_mono [OF this] assms(2) ilog2_bounds(2) [OF assms(1)] show False by linarith
  next
    case 2
    from pow2_mono [OF this] assms(3) ilog2_bounds(1) [OF assms(1)] show False by linarith
  qed
qed

lemma ilog2_scale: "0 < x \<Longrightarrow> ilog2 (x * pow2 k) = ilog2 x + k"
proof (rule ilog2_unique)
  assume x: "0 < x"
  then show "0 < x * pow2 k" by simp
  show "pow2 (ilog2 x + k) \<le> x * pow2 k"
    unfolding pow2_add using ilog2_bounds(1) [OF x] by (simp add: mult_right_mono less_imp_le)
  have "ilog2 x + k + 1 = (ilog2 x + 1) + k" by simp
  then show "x * pow2 k < pow2 (ilog2 x + k + 1)"
    using ilog2_bounds(2) [OF x] by (simp only: pow2_add) simp
qed

lemma ieee_round_scale: "ieee_round p (x * pow2 k) = ieee_round p x * pow2 k"
proof (cases "0 < x")
  case True
  define q where "q = pow2 (ilog2 x - (int p - 1))"
  have "pow2 (ilog2 (x * pow2 k) - (int p - 1)) = q * pow2 k"
    using True by (simp add: ilog2_scale q_def flip: pow2_add) (simp add: algebra_simps)
  moreover have "x * pow2 k / (q * pow2 k) = x / q" by simp
  moreover have "\<not> x * pow2 k \<le> 0" using True by (simp add: not_le)
  ultimately show ?thesis using True
    by (simp add: ieee_round_def Let_def q_def [symmetric])
next
  case False
  then have "x * pow2 k \<le> 0" by (simp add: mult_nonpos_nonneg less_imp_le not_less)
  with False show ?thesis by (simp add: ieee_round_def)
qed

lemma ieee_round_error:
  assumes "0 < p" "0 \<le> x"
  shows "\<bar>ieee_round p x - x\<bar> \<le> x * pow2 (- int p)"
proof (cases "0 < x")
  case True
  define q where "q = pow2 (ilog2 x - (int p - 1))"
  have "\<bar>of_int (round_half_even (x / q)) - x / q\<bar> \<le> 1 / 2"
    using round_half_even_cases [of "x / q"] of_int_floor_le [of "x / q"] by linarith
  then have "\<bar>of_int (round_half_even (x / q)) - x / q\<bar> * q \<le> 1 / 2 * q"
    by (rule mult_right_mono) (simp add: q_def less_imp_le)
  then have "\<bar>ieee_round p x - x\<bar> \<le> q / 2"
  proof -
    have q: "0 < q" by (simp add: q_def)
    have "ieee_round p x - x = (of_int (round_half_even (x / q)) - x / q) * q"
      using True q by (simp add: ieee_round_def Let_def q_def [symmetric] left_diff_distrib)
    then show ?thesis
      using \<open>\<bar>of_int (round_half_even (x / q)) - x / q\<bar> * q \<le> 1 / 2 * q\<close> q by (simp add: abs_mult)
  qed
  also have "q / 2 = pow2 (ilog2 x) * pow2 (- int p)"
  proof -
    have "ilog2 x - (int p - 1) = (ilog2 x + - int p) + 1" by simp
    then have "q = 2 * pow2 (ilog2 x + - int p)" unfolding q_def by (simp only: pow2_Suc)
    then show ?thesis by (simp only: pow2_add)
  qed
  also have "\<dots> \<le> x * pow2 (- int p)"
    using ilog2_bounds(1) [OF True] by (simp add: mult_right_mono less_imp_le)
  finally show ?thesis .
qed (use assms in simp)

lemma f64_of_int_exact:
  assumes "n < 2 ^ 53"
  shows "f64_of (of_nat n) = of_nat n"
proof (cases "n = 0")
  case False
  define e where "e = ilog2 (of_nat n)"
  have n: "0 < (of_nat n :: rat)" using False by simp
  have "pow2 e < pow2 53"
    using ilog2_bounds(1) [OF n] assms
    by (simp add: e_def pow2_def)
  then have "e < 53" using pow2_mono [of 53 e] by force
  define k where "k = nat (52 - e)"
  have "pow2 (e - 52) * pow2 (int k) = 1"
    using \<open>e < 53\<close> by (simp add: k_def flip: pow2_add) (simp add: pow2_def)
  then have "of_nat n / pow2 (e - 52) = (of_int (int n * 2 ^ k) :: rat)"
    by (simp add: field_simps pow2_nat [symmetric])
  then have "round_half_even (of_nat n / pow2 (e - 52)) = int n * 2 ^ k"
    by (metis round_half_even_of_int)
  then show ?thesis
    using n \<open>pow2 (e - 52) * pow2 (int k) = 1\<close>
    by (simp add: ieee_round_def Let_def e_def [symmetric] pow2_nat [symmetric] mult.commute mult.left_commute)
qed simp

lemma f64_round_nonneg [simp]: "0 \<le> x \<Longrightarrow> f64_round x = f64_of x" "f64_round 0 = 0"
  by (simp_all add: f64_round_def)

lemma f64_round_mono: "x \<le> y \<Longrightarrow> f64_round x \<le> f64_round y"
  using ieee_round_mono [of 53 x y] ieee_round_mono [of 53 "- y" "- x"] ieee_round_nonneg [of 53 "- x"]
    ieee_round_nonneg [of 53 y]
  by (auto simp: f64_round_def)

section \<open>Lemmas on attempts and delays\<close>

lemma attempt_increment_Some:
  assumes "attempt_increment a m = Some a'"
  shows "unat (at_index a') = unat (at_index a) + 1" "unat (at_index a') < unat m"
    "at_is_last a' \<longleftrightarrow> unat (at_index a') + 1 = unat m"
proof -
  have lt: "saturating_add (at_index a) 1 < m" and a': "a' = attempt_new (saturating_add (at_index a) 1)
      (saturating_add (at_index a) 1 = saturating_sub m 1)"
    using assms by (auto simp: attempt_increment_def Let_def not_le split: if_splits)
  have nxt: "unat (saturating_add (at_index a) 1) = unat (at_index a) + 1"
    using lt unat_u32_less [of m] by (simp add: word_less_nat_alt word_arith_simps)
  then show "unat (at_index a') = unat (at_index a) + 1" "unat (at_index a') < unat m"
    using lt by (simp_all add: a' attempt_new_def word_less_nat_alt)
  show "at_is_last a' \<longleftrightarrow> unat (at_index a') + 1 = unat m"
    using nxt lt by (auto simp: a' attempt_new_def word_unat_eq_iff word_arith_simps word_less_nat_alt)
qed

lemma attempt_increment_None: "attempt_increment a m = None \<longleftrightarrow> unat m \<le> unat (at_index a) + 1"
proof -
  have "m \<le> saturating_add (at_index a) 1 \<longleftrightarrow> unat m \<le> unat (at_index a) + 1"
    using unat_u32_less [of m] by (auto simp: word_le_nat_alt word_arith_simps)
  then show ?thesis by (simp add: attempt_increment_def Let_def)
qed

lemma secs_to_duration_le: "secs_to_duration_saturating x \<le> DURATION_MAX"
  by (auto simp: secs_to_duration_saturating_def try_from_secs_f64_def Let_def split: if_splits option.split)

lemma apply_jitter_le: "apply_jitter d r \<le> DURATION_MAX"
  by (simp add: apply_jitter_def Let_def secs_to_duration_le)

lemma decorrelated_le: "fst (decorrelated_jitter_backoff_v2 fns a d p r) \<le> DURATION_MAX"
  by (simp add: decorrelated_jitter_backoff_v2_def Let_def secs_to_duration_le)

lemma delays_next_props [simp]: "di_props (fst (delays_next fns it r)) = di_props it"
  by (simp add: delays_next_def Let_def case_prod_beta)

lemma delays_next_le:
  assumes "bo_base_delay (di_props it) \<le> DURATION_MAX"
  shows "snd (delays_next fns it r) \<le> clamp_to_max DURATION_MAX (bo_max_delay (di_props it))"
proof -
  have "clamp_to_max d m \<le> clamp_to_max DURATION_MAX m" if "d \<le> DURATION_MAX" for d m
    using that by (auto simp: clamp_to_max_def split: option.split)
  with assms show ?thesis
    by (auto simp: delays_next_def Let_def case_prod_beta apply_jitter_le decorrelated_le duration_mul_pow2_def
        secs_to_duration_le duration_saturating_mul_def split: backoff.split)
qed

lemma duration_mul_pow2_secs:
  assumes "s < 2 ^ 53" "0 < s" "k < 2 ^ 31"
  shows "duration_mul_pow2 (s * 1000000000) (of_nat k) = min (s * 2 ^ k * 1000000000) DURATION_MAX"
proof -
  have "unat (of_nat k :: u32) = k" using assms(3) by (simp add: unat_of_nat_small)
  moreover have "as_secs_f64 (s * 1000000000) = of_nat s"
    using f64_of_int_exact [OF assms(1)] by (simp add: as_secs_f64_def ieee_round_nonneg)
  moreover have "f64_round (of_nat s * 2 ^ k) = of_nat (s * 2 ^ k)"
    using ieee_round_scale [of 53 "of_nat s" "int k"] f64_of_int_exact [OF assms(1)] by (simp add: pow2_nat)
  moreover have "round_half_even (of_nat (s * 2 ^ k) * 1000000000) = int (s * 2 ^ k * 1000000000)"
    using round_half_even_of_int [of "int (s * 2 ^ k * 1000000000)"] by simp
  moreover have "min k (2 ^ 31 - 1) = k" using assms(3) by simp
  moreover have "\<not> (of_nat (s * 2 ^ k) :: rat) \<le> 0" "\<not> (of_nat (s * 2 ^ k) :: rat) < 0"
    using assms(2) by (simp_all del: of_nat_mult of_nat_power)
  ultimately show ?thesis
    by (simp add: duration_mul_pow2_def EXPONENTIAL_FACTOR_def secs_to_duration_saturating_def
        try_from_secs_f64_def Let_def min_def del: of_nat_mult of_nat_power)
qed

definition exact_delay :: "backoff \<Rightarrow> duration \<Rightarrow> nat \<Rightarrow> duration" where
  "exact_delay b base k = min (case b of
     BO_Constant \<Rightarrow> base | BO_Linear \<Rightarrow> base * (k + 1) | BO_Exponential \<Rightarrow> base * 2 ^ k) DURATION_MAX"

lemma saturating_add_of_nat: "k < 2 ^ 32 - 1 \<Longrightarrow> saturating_add (of_nat k :: u32) 1 = of_nat (k + 1)"
  using unat_of_nat_small [of "k + 1", where 'a = 32]
  by (simp add: word_unat_eq_iff word_arith_simps unat_of_nat_small del: of_nat_add of_nat_Suc)

lemma delays_next_exact:
  assumes "\<not> bo_use_jitter (di_props it)" "bo_base_delay (di_props it) = s * 1000000000" "0 < s" "s < 2 ^ 53"
    "di_attempt it = of_nat k" "k < 2 ^ 31"
  shows "delays_next fns it r = (it\<lparr>di_attempt := of_nat (k + 1)\<rparr>,
    clamp_to_max (exact_delay (bo_backoff_type (di_props it)) (s * 1000000000) k) (bo_max_delay (di_props it)))"
proof -
  have "s * 1000000000 \<le> DURATION_MAX" using assms(4) by (simp add: DURATION_MAX_def)
  moreover have "saturating_add (of_nat k :: u32) 1 = of_nat (k + 1)"
    using assms(6) by (intro saturating_add_of_nat) simp
  moreover have "unat (of_nat (k + 1) :: u32) = k + 1" using assms(6) by (intro unat_of_nat_small) simp
  ultimately show ?thesis
    using assms duration_mul_pow2_secs [OF assms(4,3,6)]
    by (cases "bo_backoff_type (di_props it)")
       (simp_all add: delays_next_def Let_def exact_delay_def duration_saturating_mul_def mult.assoc mult.commute
         mult.left_commute del: of_nat_add)
qed

lemma take_delays_exact:
  assumes "\<not> bo_use_jitter (di_props it)" "bo_base_delay (di_props it) = s * 1000000000" "0 < s" "s < 2 ^ 53"
    "di_attempt it = of_nat k" "k + length rnds \<le> 2 ^ 31"
  shows "take_delays fns it rnds = map (\<lambda>i. clamp_to_max
      (exact_delay (bo_backoff_type (di_props it)) (s * 1000000000) i) (bo_max_delay (di_props it)))
    [k ..< k + length rnds]"
  using assms
proof (induction rnds arbitrary: it k)
  case (Cons r rnds)
  have "k < 2 ^ 31" using Cons.prems(6) by simp
  note step = delays_next_exact [OF Cons.prems(1-5) this, of fns r]
  have "[k ..< k + length (r # rnds)] = k # [k + 1 ..< (k + 1) + length rnds]" by (simp add: upt_rec)
  then show ?case
    using Cons.IH [of "it\<lparr>di_attempt := of_nat (k + 1)\<rparr>" "k + 1"] Cons.prems step by simp
qed simp

text \<open>The error of the float computations of the jitter.\<close>

definition ulp :: rat where
  "ulp = pow2 (- 53)"

definition dn :: rat where
  "dn = 1 - ulp"

definition up :: rat where
  "up = 1 + ulp"

lemma dn_up_range [simp]: "0 < dn" "dn \<le> 1" "1 \<le> up" "0 < up"
  by (simp_all add: ulp_def dn_def up_def pow2_def)

lemma power5_split: "(x :: rat) ^ 5 = x ^ 3 * x * x" "x ^ 3 = x ^ 2 * x"
  by (simp_all add: eval_nat_numeral)

lemma f64_of_within:
  assumes "0 \<le> l" "l \<le> x" "x \<le> h"
  shows "l * dn \<le> f64_of x \<and> f64_of x \<le> h * up \<and> 0 \<le> f64_of x"
proof -
  have "\<bar>f64_of x - x\<bar> \<le> x * ulp" using ieee_round_error [of 53 x] assms by (simp add: ulp_def)
  then have lo: "x * dn \<le> f64_of x" and hi: "f64_of x \<le> x * up"
    by (simp_all add: dn_def up_def algebra_simps abs_le_iff)
  have "l * dn \<le> x * dn" "x * up \<le> h * up"
    using assms by (simp_all add: mult_right_mono less_imp_le)
  with lo hi show ?thesis using ieee_round_nonneg [of 53 x] by linarith
qed

lemma ieee_round_idem:
  assumes "0 < p"
  shows "ieee_round p (ieee_round p x) = ieee_round p x"
proof (cases "0 < x")
  case True
  define e q n where "e = ilog2 x" and "q = pow2 (ilog2 x - (int p - 1))" and "n = round_half_even (x / q)"
  have y: "ieee_round p x = of_int n * q" using True by (simp add: ieee_round_def Let_def q_def n_def)
  have q: "0 < q" and hi: "pow2 (e + 1) = 2 ^ p * q"
    using assms by (simp_all add: q_def e_def flip: pow2_nat pow2_add add: of_nat_diff)
  note b = ieee_round_bounds [OF True assms, folded e_def]
  show ?thesis
  proof (cases "ieee_round p x = pow2 (e + 1)")
    case True
    have "ilog2 (pow2 (e + 1)) = e + 1"
      using pow2_Suc [of "e + 1"] by (intro ilog2_unique) simp_all
    moreover have "pow2 (e + 1) / pow2 (e + 1 - (int p - 1)) = of_int (2 ^ (p - 1))"
    proof -
      have "int (p - 1) + (e + 1 - (int p - 1)) = e + 1" using assms by (simp add: of_nat_diff)
      then have "pow2 (e + 1) = pow2 (int (p - 1)) * pow2 (e + 1 - (int p - 1))" by (simp only: pow2_add [symmetric])
      then show ?thesis by (simp add: pow2_nat)
    qed
    ultimately have "ieee_round p (pow2 (e + 1)) =
        of_int (round_half_even (of_int (2 ^ (p - 1)))) * pow2 (e + 1 - (int p - 1))"
      using pow2_pos [of "e + 1"] unfolding ieee_round_def Let_def by (simp only: not_le [symmetric] if_False)
    also have "\<dots> = pow2 (int (p - 1)) * pow2 (e + 1 - (int p - 1))"
      by (simp only: round_half_even_of_int) (simp add: pow2_nat)
    also have "\<dots> = pow2 (int (p - 1) + (e + 1 - (int p - 1)))" by (simp only: pow2_add)
    also have "int (p - 1) + (e + 1 - (int p - 1)) = e + 1" using assms by (simp add: of_nat_diff)
    finally show ?thesis using True by simp
  next
    case False
    then have e': "ilog2 (of_int n * q) = e"
      using b y by (intro ilog2_unique) (auto intro: less_le_trans [OF pow2_pos])
    have "\<not> of_int n * q \<le> 0" using b(1) y pow2_pos [of e] by linarith
    then have "ieee_round p (of_int n * q) = of_int (round_half_even (of_int n * q / q)) * q"
      unfolding ieee_round_def [of p "of_int n * q"] Let_def e' by (simp only: q_def e_def if_False)
    also have "of_int n * q / q = of_int n" using q by simp
    finally show ?thesis by (simp add: y)
  qed
qed (simp add: ieee_round_def)

lemma f64_of_half: "f64_of (f64_of x / 2) = f64_of x / 2"
  using ieee_round_scale [of 53 "f64_of x" "- 1"] ieee_round_idem [of 53 x] by (simp add: pow2_def)

lemma f64_of_quarter: "f64_of (f64_of x / 4) = f64_of x / 4"
  using ieee_round_scale [of 53 "f64_of x" "- 2"] ieee_round_idem [of 53 x] by (simp add: pow2_def)

lemma as_secs_f64_within:
  "of_nat d / 1000000000 * dn ^ 2 \<le> as_secs_f64 d \<and> as_secs_f64 d \<le> of_nat d / 1000000000 * up ^ 2 \<and>
   0 \<le> as_secs_f64 d"
proof -
  define a b :: rat where "a = of_nat (d div 1000000000)" and "b = of_nat (d mod 1000000000) / 1000000000"
  have nn: "0 \<le> a" "0 \<le> b" by (simp_all add: a_def b_def)
  have "(of_nat d :: rat) = of_nat (d div 1000000000 * 1000000000 + d mod 1000000000)" by simp
  then have d: "of_nat d / 1000000000 = a + b"
    by (simp only: of_nat_add of_nat_mult of_nat_numeral) (simp add: a_def b_def add_divide_distrib)
  have x: "(a + b) * dn \<le> f64_of a + f64_of b" "f64_of a + f64_of b \<le> (a + b) * up"
    using f64_of_within [of a a a] f64_of_within [of b b b] nn by (simp_all add: distrib_right)
  moreover have "0 \<le> (a + b) * dn" using nn by (simp add: less_imp_le)
  ultimately show ?thesis
    using f64_of_within [of "(a + b) * dn" "f64_of a + f64_of b" "(a + b) * up"] nn
    by (simp add: as_secs_f64_def d power2_eq_square mult.assoc a_def [symmetric] b_def [symmetric] ieee_round_nonneg)
qed

lemma round_half_even_error: "\<bar>of_int (round_half_even x) - x\<bar> \<le> 1 / 2"
  using round_half_even_cases [of x] of_int_floor_le [of x] by linarith

lemma secs_to_duration_within:
  assumes "0 \<le> y"
  shows "of_nat (secs_to_duration_saturating y) \<le> y * 1000000000 + 1 / 2"
    and "l \<le> y * 1000000000 \<Longrightarrow> l \<le> of_nat DURATION_MAX \<Longrightarrow> l - 1 / 2 \<le> of_nat (secs_to_duration_saturating y)"
proof -
  define n where "n = round_half_even (y * 1000000000)"
  have n: "\<bar>of_int n - y * 1000000000\<bar> \<le> 1 / 2" unfolding n_def by (rule round_half_even_error)
  have "round_half_even 0 = 0" using round_half_even_of_int [of 0] by simp
  then have n0: "0 \<le> n" using round_half_even_mono [of 0 "y * 1000000000"] assms by (simp add: n_def)
  have cases: "secs_to_duration_saturating y = (if y = 0 then 0 else if int DURATION_MAX < n then DURATION_MAX else nat n)"
    using assms by (simp add: secs_to_duration_saturating_def try_from_secs_f64_def Let_def n_def)
  have hi: "of_int n \<le> y * 1000000000 + 1 / 2" using n by (simp only: abs_le_iff) linarith
  show "of_nat (secs_to_duration_saturating y) \<le> y * 1000000000 + 1 / 2"
  proof (cases "int DURATION_MAX < n")
    case True
    then have "(of_nat DURATION_MAX :: rat) \<le> of_int n" by (metis less_imp_le of_int_le_iff of_int_of_nat_eq)
    with hi show ?thesis using True assms by (auto simp: cases)
  qed (use hi n0 assms in \<open>auto simp: cases\<close>)
  assume "l \<le> y * 1000000000" "l \<le> of_nat DURATION_MAX"
  moreover have "y * 1000000000 - 1 / 2 \<le> of_int n" using n by (simp only: abs_le_iff) linarith
  ultimately show "l - 1 / 2 \<le> of_nat (secs_to_duration_saturating y)"
    using n0 by (auto simp: cases)
qed

lemma f64_round_quarter_range:
  assumes "- (m / 4) \<le> x" "x \<le> m / 4" "f64_of m = m" "0 \<le> m"
  shows "- (m / 4) \<le> f64_round x \<and> f64_round x \<le> m / 4"
proof -
  have q: "f64_of (m / 4) = m / 4" using f64_of_quarter [of m] assms(3) by simp
  then have "f64_round (m / 4) = m / 4" "f64_round (- (m / 4)) = - (m / 4)"
    using assms(4) by (auto simp: f64_round_def)
  then show ?thesis using f64_round_mono [OF assms(1)] f64_round_mono [OF assms(2)] by simp
qed

lemma apply_jitter_within:
  assumes "0 \<le> r" "r \<le> 1" "d \<le> DURATION_MAX"
  shows "of_nat (apply_jitter d r) \<le> of_nat d * (5 / 4) * up ^ 5 + 1 / 2"
    and "of_nat d * (3 / 4) * dn ^ 5 - 1 / 2 \<le> of_nat (apply_jitter d r)"
proof -
  define D :: rat where "D = of_nat d / 1000000000"
  have D: "0 \<le> D" "of_nat d = D * 1000000000" by (simp_all add: D_def)
  define ms where "ms = f64_of (as_secs_f64 d * 1000)"
  have ms: "D * 1000 * dn ^ 3 \<le> ms" "ms \<le> D * 1000 * up ^ 3" "0 \<le> ms" "f64_of ms = ms"
  proof -
    have "0 \<le> D * dn ^ 2 * 1000" "D * dn ^ 2 * 1000 \<le> as_secs_f64 d * 1000"
      "as_secs_f64 d * 1000 \<le> D * up ^ 2 * 1000"
      using as_secs_f64_within [of d, folded D_def] D(1) by simp_all
    from f64_of_within [OF this] show "D * 1000 * dn ^ 3 \<le> ms" "ms \<le> D * 1000 * up ^ 3" "0 \<le> ms"
      by (simp_all add: ms_def power5_split(2) mult_ac)
    show "f64_of ms = ms" by (simp add: ms_def ieee_round_idem)
  qed
  define rd where "rd = f64_round (ms / 2 * r - ms / 4)"
  have "0 \<le> ms / 2 * r" "ms / 2 * r \<le> ms / 2" using ms(3) assms by (simp_all add: mult_left_le)
  then have rd: "- (ms / 4) \<le> rd" "rd \<le> ms / 4"
    using f64_round_quarter_range [of ms "ms / 2 * r - ms / 4"] ms(3,4) by (simp_all add: rd_def)
  define y where "y = f64_of (f64_of (ms + rd) / 1000)"
  have half: "f64_round (ms * JITTER_FACTOR) = ms / 2" "f64_round (ms / 4) = ms / 4"
    using ms(3,4) f64_of_half [of ms] f64_of_quarter [of ms] by (simp_all add: JITTER_FACTOR_def)
  have j: "apply_jitter d r = secs_to_duration_saturating y"
  proof -
    have "f64_round (as_secs_f64 d * 1000) = ms" using as_secs_f64_within [of d] by (simp add: ms_def)
    moreover have "f64_round (ms + rd) = f64_of (ms + rd)" using rd ms(3) by simp
    moreover have "f64_round (f64_of (ms + rd) / 1000) = y" by (simp add: y_def ieee_round_nonneg)
    ultimately show ?thesis by (simp add: apply_jitter_def Let_def half rd_def)
  qed
  define l h where "l = D * 1000 * (3 / 4) * dn ^ 3" and "h = D * 1000 * (5 / 4) * up ^ 3"
  have lh: "0 \<le> l" "l \<le> ms + rd" "ms + rd \<le> h" using ms rd D(1) by (simp_all add: l_def h_def less_imp_le)
  have w1: "l * dn \<le> f64_of (ms + rd)" "f64_of (ms + rd) \<le> h * up"
    using f64_of_within [OF lh] by simp_all
  have w2: "l * dn / 1000 * dn \<le> y" "y \<le> h * up / 1000 * up" "0 \<le> y"
    using f64_of_within [of "l * dn / 1000" "f64_of (ms + rd) / 1000" "h * up / 1000"] w1 lh(1)
    by (simp_all add: y_def less_imp_le divide_right_mono)
  have hi: "h * up / 1000 * up * 1000000000 = of_nat d * (5 / 4) * up ^ 5"
    and lo: "l * dn / 1000 * dn * 1000000000 = of_nat d * (3 / 4) * dn ^ 5"
    by (simp_all add: h_def l_def D(2) power5_split(1) mult_ac)
  show "of_nat (apply_jitter d r) \<le> of_nat d * (5 / 4) * up ^ 5 + 1 / 2"
    using secs_to_duration_within(1) [OF w2(3)] w2(2) unfolding j hi [symmetric] by linarith
  have "dn ^ 5 \<le> 1" by (intro power_le_one) (simp_all add: less_imp_le)
  then have "of_nat d * (3 / 4) * dn ^ 5 \<le> of_nat d"
    using mult_mono [of "of_nat d * (3 / 4)" "of_nat d" "dn ^ 5" 1] by (simp add: less_imp_le)
  also have "of_nat d \<le> (of_nat DURATION_MAX :: rat)" using assms(3) by simp
  finally show "of_nat d * (3 / 4) * dn ^ 5 - 1 / 2 \<le> of_nat (apply_jitter d r)"
    using secs_to_duration_within(2) [OF w2(3), of "of_nat d * (3 / 4) * dn ^ 5"] w2(1)
    unfolding j lo [symmetric] by linarith
qed

section \<open>Properties\<close>

text \<open>
  C23. Without jitter the delays are exact: for a base delay of whole seconds, the \<open>i\<close>-th delay is the
  base, its \<open>i + 1\<close>-fold or its \<open>2\<^sup>i\<close>-fold, saturated at the largest duration and clamped to the
  maximum delay, although the exponential delay goes through \<open>f64\<close>.
\<close>

theorem backoff_delays_exact:
  assumes "\<not> bo_use_jitter props" and "bo_base_delay props = s * 1000000000" and "0 < s" and "s < 2 ^ 53"
    and "length rnds \<le> 2 ^ 31"
  shows "take_delays fns (backoff_delays props) rnds = map (\<lambda>i. clamp_to_max
    (exact_delay (bo_backoff_type props) (bo_base_delay props) i) (bo_max_delay props)) [0 ..< length rnds]"
  using take_delays_exact [of "backoff_delays props" s 0 rnds fns] assms by (simp add: backoff_delays_def)

theorem backoff_delays_exact_witness:
  "take_delays \<lparr>ff_exp2 = id, ff_sqrt = id, ff_tanh = id\<rparr> (backoff_delays
     \<lparr>bo_backoff_type = BO_Exponential, bo_base_delay = 2 * 1000000000, bo_max_delay = Some 10000000000,
      bo_use_jitter = False\<rparr>) [0, 0, 0, 0] = [2000000000, 4000000000, 8000000000, 10000000000]"
  using backoff_delays_exact [of "\<lparr>bo_backoff_type = BO_Exponential, bo_base_delay = 2 * 1000000000,
      bo_max_delay = Some 10000000000, bo_use_jitter = False\<rparr>" 2 "[0, 0, 0, 0]"
      "\<lparr>ff_exp2 = id, ff_sqrt = id, ff_tanh = id\<rparr>"]
  by (simp add: exact_delay_def clamp_to_max_def DURATION_MAX_def upt_rec)

text \<open>
  C25. Every delay is bounded: whatever the strategy, the jitter, the draws and the precision of the
  library's transcendental functions, no delay exceeds the maximum delay if one is set, nor the
  largest duration.
\<close>

theorem backoff_delays_bounded:
  assumes "bo_base_delay props \<le> DURATION_MAX"
  shows "list_all (\<lambda>d. d \<le> clamp_to_max DURATION_MAX (bo_max_delay props))
    (take_delays fns (backoff_delays props) rnds)"
proof -
  have "list_all (\<lambda>d. d \<le> clamp_to_max DURATION_MAX (bo_max_delay props)) (take_delays fns it rnds)"
    if "di_props it = props" for it
    using that assms
  proof (induction rnds arbitrary: it)
    case (Cons r rnds)
    have "snd (delays_next fns it r) \<le> clamp_to_max DURATION_MAX (bo_max_delay props)"
      using delays_next_le [of it fns r] Cons.prems by simp
    moreover have "di_props (fst (delays_next fns it r)) = props" using Cons.prems by simp
    ultimately show ?case using Cons.IH Cons.prems by (simp add: case_prod_beta)
  qed simp
  then show ?thesis by (simp add: backoff_delays_def)
qed

theorem backoff_delays_bounded_witness:
  "list_all (\<lambda>d. d \<le> 7) (take_delays \<lparr>ff_exp2 = id, ff_sqrt = id, ff_tanh = id\<rparr>
     (backoff_delays (backoff_options_default\<lparr>bo_max_delay := Some 7\<rparr>)) [0, 1 / 2, 1 / 4])"
  using backoff_delays_bounded [of "backoff_options_default\<lparr>bo_max_delay := Some 7\<rparr>"
      "\<lparr>ff_exp2 = id, ff_sqrt = id, ff_tanh = id\<rparr>" "[0, 1 / 2, 1 / 4]"]
  by (simp add: backoff_options_default_def clamp_to_max_def DURATION_MAX_def del: take_delays.simps)

text \<open>
  C24. Jitter keeps the delay within a quarter: for a draw between 0 and 1 the jittered delay lies in
  \<open>[0.75 d, 1.25 d]\<close> up to half a nanosecond and a relative error of \<open>2\<^sup>-\<^sup>5\<^sup>0\<close> from the roundings.
\<close>

theorem apply_jitter_bounds:
  assumes "0 \<le> r" and "r \<le> 1" and "d \<le> DURATION_MAX"
  shows "of_nat d * (3 / 4) * (1 - 1 / 2 ^ 50) - 1 / 2 \<le> (of_nat (apply_jitter d r) :: rat) \<and>
    (of_nat (apply_jitter d r) :: rat) \<le> of_nat d * (5 / 4) * (1 + 1 / 2 ^ 50) + 1 / 2"
proof -
  have "up ^ 5 \<le> 1 + 1 / 2 ^ 50" "1 - 1 / 2 ^ 50 \<le> dn ^ 5"
    by (simp_all add: up_def dn_def ulp_def pow2_def power_divide)
  then have "of_nat d * (5 / 4) * up ^ 5 \<le> of_nat d * (5 / 4) * (1 + 1 / 2 ^ 50)"
    "of_nat d * (3 / 4) * (1 - 1 / 2 ^ 50) \<le> of_nat d * (3 / 4) * dn ^ 5"
    by (intro mult_left_mono; simp)+
  then show ?thesis using apply_jitter_within [OF assms] by linarith
qed

theorem apply_jitter_bounds_witness:
  "6000000000 * (3 / 4) * (1 - 1 / 2 ^ 50) - 1 / 2 \<le> (of_nat (apply_jitter 6000000000 (1 / 8)) :: rat)"
  using apply_jitter_bounds [of "1 / 8" 6000000000] by (simp add: DURATION_MAX_def)

end
