(* ===== verification/Recoverable.thy ===== *)
theory Recoverable
  imports Prelude
begin

text \<open>
  The \<open>recoverable\<close> crate: the classification of an outcome that every resilience layer reads.
  \<open>recovery_kind\<close> and \<open>recovery_info\<close> are the enum and the struct of \<open>lib.rs\<close> with their
  constructors; \<open>recovery_of_error_kind\<close> is the conversion of \<open>io.rs\<close>. The standard library's
  \<open>ErrorKind\<close> is the datatype \<open>error_kind\<close>.
\<close>

section \<open>Recovery information\<close>

datatype recovery_kind = RK_Unknown | RK_Retry | RK_Never | RK_Unavailable

record recovery_info =
  ri_kind :: recovery_kind
  ri_delay :: "duration option"

definition ri_unknown :: recovery_info where
  "ri_unknown = \<lparr>ri_kind = RK_Unknown, ri_delay = None\<rparr>"

definition ri_never :: recovery_info where
  "ri_never = \<lparr>ri_kind = RK_Never, ri_delay = None\<rparr>"

definition ri_retry :: recovery_info where
  "ri_retry = \<lparr>ri_kind = RK_Retry, ri_delay = None\<rparr>"

definition ri_unavailable :: recovery_info where
  "ri_unavailable = \<lparr>ri_kind = RK_Unavailable, ri_delay = None\<rparr>"

definition ri_with_delay :: "recovery_info \<Rightarrow> duration \<Rightarrow> recovery_info" where
  "ri_with_delay r d = \<lparr>ri_kind = ri_kind r, ri_delay = Some d\<rparr>"

definition ri_get_delay :: "recovery_info \<Rightarrow> duration option" where
  "ri_get_delay r = ri_delay r"

definition result_recovery ::
  "('r \<Rightarrow> recovery_info) \<Rightarrow> ('e \<Rightarrow> recovery_info) \<Rightarrow> 'e + 'r \<Rightarrow> recovery_info" where
  "result_recovery ok_recovery err_recovery res =
     (case res of Inr r \<Rightarrow> ok_recovery r | Inl e \<Rightarrow> err_recovery e)"

fun recovery_kind_as_str :: "recovery_kind \<Rightarrow> string" where
  "recovery_kind_as_str RK_Unknown = ''unknown''"
| "recovery_kind_as_str RK_Never = ''never''"
| "recovery_kind_as_str RK_Retry = ''retry''"
| "recovery_kind_as_str RK_Unavailable = ''unavailable''"

section \<open>Classification of I/O errors\<close>

datatype error_kind =
    NotFound | PermissionDenied | ConnectionRefused | ConnectionReset | HostUnreachable
  | NetworkUnreachable | ConnectionAborted | NotConnected | AddrInUse | AddrNotAvailable
  | NetworkDown | BrokenPipe | AlreadyExists | WouldBlock | NotADirectory | IsADirectory
  | DirectoryNotEmpty | ReadOnlyFilesystem | StaleNetworkFileHandle | InvalidInput | InvalidData
  | TimedOut | WriteZero | StorageFull | NotSeekable | QuotaExceeded | FileTooLarge | ResourceBusy
  | ExecutableFileBusy | Deadlock | CrossesDevices | TooManyLinks | InvalidFilename
  | ArgumentListTooLong | Interrupted | Unsupported | UnexpectedEof | OutOfMemory | OtherError

definition recovery_of_error_kind :: "error_kind \<Rightarrow> recovery_info" where
  "recovery_of_error_kind kind =
     (if kind \<in> {WouldBlock, TimedOut, ConnectionReset, ConnectionAborted, NotConnected,
                 ConnectionRefused, AddrInUse, AddrNotAvailable, BrokenPipe, Interrupted,
                 StaleNetworkFileHandle, ResourceBusy, Deadlock, ExecutableFileBusy, QuotaExceeded}
      then ri_retry
      else if kind \<in> {HostUnreachable, NetworkUnreachable, NetworkDown, StorageFull, OutOfMemory}
      then ri_unavailable
      else ri_never)"

lemmas ri_defs = ri_unknown_def ri_never_def ri_retry_def ri_unavailable_def ri_with_delay_def
  ri_get_delay_def

lemma ri_with_delay_kind [simp]: "ri_kind (ri_with_delay r d) = ri_kind r"
  by (simp add: ri_defs)

lemma ri_with_delay_get [simp]: "ri_get_delay (ri_with_delay r d) = Some d"
  by (simp add: ri_defs)

lemma recovery_kind_as_str_inj: "recovery_kind_as_str a = recovery_kind_as_str b \<Longrightarrow> a = b"
  by (cases a; cases b) simp_all

lemma recovery_of_error_kind_no_delay: "ri_get_delay (recovery_of_error_kind k) = None"
  by (simp add: recovery_of_error_kind_def ri_defs)

lemma recovery_of_error_kind_known: "ri_kind (recovery_of_error_kind k) \<noteq> RK_Unknown"
  by (simp add: recovery_of_error_kind_def ri_defs)

end
