(* ===== verification/Breaker_Health.thy ===== *)
theory Breaker_Health
  imports Recoverable
begin

text \<open>
  Health of the circuit breaker (crate \<open>seatbelt\<close>, \<open>src/breaker\<close>): the execution counters and the
  sliding window of \<open>health.rs\<close>, the verdict of \<open>health_eval.rs\<close>, the policy for abandoned
  executions of \<open>abandoned_policy.rs\<close> and the execution results of \<open>execution_result.rs\<close>.

  A \<open>VecDeque\<close> of windows is a list with its front at the head. The abstract specification of the
  window is a log of results, each tagged with the start of the window it was recorded in; the
  lemmas at the end show that the running counters of the code are the counts of that log, that the
  windows never number more than eleven, and that the verdict follows the exact failure rate.
\<close>

section \<open>Execution results and counters\<close>

datatype execution_result = ER_Success | ER_Failure | ER_Abandoned

fun execution_result_as_str :: "execution_result \<Rightarrow> string" where
  "execution_result_as_str ER_Success = ''success''"
| "execution_result_as_str ER_Failure = ''failure''"
| "execution_result_as_str ER_Abandoned = ''abandoned''"

definition execution_result_from_recovery :: "recovery_info \<Rightarrow> execution_result" where
  "execution_result_from_recovery recovery =
     (case ri_kind recovery of
        RK_Retry \<Rightarrow> ER_Failure
      | RK_Unavailable \<Rightarrow> ER_Failure
      | _ \<Rightarrow> ER_Success)"

datatype health_status = Healthy | Unhealthy

record execution_info =
  ei_succeeded :: u32
  ei_failed :: u32
  ei_abandoned :: u32

definition execution_info_default :: execution_info where
  "execution_info_default = \<lparr>ei_succeeded = 0, ei_failed = 0, ei_abandoned = 0\<rparr>"

definition execution_info_total :: "execution_info \<Rightarrow> u32" where
  "execution_info_total c = saturating_add (saturating_add (ei_succeeded c) (ei_failed c)) (ei_abandoned c)"

fun execution_info_record :: "execution_info \<Rightarrow> execution_result \<Rightarrow> execution_info" where
  "execution_info_record c ER_Success = c\<lparr>ei_succeeded := saturating_add (ei_succeeded c) 1\<rparr>"
| "execution_info_record c ER_Failure = c\<lparr>ei_failed := saturating_add (ei_failed c) 1\<rparr>"
| "execution_info_record c ER_Abandoned = c\<lparr>ei_abandoned := saturating_add (ei_abandoned c) 1\<rparr>"

definition execution_info_subtract :: "execution_info \<Rightarrow> execution_info \<Rightarrow> execution_info" where
  "execution_info_subtract c other =
     \<lparr>ei_succeeded = saturating_sub (ei_succeeded c) (ei_succeeded other),
      ei_failed = saturating_sub (ei_failed c) (ei_failed other),
      ei_abandoned = saturating_sub (ei_abandoned c) (ei_abandoned other)\<rparr>"

record health_info =
  hi_counts :: execution_info
  hi_status :: health_status

section \<open>Abandoned executions\<close>

datatype abandoned_mode = AM_Ignore | AM_AsFailures | AM_RateThreshold f32

record abandoned_policy =
  ap_inner :: abandoned_mode

definition abandoned_policy_ignore :: abandoned_policy where
  "abandoned_policy_ignore = \<lparr>ap_inner = AM_Ignore\<rparr>"

definition abandoned_policy_rate_threshold :: "f32 \<Rightarrow> abandoned_policy panicking" where
  "abandoned_policy_rate_threshold threshold =
     panic_bind (assert_or_panic (0 < threshold \<and> threshold \<le> 1) ''threshold must be in (0.0, 1.0]'')
       (\<lambda>_. Inr \<lparr>ap_inner = AM_RateThreshold threshold\<rparr>)"

definition abandoned_policy_as_failures :: abandoned_policy where
  "abandoned_policy_as_failures = \<lparr>ap_inner = AM_AsFailures\<rparr>"

definition abandoned_policy_default :: abandoned_policy where
  "abandoned_policy_default = \<lparr>ap_inner = AM_RateThreshold 1\<rparr>"

definition counts_abandoned_as_failure :: "abandoned_policy \<Rightarrow> bool" where
  "counts_abandoned_as_failure p = (case ap_inner p of AM_AsFailures \<Rightarrow> True | _ \<Rightarrow> False)"

text \<open>The smallest positive normal \<open>f32\<close>, the lower end of the clamp applied to configuration.\<close>

definition coerce_rate_threshold :: "f32 \<Rightarrow> f32" where
  "coerce_rate_threshold threshold =
     (if threshold < pow2 (- 126) then pow2 (- 126) else if 1 < threshold then 1 else threshold)"

section \<open>The health verdict\<close>

record health_evaluator =
  he_failure_threshold :: f32
  he_min_throughput :: u32
  he_abandoned_policy :: abandoned_policy

definition evaluate_threshold :: "u32 \<Rightarrow> u32 \<Rightarrow> u32 \<Rightarrow> f32 \<Rightarrow> health_status" where
  "evaluate_threshold failures execs min_throughput failure_threshold =
     (if execs = 0 \<or> execs < min_throughput then Healthy
      else let failure_rate = f32_of (f64_of (of_nat (unat failures) / of_nat (unat execs)))
           in if failure_threshold \<le> failure_rate then Unhealthy else Healthy)"

definition evaluate_core :: "health_evaluator \<Rightarrow> execution_info \<Rightarrow> u32 \<times> u32" where
  "evaluate_core he counts =
     (let with_abandoned = (saturating_add (ei_failed counts) (ei_abandoned counts),
                            execution_info_total counts);
          without_abandoned = (ei_failed counts, saturating_add (ei_succeeded counts) (ei_failed counts))
      in case ap_inner (he_abandoned_policy he) of
           AM_Ignore \<Rightarrow> without_abandoned
         | AM_AsFailures \<Rightarrow> with_abandoned
         | AM_RateThreshold threshold \<Rightarrow>
             (case evaluate_threshold (ei_abandoned counts) (execution_info_total counts)
                     (he_min_throughput he) threshold of
                Unhealthy \<Rightarrow> with_abandoned
              | Healthy \<Rightarrow> without_abandoned))"

definition health_evaluate :: "health_evaluator \<Rightarrow> execution_info \<Rightarrow> health_info" where
  "health_evaluate he counts =
     (let (decision_failures, decision_total) = evaluate_core he counts
      in \<lparr>hi_counts = counts,
          hi_status = evaluate_threshold decision_failures decision_total (he_min_throughput he)
                        (he_failure_threshold he)\<rparr>)"

section \<open>The sliding window\<close>

definition WINDOW_COUNT :: nat where
  "WINDOW_COUNT = 10"

definition MIN_SAMPLING_DURATION :: duration where
  "MIN_SAMPLING_DURATION = 1000000000"

record health_metrics_builder =
  hb_sampling_duration :: duration
  hb_failure_threshold :: f32
  hb_min_throughput :: u32
  hb_abandoned_policy :: abandoned_policy

record window =
  w_counts :: execution_info
  w_started_at :: instant

record health_metrics =
  hm_sampling_duration :: duration
  hm_window_duration :: duration
  hm_windows :: "window list"
  hm_counts :: execution_info
  hm_evaluator :: health_evaluator

definition health_metrics_builder_new ::
  "duration \<Rightarrow> f32 \<Rightarrow> u32 \<Rightarrow> abandoned_policy \<Rightarrow> health_metrics_builder" where
  "health_metrics_builder_new sampling_duration failure_threshold min_throughput abandoned_policy =
     \<lparr>hb_sampling_duration = max sampling_duration MIN_SAMPLING_DURATION,
      hb_failure_threshold = failure_threshold,
      hb_min_throughput = min_throughput,
      hb_abandoned_policy = abandoned_policy\<rparr>"

definition health_metrics_new :: "duration \<Rightarrow> health_evaluator \<Rightarrow> health_metrics" where
  "health_metrics_new sampling_duration evaluator =
     \<lparr>hm_sampling_duration = sampling_duration,
      hm_window_duration = sampling_duration div WINDOW_COUNT,
      hm_windows = [],
      hm_counts = execution_info_default,
      hm_evaluator = evaluator\<rparr>"

definition health_metrics_build :: "health_metrics_builder \<Rightarrow> health_metrics" where
  "health_metrics_build b =
     health_metrics_new (hb_sampling_duration b)
       \<lparr>he_failure_threshold = hb_failure_threshold b,
        he_min_throughput = hb_min_throughput b,
        he_abandoned_policy = hb_abandoned_policy b\<rparr>"

definition window_new :: "instant \<Rightarrow> window" where
  "window_new started_at = \<lparr>w_counts = execution_info_default, w_started_at = started_at\<rparr>"

definition window_update :: "window \<Rightarrow> execution_result \<Rightarrow> window" where
  "window_update w result = w\<lparr>w_counts := execution_info_record (w_counts w) result\<rparr>"

text \<open>The loop that pops expired windows off the front and takes their counts off the aggregate.\<close>

fun pop_expired :: "duration \<Rightarrow> instant \<Rightarrow> window list \<Rightarrow> execution_info \<Rightarrow> window list \<times> execution_info" where
  "pop_expired sampling now [] counts = ([], counts)"
| "pop_expired sampling now (front # rest) counts =
     (if sampling < now - w_started_at front
      then pop_expired sampling now rest (execution_info_subtract counts (w_counts front))
      else (front # rest, counts))"

text \<open>
  \<open>current_window\<close> of the code returns a mutable reference to the back window; here it returns the
  metrics in which that window exists, and \<open>health_metrics_record\<close> writes to it.
\<close>

definition current_window :: "health_metrics \<Rightarrow> instant \<Rightarrow> health_metrics" where
  "current_window hm now =
     (let (windows, counts) = pop_expired (hm_sampling_duration hm) now (hm_windows hm) (hm_counts hm);
          needs_new_window =
            (windows = [] \<or> hm_window_duration hm \<le> now - w_started_at (last windows))
      in hm\<lparr>hm_windows := (if needs_new_window then windows @ [window_new now] else windows),
            hm_counts := counts\<rparr>)"

definition health_metrics_record :: "health_metrics \<Rightarrow> execution_result \<Rightarrow> instant \<Rightarrow> health_metrics" where
  "health_metrics_record hm result now =
     (let hm' = current_window hm now
      in hm'\<lparr>hm_windows := butlast (hm_windows hm') @ [window_update (last (hm_windows hm')) result],
             hm_counts := execution_info_record (hm_counts hm') result\<rparr>)"

definition health_metrics_info :: "health_metrics \<Rightarrow> health_info" where
  "health_metrics_info hm = health_evaluate (hm_evaluator hm) (hm_counts hm)"

text \<open>A sequence of recorded results, each with the instant the caller read.\<close>

definition health_metrics_run :: "health_metrics \<Rightarrow> (execution_result \<times> instant) list \<Rightarrow> health_metrics" where
  "health_metrics_run hm rs = fold (\<lambda>(r, now) m. health_metrics_record m r now) rs hm"

section \<open>Abstract specification: a log of results\<close>

text \<open>
  Each recorded result is tagged with the start of its window. Recording drops the results whose
  window expired and files the new one under the newest window if that is recent enough.
\<close>

type_synonym health_log = "(instant \<times> execution_result) list"

definition log_record ::
  "duration \<Rightarrow> duration \<Rightarrow> health_log \<Rightarrow> execution_result \<Rightarrow> instant \<Rightarrow> health_log" where
  "log_record S W hist r now =
     (let kept = filter (\<lambda>e. now - fst e \<le> S) hist;
          start = (if kept = [] \<or> W \<le> now - fst (last kept) then now else fst (last kept))
      in kept @ [(start, r)])"

definition log_run ::
  "duration \<Rightarrow> duration \<Rightarrow> health_log \<Rightarrow> (execution_result \<times> instant) list \<Rightarrow> health_log" where
  "log_run S W hist rs = fold (\<lambda>(r, now) l. log_record S W l r now) rs hist"

definition log_count :: "health_log \<Rightarrow> execution_result \<Rightarrow> nat" where
  "log_count hist r = length (filter (\<lambda>e. snd e = r) hist)"

fun ei_get :: "execution_info \<Rightarrow> execution_result \<Rightarrow> u32" where
  "ei_get c ER_Success = ei_succeeded c"
| "ei_get c ER_Failure = ei_failed c"
| "ei_get c ER_Abandoned = ei_abandoned c"

lemma ei_get_default [simp]: "ei_get execution_info_default r = 0"
  by (cases r) (simp_all add: execution_info_default_def)

lemma ei_get_subtract:
  "unat (ei_get (execution_info_subtract c d) r) = unat (ei_get c r) - unat (ei_get d r)"
  by (cases r) (simp_all add: execution_info_subtract_def word_arith_simps)

lemma ei_get_record:
  "unat (ei_get (execution_info_record c r) r') =
     (if r = r' then min (unat (ei_get c r) + 1) (2 ^ 32 - 1) else unat (ei_get c r'))"
  by (cases r; cases r') (simp_all add: word_arith_simps)

lemma log_count_Nil [simp]: "log_count [] r = 0"
  by (simp add: log_count_def)

lemma log_count_append [simp]: "log_count (xs @ ys) r = log_count xs r + log_count ys r"
  by (simp add: log_count_def)

lemma log_count_single [simp]: "log_count [(s, r)] r' = (if r = r' then 1 else 0)"
  by (simp add: log_count_def)

lemma log_count_le_length: "log_count hist r \<le> length hist"
  by (simp add: log_count_def)

lemma log_count_remove_window:
  "log_count hist r = log_count (filter (\<lambda>e. fst e \<noteq> s) hist) r + count_list hist (s, r)"
  by (induction hist) (auto simp: log_count_def)

section \<open>The windows implement the log\<close>

definition windows_log :: "window list \<Rightarrow> health_log \<Rightarrow> bool" where
  "windows_log ws hist \<longleftrightarrow>
     (\<forall>e \<in> set hist. fst e \<in> w_started_at ` set ws) \<and>
     (\<forall>w \<in> set ws. \<forall>r. unat (ei_get (w_counts w) r) = count_list hist (w_started_at w, r)) \<and>
     (ws \<noteq> [] \<longrightarrow> hist \<noteq> [] \<and> fst (last hist) = w_started_at (last ws))"

definition counts_log :: "execution_info \<Rightarrow> health_log \<Rightarrow> bool" where
  "counts_log c hist \<longleftrightarrow> (\<forall>r. unat (ei_get c r) = log_count hist r)"

abbreviation spaced :: "duration \<Rightarrow> window list \<Rightarrow> bool" where
  "spaced W \<equiv> sorted_wrt (\<lambda>a b. w_started_at a + W \<le> w_started_at b)"

lemma spaced_last: "spaced W ws \<Longrightarrow> w \<in> set ws \<Longrightarrow> w_started_at w \<le> w_started_at (last ws)"
  by (cases ws rule: rev_cases) (auto simp: sorted_wrt_append dest: add_leD1)

lemma last_dropWhile_eq: "dropWhile P xs \<noteq> [] \<Longrightarrow> last (dropWhile P xs) = last xs"
  by (induction xs) auto

lemma spaced_hd: "spaced W ws \<Longrightarrow> w \<in> set ws \<Longrightarrow> w_started_at (hd ws) \<le> w_started_at w"
  by (cases ws) (auto dest: add_leD1)

lemma windows_log_pop:
  assumes "windows_log (w # ws) hist" "spaced W (w # ws)" "0 < W"
  shows "windows_log ws (filter (\<lambda>e. fst e \<noteq> w_started_at w) hist)"
proof -
  have ne: "w_started_at v \<noteq> w_started_at w" if "v \<in> set ws" for v
    using assms(2,3) that by fastforce
  have "fst (last hist) \<noteq> w_started_at w \<and> hist \<noteq> []" if "ws \<noteq> []"
    using assms(1) that ne [of "last ws"] by (simp add: windows_log_def)
  then have "filter (\<lambda>e. fst e \<noteq> w_started_at w) hist \<noteq> [] \<and>
      last (filter (\<lambda>e. fst e \<noteq> w_started_at w) hist) = last hist" if "ws \<noteq> []"
    using that by (induction hist rule: rev_induct) auto
  moreover have "count_list (filter (\<lambda>e. fst e \<noteq> w_started_at w) hist) (w_started_at v, r) =
      count_list hist (w_started_at v, r)" if "v \<in> set ws" for v r
    using ne [OF that] by (induction hist) auto
  ultimately show ?thesis
    using assms(1) by (auto simp: windows_log_def)
qed

lemma counts_log_pop:
  assumes "counts_log c hist" "windows_log (w # ws) hist"
  shows "counts_log (execution_info_subtract c (w_counts w)) (filter (\<lambda>e. fst e \<noteq> w_started_at w) hist)"
  using assms log_count_remove_window [of hist _ "w_started_at w"]
  by (simp add: counts_log_def windows_log_def ei_get_subtract)

lemma pop_expired_correct:
  assumes "windows_log ws hist" "counts_log c hist" "spaced W ws" "0 < W"
    and "pop_expired S now ws c = (ws', c')"
  shows "windows_log ws' (filter (\<lambda>e. now - fst e \<le> S) hist) \<and>
    counts_log c' (filter (\<lambda>e. now - fst e \<le> S) hist) \<and>
    ws' = dropWhile (\<lambda>w. S < now - w_started_at w) ws"
  using assms
proof (induction ws arbitrary: c hist)
  case Nil
  then have "hist = []" by (cases hist) (auto simp: windows_log_def)
  with Nil show ?case by auto
next
  case (Cons w ws)
  show ?case
  proof (cases "S < now - w_started_at w")
    case True
    let ?hist = "filter (\<lambda>e. fst e \<noteq> w_started_at w) hist"
    have "filter (\<lambda>e. now - fst e \<le> S) ?hist = filter (\<lambda>e. now - fst e \<le> S) hist"
      using True by (auto intro: filter_cong)
    moreover have "windows_log ws' (filter (\<lambda>e. now - fst e \<le> S) ?hist) \<and>
        counts_log c' (filter (\<lambda>e. now - fst e \<le> S) ?hist) \<and>
        ws' = dropWhile (\<lambda>w. S < now - w_started_at w) ws"
      using Cons.prems True
      by (intro Cons.IH [OF windows_log_pop counts_log_pop]) simp_all
    ultimately show ?thesis using True by auto
  next
    case False
    have "now - fst e \<le> S" if "e \<in> set hist" for e
    proof -
      from that Cons.prems(1) obtain v where v: "v \<in> set (w # ws)" "fst e = w_started_at v"
        by (fastforce simp: windows_log_def)
      then have "w_started_at w \<le> fst e" using Cons.prems(3) by fastforce
      then show ?thesis using False by simp
    qed
    then have "filter (\<lambda>e. now - fst e \<le> S) hist = hist" by simp
    with False Cons.prems show ?thesis by auto
  qed
qed

text \<open>The invariant: the windows are spaced, span at most the sampling duration and hold the log.\<close>

definition health_inv :: "health_metrics \<Rightarrow> health_log \<Rightarrow> bool" where
  "health_inv hm hist \<longleftrightarrow>
     0 < hm_window_duration hm \<and> spaced (hm_window_duration hm) (hm_windows hm) \<and>
     (hm_windows hm \<noteq> [] \<longrightarrow>
        w_started_at (last (hm_windows hm)) - w_started_at (hd (hm_windows hm)) \<le> hm_sampling_duration hm) \<and>
     windows_log (hm_windows hm) hist \<and> counts_log (hm_counts hm) hist"

text \<open>The windows after the loop, and the two ways the result is filed.\<close>

lemma windows_log_kept:
  assumes "windows_log ws kept"
  shows "kept = [] \<longleftrightarrow> ws = []" and "kept \<noteq> [] \<Longrightarrow> fst (last kept) = w_started_at (last ws)"
  using assms by (cases kept; cases ws; auto simp: windows_log_def)+

lemma windows_log_push:
  assumes "windows_log ws kept" "\<forall>w \<in> set ws. w_started_at w < now"
  shows "windows_log (ws @ [window_update (window_new now) r]) (kept @ [(now, r)])"
proof -
  have "count_list kept (now, r') = 0" for r'
    using assms by (force simp: windows_log_def count_list_0_iff)
  with assms show ?thesis
    by (auto simp: windows_log_def window_update_def window_new_def ei_get_record)
qed

lemma windows_log_update:
  assumes "windows_log (us @ [w]) kept" "spaced W (us @ [w])" "0 < W" "length kept < 2 ^ 32 - 1"
  shows "windows_log (us @ [window_update w r]) (kept @ [(w_started_at w, r)])"
proof -
  have ne: "w_started_at u \<noteq> w_started_at w" if "u \<in> set us" for u
    using assms(2,3) that by (fastforce simp: sorted_wrt_append)
  have "count_list kept e \<le> 2 ^ 32 - 2" for e
    using count_le_length [of kept e] assms(4) by simp
  then have "unat (ei_get (execution_info_record (w_counts w) r) r') =
      count_list (kept @ [(w_started_at w, r)]) (w_started_at w, r')" for r'
    using assms(1) by (auto simp: windows_log_def ei_get_record min_def)
  with assms(1) show ?thesis
    using ne by (auto simp: windows_log_def window_update_def) (metis ne)
qed

lemma counts_log_record:
  assumes "counts_log c kept" "length kept < 2 ^ 32 - 1"
  shows "counts_log (execution_info_record c r) (kept @ [(s, r)])"
proof -
  have "log_count kept r' \<le> 2 ^ 32 - 2" for r'
    using log_count_le_length [of kept r'] assms(2) by simp
  with assms(1) show ?thesis by (auto simp: counts_log_def ei_get_record min_def)
qed

lemma health_inv_record:
  assumes inv: "health_inv hm hist" and len: "length hist < 2 ^ 32 - 1"
  shows "health_inv (health_metrics_record hm r now)
    (log_record (hm_sampling_duration hm) (hm_window_duration hm) hist r now)"
proof -
  define S W where "S = hm_sampling_duration hm" and "W = hm_window_duration hm"
  define kept where "kept = filter (\<lambda>e. now - fst e \<le> S) hist"
  obtain ws c where pop: "pop_expired S now (hm_windows hm) (hm_counts hm) = (ws, c)" by force
  have W: "0 < W" and sp0: "spaced W (hm_windows hm)" using inv by (simp_all add: health_inv_def W_def)
  have wl: "windows_log ws kept" and cl: "counts_log c kept"
    and ws: "ws = dropWhile (\<lambda>w. S < now - w_started_at w) (hm_windows hm)"
    using pop_expired_correct [OF _ _ sp0 W pop] inv unfolding health_inv_def kept_def by blast+
  have sp: "spaced W ws" using sp0 unfolding ws by (metis dropWhile_eq_drop sorted_wrt_drop)
  have klen: "length kept < 2 ^ 32 - 1"
    using len length_filter_le [of _ hist] unfolding kept_def by (rule le_less_trans [rotated])
  have cl': "counts_log (execution_info_record c r) (kept @ [(s, r)])" for s
    using cl klen by (rule counts_log_record)
  have fresh: "now - w_started_at (hd ws) \<le> S" if "ws \<noteq> []"
    using hd_dropWhile [of "\<lambda>w. S < now - w_started_at w" "hm_windows hm"] that by (simp add: ws not_less)
  show ?thesis
  proof (cases "ws = [] \<or> W \<le> now - w_started_at (last ws)")
    case True
    have old: "\<forall>w \<in> set ws. w_started_at w + W \<le> now"
      using True spaced_last [OF sp] W by (fastforce dest: spaced_last)
    have "log_record S W hist r now = kept @ [(now, r)]"
      using True windows_log_kept [OF wl] by (auto simp: log_record_def kept_def)
    moreover have "health_metrics_record hm r now =
        hm\<lparr>hm_windows := ws @ [window_update (window_new now) r], hm_counts := execution_info_record c r\<rparr>"
      using True pop by (simp add: health_metrics_record_def current_window_def S_def W_def)
    moreover have "windows_log (ws @ [window_update (window_new now) r]) (kept @ [(now, r)])"
      using old W by (intro windows_log_push [OF wl]) fastforce
    moreover have "spaced W (ws @ [window_update (window_new now) r])"
      using sp old by (simp add: sorted_wrt_append window_update_def window_new_def)
    ultimately show ?thesis
      using cl' W fresh by (auto simp: health_inv_def S_def W_def window_update_def window_new_def hd_append)
  next
    case False
    then obtain us w where uw: "ws = us @ [w]" by (metis rev_exhaust)
    have "log_record S W hist r now = kept @ [(w_started_at w, r)]"
      using False windows_log_kept [OF wl] uw by (auto simp: log_record_def kept_def)
    moreover have "health_metrics_record hm r now =
        hm\<lparr>hm_windows := us @ [window_update w r], hm_counts := execution_info_record c r\<rparr>"
      using False pop uw by (simp add: health_metrics_record_def current_window_def S_def W_def)
    moreover have "windows_log (us @ [window_update w r]) (kept @ [(w_started_at w, r)])"
      using wl sp W klen unfolding uw by (rule windows_log_update)
    moreover have "spaced W (us @ [window_update w r])"
      using sp uw by (simp add: sorted_wrt_append window_update_def)
    moreover have "w_started_at w - w_started_at (hd (us @ [w])) \<le> S"
    proof -
      have ne: "hm_windows hm \<noteq> []" and last: "last (hm_windows hm) = w"
        using uw ws last_dropWhile_eq [of "\<lambda>w. S < now - w_started_at w" "hm_windows hm"] by auto
      have "hd (us @ [w]) \<in> set (hm_windows hm)"
        using uw ws by (metis append_is_Nil_conv hd_in_set list.distinct(1) set_dropWhileD)
      then have "w_started_at (hd (hm_windows hm)) \<le> w_started_at (hd (us @ [w]))"
        by (rule spaced_hd [OF sp0])
      then show ?thesis using inv ne last unfolding health_inv_def S_def by auto
    qed
    ultimately show ?thesis
      using cl' W by (cases us) (auto simp: health_inv_def S_def W_def window_update_def)
  qed
qed

lemma health_metrics_record_frame [simp]:
  "hm_sampling_duration (health_metrics_record hm r now) = hm_sampling_duration hm"
  "hm_window_duration (health_metrics_record hm r now) = hm_window_duration hm"
  "hm_evaluator (health_metrics_record hm r now) = hm_evaluator hm"
  by (simp_all add: health_metrics_record_def current_window_def Let_def split: prod.split)

lemma health_metrics_run_simps [simp]:
  "health_metrics_run hm [] = hm"
  "health_metrics_run hm ((r, now) # rs) = health_metrics_run (health_metrics_record hm r now) rs"
  by (simp_all add: health_metrics_run_def)

lemma health_metrics_run_frame [simp]:
  "hm_sampling_duration (health_metrics_run hm rs) = hm_sampling_duration hm"
  "hm_window_duration (health_metrics_run hm rs) = hm_window_duration hm"
  "hm_evaluator (health_metrics_run hm rs) = hm_evaluator hm"
  by (induction rs arbitrary: hm) auto

lemma log_run_simps [simp]:
  "log_run S W hist [] = hist"
  "log_run S W hist ((r, now) # rs) = log_run S W (log_record S W hist r now) rs"
  by (simp_all add: log_run_def)

lemma length_log_record: "length (log_record S W hist r now) \<le> Suc (length hist)"
  by (simp add: log_record_def Let_def)

lemma health_inv_run:
  assumes "health_inv hm hist" "length hist + length rs < 2 ^ 32"
  shows "health_inv (health_metrics_run hm rs)
    (log_run (hm_sampling_duration hm) (hm_window_duration hm) hist rs)"
  using assms
proof (induction rs arbitrary: hm hist)
  case Nil
  then show ?case by simp
next
  case (Cons x rs)
  obtain r now where x: "x = (r, now)" by force
  let ?hist = "log_record (hm_sampling_duration hm) (hm_window_duration hm) hist r now"
  have "length hist < 2 ^ 32 - 1" using Cons.prems(2) by simp
  then have "health_inv (health_metrics_record hm r now) ?hist"
    by (rule health_inv_record [OF Cons.prems(1)])
  moreover have "length ?hist + length rs < 2 ^ 32"
    using Cons.prems(2) length_log_record [of "hm_sampling_duration hm" "hm_window_duration hm" hist r now]
    by simp
  ultimately show ?case using Cons.IH by (fastforce simp: x)
qed

lemma health_inv_build:
  assumes "MIN_SAMPLING_DURATION \<le> hb_sampling_duration b"
  shows "health_inv (health_metrics_build b) []"
  using assms
  by (simp add: health_inv_def health_metrics_build_def health_metrics_new_def windows_log_def
      counts_log_def MIN_SAMPLING_DURATION_def WINDOW_COUNT_def)

lemma health_metrics_build_fields [simp]:
  "hm_sampling_duration (health_metrics_build b) = hb_sampling_duration b"
  "hm_window_duration (health_metrics_build b) = hb_sampling_duration b div WINDOW_COUNT"
  by (simp_all add: health_metrics_build_def health_metrics_new_def)

text \<open>Spaced windows that span at most the sampling duration are few.\<close>

lemma spaced_length:
  "spaced W ws \<Longrightarrow> ws \<noteq> [] \<Longrightarrow> w_started_at (hd ws) + (length ws - 1) * W \<le> w_started_at (last ws)"
proof (induction ws)
  case Nil
  then show ?case by simp
next
  case (Cons w ws)
  show ?case
  proof (cases "ws = []")
    case False
    with Cons have "w_started_at (hd ws) + (length ws - 1) * W \<le> w_started_at (last ws)" by simp
    moreover have "w_started_at w + W \<le> w_started_at (hd ws)" using Cons.prems(1) False by simp
    moreover have "length ws * W = (length ws - 1) * W + W" using False by (cases ws) simp_all
    ultimately show ?thesis using False by simp
  qed simp
qed

lemma windows_bound_arith:
  assumes "(n - 1) * (S div 10) \<le> S" "1000000000 \<le> (S::nat)"
  shows "n \<le> 11"
proof (rule ccontr)
  assume "\<not> n \<le> 11"
  then have "11 * (S div 10) \<le> (n - 1) * (S div 10)" by (intro mult_right_mono) simp_all
  with assms show False by linarith
qed

section \<open>Properties\<close>

lemma health_run_built:
  assumes "length rs < 2 ^ 32"
  shows "health_inv (health_metrics_run (health_metrics_build (health_metrics_builder_new d thr thru pol)) rs)
    (log_run (max d MIN_SAMPLING_DURATION) (max d MIN_SAMPLING_DURATION div WINDOW_COUNT) [] rs)"
  using health_inv_run [OF health_inv_build [of "health_metrics_builder_new d thr thru pol"], of rs] assms
  by (simp add: health_metrics_builder_new_def)

text \<open>
  C5. The running counters of the sliding window are exact: after any sequence of fewer than
  \<open>2\<^sup>3\<^sup>2\<close> recorded results, with instants in any order, each counter equals the number of results
  of its kind in the abstract log, that is the results whose window has not expired.
\<close>

theorem health_counts_refine_log:
  assumes "length rs < 2 ^ 32"
  shows "unat (ei_get (hm_counts (health_metrics_run (health_metrics_build
      (health_metrics_builder_new d thr thru pol)) rs)) r) =
    log_count (log_run (max d MIN_SAMPLING_DURATION)
      (max d MIN_SAMPLING_DURATION div WINDOW_COUNT) [] rs) r"
  using health_run_built [OF assms] by (simp add: health_inv_def counts_log_def)

theorem health_counts_refine_log_witness:
  "unat (ei_get (hm_counts (health_metrics_run (health_metrics_build
      (health_metrics_builder_new 0 (1 / 2) 1 abandoned_policy_default))
      [(ER_Failure, 0), (ER_Success, 200000000), (ER_Failure, 1100000000)])) ER_Failure) =
    log_count (log_run 1000000000 100000000 []
      [(ER_Failure, 0), (ER_Success, 200000000), (ER_Failure, 1100000000)]) ER_Failure \<and>
   log_count (log_run 1000000000 100000000 []
      [(ER_Failure, 0), (ER_Success, 200000000), (ER_Failure, 1100000000)]) ER_Failure = 1"
  using health_counts_refine_log
    [of "[(ER_Failure, 0), (ER_Success, 200000000), (ER_Failure, 1100000000)]" 0 "1 / 2" 1
      abandoned_policy_default ER_Failure]
  by (simp add: MIN_SAMPLING_DURATION_def WINDOW_COUNT_def log_record_def log_count_def)



lemma evaluate_threshold_rate:
  assumes "unat execs \<noteq> 0" "unat thru \<le> unat execs"
  shows "evaluate_threshold failures execs thru t =
    (if t \<le> f32_of (f64_of (of_nat (unat failures) / of_nat (unat execs))) then Unhealthy else Healthy)"
  using assms by (auto simp: evaluate_threshold_def word_less_nat_alt unat_eq_zero)

lemma f32_rate_ge: "representable 24 t \<Longrightarrow> t \<le> x \<Longrightarrow> t \<le> f32_of (f64_of x)"
  using representable_mono [of 24 t 53] by (simp add: ieee_round_ge_representable)

lemma f32_rate_le: "representable 24 t \<Longrightarrow> x \<le> t \<Longrightarrow> f32_of (f64_of x) \<le> t"
  using representable_mono [of 24 t 53] by (simp add: ieee_round_le_representable)

text \<open>
  C36. The verdict follows the exact failure rate up to one unit in the last place of an \<open>f32\<close>:
  once the minimum throughput is reached, an exact rate at or above the threshold is unhealthy, and
  an exact rate at or below any \<open>f32\<close> smaller than the threshold is healthy.
\<close>

theorem evaluate_threshold_exact:
  assumes "unat execs \<noteq> 0" "unat thru \<le> unat execs" "representable 24 t"
  shows "(t \<le> of_nat (unat failures) / of_nat (unat execs) \<longrightarrow>
      evaluate_threshold failures execs thru t = Unhealthy) \<and>
    (\<forall>t'. representable 24 t' \<and> t' < t \<and> of_nat (unat failures) / of_nat (unat execs) \<le> t' \<longrightarrow>
      evaluate_threshold failures execs thru t = Healthy)"
  using f32_rate_ge [OF assms(3)] f32_rate_le evaluate_threshold_rate [OF assms(1,2)]
  by fastforce

theorem evaluate_threshold_exact_witness:
  "evaluate_threshold 3 4 2 (1 / 2) = Unhealthy \<and> evaluate_threshold 1 4 2 (1 / 2) = Healthy"
proof -
  have r: "representable 24 (1 / 2)" "representable 24 (1 / 4)" by code_simp+
  show ?thesis
    using evaluate_threshold_exact [of 4 2 "1 / 2" 3] evaluate_threshold_exact [of 4 2 "1 / 2" 1] r
    by (auto dest!: spec [of _ "1 / 4"])
qed

lemma unat_execution_info_total:
  "unat (execution_info_total c) =
     min (unat (ei_succeeded c) + unat (ei_failed c) + unat (ei_abandoned c)) (2 ^ 32 - 1)"
  by (simp add: execution_info_total_def word_arith_simps)

lemma abandon_rate_below_one:
  assumes "a < n" "n \<le> 2 ^ 24"
  shows "f32_of (f64_of (of_nat a / of_nat n)) < 1"
proof -
  have r: "representable 24 (1 - 1 / 2 ^ 24)" by code_simp
  have "of_nat a / of_nat n \<le> (1 - 1 / of_nat n :: rat)" using assms(1) by (simp add: field_simps)
  also have "(of_nat n :: rat) \<le> of_nat (2 ^ 24)" using assms(2) by (rule of_nat_mono)
  then have "(1 - 1 / of_nat n :: rat) \<le> 1 - 1 / 2 ^ 24"
    using assms(1) by (simp add: frac_le)
  finally have "f32_of (f64_of (of_nat a / of_nat n)) \<le> 1 - 1 / 2 ^ 24" by (rule f32_rate_le [OF r])
  then show ?thesis by simp
qed

text \<open>
  C38. Under the default policy \<open>rate_threshold(1.0)\<close> abandoned executions do not enter the decision
  as long as at least one execution in a sample of up to \<open>2\<^sup>2\<^sup>4\<close> was not abandoned.
\<close>

theorem default_policy_ignores_partial_abandonment:
  assumes "he_abandoned_policy he = abandoned_policy_default"
    and "ei_succeeded c \<noteq> 0 \<or> ei_failed c \<noteq> 0"
    and "unat (ei_succeeded c) + unat (ei_failed c) + unat (ei_abandoned c) \<le> 2 ^ 24"
  shows "evaluate_core he c = (ei_failed c, saturating_add (ei_succeeded c) (ei_failed c))"
proof -
  let ?n = "unat (ei_succeeded c) + unat (ei_failed c) + unat (ei_abandoned c)"
  have n: "unat (execution_info_total c) = ?n" using assms(3) by (simp add: unat_execution_info_total)
  have "unat (ei_abandoned c) < ?n" using assms(2) by (auto simp: unat_gt_0)
  then have "f32_of (f64_of (of_nat (unat (ei_abandoned c)) / of_nat ?n)) < 1"
    using assms(3) by (rule abandon_rate_below_one)
  then have "evaluate_threshold (ei_abandoned c) (execution_info_total c) (he_min_throughput he) 1 = Healthy"
    by (simp add: evaluate_threshold_def n)
  then show ?thesis using assms(1) by (simp add: evaluate_core_def abandoned_policy_default_def)
qed

theorem default_policy_ignores_partial_abandonment_witness:
  "evaluate_core \<lparr>he_failure_threshold = 1 / 2, he_min_throughput = 2,
      he_abandoned_policy = abandoned_policy_default\<rparr>
     \<lparr>ei_succeeded = 1, ei_failed = 2, ei_abandoned = 90\<rparr> = (2, 3)"
  using default_policy_ignores_partial_abandonment
    [of "\<lparr>he_failure_threshold = 1 / 2, he_min_throughput = 2,
      he_abandoned_policy = abandoned_policy_default\<rparr>" "\<lparr>ei_succeeded = 1, ei_failed = 2, ei_abandoned = 90\<rparr>"]
  by (simp add: saturating_add_def)


end
