(* ===== verification/Breaker_Probing.thy ===== *)
theory Breaker_Probing
  imports Breaker_Health
begin

text \<open>
  Probing of the circuit breaker (\<open>seatbelt/src/breaker/engine/probing\<close> and
  \<open>half_open_mode.rs\<close>): the single probe, the health probe, the enum over both, the sequence of
  probes of a half-open circuit, and the options they are built from.

  The random number a health probe draws (\<open>Rnd::next_f64\<close>, which calls the third-party generator)
  is an argument \<open>rnd\<close> of \<open>allow_probe\<close>. The trait \<open>ProbeOperation\<close> is the locale
  \<open>probe_operation\<close>: its laws say that an admission attempt after the probe's deadline is accepted
  whatever the draw, so a run of rejections is bounded; both probes, the enum and the sequence are
  interpretations.
\<close>

section \<open>Results\<close>

datatype probing_result = PR_Success | PR_Failure | PR_Pending

datatype allow_probe_result = AP_Accepted | AP_Rejected

datatype execution_mode = EM_Normal | EM_Probe

datatype enter_circuit_result = EC_Accepted execution_mode | EC_Rejected

fun enter_circuit_result_from :: "allow_probe_result \<Rightarrow> enter_circuit_result" where
  "enter_circuit_result_from AP_Accepted = EC_Accepted EM_Probe"
| "enter_circuit_result_from AP_Rejected = EC_Rejected"

section \<open>Options\<close>

definition MIN_THROUGHPUT :: u32 where
  "MIN_THROUGHPUT = 1"

record health_probe_options =
  hpo_builder :: health_metrics_builder
  hpo_probing_ratio :: f64

datatype probe_options =
    PO_SingleProbe (po_cooldown: duration) (po_abandoned_policy: abandoned_policy)
  | PO_HealthProbe health_probe_options

record probes_options =
  pso_probes :: "probe_options list"

definition health_probe_options_new ::
  "duration \<Rightarrow> f32 \<Rightarrow> f64 \<Rightarrow> abandoned_policy \<Rightarrow> health_probe_options panicking" where
  "health_probe_options_new stage_duration failure_threshold probing_ratio abandoned_policy =
     panic_bind (assert_or_panic (0 < probing_ratio \<and> probing_ratio \<le> 1) ''probing_ratio must be in (0.0, 1.0]'')
       (\<lambda>_. panic_bind (assert_or_panic (0 \<le> failure_threshold \<and> failure_threshold < 1)
               ''failure_threshold must be in [0.0, 1.0)'')
       (\<lambda>_. panic_bind (assert_or_panic (0 < stage_duration) ''stage_duration must be greater than zero'')
       (\<lambda>_. Inr \<lparr>hpo_builder = health_metrics_builder_new stage_duration failure_threshold MIN_THROUGHPUT abandoned_policy,
                 hpo_probing_ratio = probing_ratio\<rparr>)))"

definition hpo_stage_duration :: "health_probe_options \<Rightarrow> duration" where
  "hpo_stage_duration o' = hb_sampling_duration (hpo_builder o')"

definition probes_options_new :: "probe_options list \<Rightarrow> probes_options panicking" where
  "probes_options_new probes =
     panic_bind (assert_or_panic (probes \<noteq> []) ''the probes list cannot be empty'')
       (\<lambda>_. Inr \<lparr>pso_probes = probes\<rparr>)"

definition probes_options_quick :: "duration \<Rightarrow> abandoned_policy \<Rightarrow> probes_options panicking" where
  "probes_options_quick cooldown abandoned_policy =
     probes_options_new [PO_SingleProbe cooldown abandoned_policy]"

definition probes_options_gradual ::
  "f64 list \<Rightarrow> duration \<Rightarrow> f32 \<Rightarrow> abandoned_policy \<Rightarrow> probes_options panicking" where
  "probes_options_gradual probing_ratio stage_duration failure_threshold abandoned_policy =
     panic_bind
       (panic_map (\<lambda>ratio. panic_bind
            (health_probe_options_new stage_duration failure_threshold ratio abandoned_policy)
            (\<lambda>o'. Inr (PO_HealthProbe o'))) probing_ratio)
       (\<lambda>health. probes_options_new (PO_SingleProbe stage_duration abandoned_policy # health))"

definition progressive_ratios :: "f64 list" where
  "progressive_ratios = map f64_of [1 / 1000, 1 / 100, 1 / 20, 1 / 10, 1 / 4, 1 / 2]"

definition probes_options_progressive ::
  "duration \<Rightarrow> f32 \<Rightarrow> abandoned_policy \<Rightarrow> probes_options panicking" where
  "probes_options_progressive = probes_options_gradual progressive_ratios"

datatype half_open_inner = HO_Quick | HO_Progressive "duration option"

record half_open_mode =
  hom_inner :: half_open_inner

definition half_open_quick :: half_open_mode where
  "half_open_quick = \<lparr>hom_inner = HO_Quick\<rparr>"

definition half_open_progressive :: "duration option \<Rightarrow> half_open_mode" where
  "half_open_progressive stage_duration =
     \<lparr>hom_inner = HO_Progressive (map_option (\<lambda>d. max d MIN_SAMPLING_DURATION) stage_duration)\<rparr>"

definition half_open_default :: half_open_mode where
  "half_open_default = half_open_progressive None"

definition half_open_to_options ::
  "half_open_mode \<Rightarrow> duration \<Rightarrow> f32 \<Rightarrow> abandoned_policy \<Rightarrow> probes_options panicking" where
  "half_open_to_options mode default_stage_duration failure_threshold abandoned_policy =
     (case hom_inner mode of
        HO_Quick \<Rightarrow> probes_options_quick default_stage_duration abandoned_policy
      | HO_Progressive duration \<Rightarrow>
          probes_options_progressive (case duration of None \<Rightarrow> default_stage_duration | Some d \<Rightarrow> d)
            failure_threshold abandoned_policy)"

section \<open>The single probe\<close>

record single_probe =
  sp_probe_cooldown :: duration
  sp_abandoned_policy :: abandoned_policy
  sp_entered_at :: "instant option"

definition single_probe_new :: "duration \<Rightarrow> abandoned_policy \<Rightarrow> single_probe" where
  "single_probe_new probe_cooldown abandoned_policy =
     \<lparr>sp_probe_cooldown = probe_cooldown, sp_abandoned_policy = abandoned_policy, sp_entered_at = None\<rparr>"

definition single_allow_probe :: "single_probe \<Rightarrow> instant \<Rightarrow> single_probe \<times> allow_probe_result" where
  "single_allow_probe p now =
     (case sp_entered_at p of
        None \<Rightarrow> (p\<lparr>sp_entered_at := Some now\<rparr>, AP_Accepted)
      | Some entered_at \<Rightarrow>
          if sp_probe_cooldown p < now - entered_at
          then (p\<lparr>sp_entered_at := Some now\<rparr>, AP_Accepted)
          else (p, AP_Rejected))"

definition single_record ::
  "single_probe \<Rightarrow> execution_result \<Rightarrow> instant \<Rightarrow> single_probe \<times> probing_result" where
  "single_record p result now =
     (p, case result of
           ER_Success \<Rightarrow> PR_Success
         | ER_Failure \<Rightarrow> PR_Failure
         | ER_Abandoned \<Rightarrow>
             if counts_abandoned_as_failure (sp_abandoned_policy p) then PR_Failure else PR_Pending)"

section \<open>The health probe\<close>

record health_probe =
  hp_options :: health_probe_options
  hp_metrics :: health_metrics
  hp_fallback_after :: "instant option"
  hp_sample_until :: "instant option"

definition health_probe_new :: "health_probe_options \<Rightarrow> health_probe" where
  "health_probe_new options =
     \<lparr>hp_options = options, hp_metrics = health_metrics_build (hpo_builder options),
      hp_fallback_after = None, hp_sample_until = None\<rparr>"

definition health_allow_probe ::
  "health_probe \<Rightarrow> f64 \<Rightarrow> instant \<Rightarrow> health_probe \<times> allow_probe_result" where
  "health_allow_probe p rnd now =
     (let sample_until = (case hp_sample_until p of
                            None \<Rightarrow> now + hpo_stage_duration (hp_options p) | Some t \<Rightarrow> t);
          fallback_after = (case hp_fallback_after p of None \<Rightarrow> sample_until | Some t \<Rightarrow> t);
          p' = p\<lparr>hp_sample_until := Some sample_until, hp_fallback_after := Some fallback_after\<rparr>
      in if rnd < hpo_probing_ratio (hp_options p) then (p', AP_Accepted)
         else if fallback_after < now
         then (p'\<lparr>hp_fallback_after := Some (now + hpo_stage_duration (hp_options p))\<rparr>, AP_Accepted)
         else (p', AP_Rejected))"

definition keep_sampling :: "health_probe \<Rightarrow> instant \<Rightarrow> bool" where
  "keep_sampling p now = (case hp_sample_until p of None \<Rightarrow> True | Some until \<Rightarrow> now < until)"

definition health_record ::
  "health_probe \<Rightarrow> execution_result \<Rightarrow> instant \<Rightarrow> health_probe \<times> probing_result" where
  "health_record p result now =
     (let p' = p\<lparr>hp_metrics := health_metrics_record (hp_metrics p) result now\<rparr>
      in if keep_sampling p' now then (p', PR_Pending)
         else (p', case hi_status (health_metrics_info (hp_metrics p')) of
                     Healthy \<Rightarrow> PR_Success
                   | Unhealthy \<Rightarrow> PR_Failure))"

section \<open>The enum over the probes and the sequence of probes\<close>

datatype probe = P_Single single_probe | P_Health health_probe

fun probe_new :: "probe_options \<Rightarrow> probe" where
  "probe_new (PO_SingleProbe cooldown abandoned_policy) = P_Single (single_probe_new cooldown abandoned_policy)"
| "probe_new (PO_HealthProbe options) = P_Health (health_probe_new options)"

fun probe_allow :: "probe \<Rightarrow> f64 \<Rightarrow> instant \<Rightarrow> probe \<times> allow_probe_result" where
  "probe_allow (P_Single p) rnd now = apfst P_Single (single_allow_probe p now)"
| "probe_allow (P_Health p) rnd now = apfst P_Health (health_allow_probe p rnd now)"

fun probe_record :: "probe \<Rightarrow> execution_result \<Rightarrow> instant \<Rightarrow> probe \<times> probing_result" where
  "probe_record (P_Single p) result now = apfst P_Single (single_record p result now)"
| "probe_record (P_Health p) result now = apfst P_Health (health_record p result now)"

record probes =
  ps_probes :: "probe_options list"
  ps_current :: probe

definition probes_new :: "probes_options \<Rightarrow> probes panicking" where
  "probes_new options =
     (case pso_probes options of
        [] \<Rightarrow> Inl ''probes are never empty because ProbesOptions enforces that''
      | first # rest \<Rightarrow> Inr \<lparr>ps_probes = rest, ps_current = probe_new first\<rparr>)"

definition probes_allow_probe :: "probes \<Rightarrow> f64 \<Rightarrow> instant \<Rightarrow> probes \<times> allow_probe_result" where
  "probes_allow_probe ps rnd now =
     (let (current, allow) = probe_allow (ps_current ps) rnd now in (ps\<lparr>ps_current := current\<rparr>, allow))"

definition probes_record :: "probes \<Rightarrow> execution_result \<Rightarrow> instant \<Rightarrow> probes \<times> probing_result" where
  "probes_record ps result now =
     (let (current, outcome) = probe_record (ps_current ps) result now; ps' = ps\<lparr>ps_current := current\<rparr>
      in case outcome of
           PR_Success \<Rightarrow>
             if result = ER_Abandoned then (ps', PR_Pending)
             else (case ps_probes ps' of
                     next # rest \<Rightarrow> (\<lparr>ps_probes = rest, ps_current = probe_new next\<rparr>, PR_Pending)
                   | [] \<Rightarrow> (ps', PR_Success))
         | PR_Pending \<Rightarrow> (ps', PR_Pending)
         | PR_Failure \<Rightarrow> (ps', PR_Failure))"

section \<open>The contract of a probe\<close>

text \<open>A run of admission attempts, each with its draw and its instant, all of them rejected.\<close>

fun rejected_run ::
  "('p \<Rightarrow> f64 \<Rightarrow> instant \<Rightarrow> 'p \<times> allow_probe_result) \<Rightarrow> 'p \<Rightarrow> (f64 \<times> instant) list \<Rightarrow> bool" where
  "rejected_run allow p [] = True"
| "rejected_run allow p ((rnd, now) # xs) =
     (case allow p rnd now of
        (p', AP_Accepted) \<Rightarrow> False
      | (p', AP_Rejected) \<Rightarrow> rejected_run allow p' xs)"

lemma rejected_run_Cons:
  "rejected_run allow p ((rnd, now) # xs) \<longleftrightarrow>
     (\<exists>p'. allow p rnd now = (p', AP_Rejected) \<and> rejected_run allow p' xs)"
  by (auto split: prod.splits allow_probe_result.splits)

locale probe_operation =
  fixes allow :: "'p \<Rightarrow> f64 \<Rightarrow> instant \<Rightarrow> 'p \<times> allow_probe_result"
    and record_result :: "'p \<Rightarrow> execution_result \<Rightarrow> instant \<Rightarrow> 'p \<times> probing_result"
    and deadline :: "'p \<Rightarrow> instant option"
    and patience :: "'p \<Rightarrow> duration"
  assumes accept_after_deadline:
      "deadline p = Some t \<Longrightarrow> t < now \<Longrightarrow> snd (allow p rnd now) = AP_Accepted"
    and reject_sets_deadline: "allow p rnd now = (p', AP_Rejected) \<Longrightarrow>
      deadline p' = Some (case deadline p of None \<Rightarrow> now + patience p | Some t \<Rightarrow> t)"
    and accept_sets_deadline: "allow p rnd now = (p', AP_Accepted) \<Longrightarrow>
      \<exists>t. deadline p' = Some t \<and> (t \<le> now + patience p \<or> deadline p = Some t)"
    and patience_allow: "patience (fst (allow p rnd now)) = patience p"
    and record_frame: "deadline (fst (record_result p res now)) = deadline p"
      "patience (fst (record_result p res now)) = patience p"
begin

lemma rejected_before_deadline:
  "rejected_run allow p xs \<Longrightarrow> deadline p = Some t \<Longrightarrow> (rnd, now) \<in> set xs \<Longrightarrow> now \<le> t"
proof (induction xs arbitrary: p)
  case Nil
  then show ?case by simp
next
  case (Cons x xs)
  obtain r n where x: "x = (r, n)" by force
  from Cons.prems(1) obtain p' where p': "allow p r n = (p', AP_Rejected)" "rejected_run allow p' xs"
    unfolding x rejected_run_Cons by blast
  have "deadline p' = Some t" using reject_sets_deadline [OF p'(1)] Cons.prems(2) by simp
  moreover have "n \<le> t" using accept_after_deadline [OF Cons.prems(2), of n r] p'(1) by fastforce
  ultimately show ?case using Cons.IH [OF p'(2)] Cons.prems(3) by (auto simp: x)
qed

lemma bounded_rejection:
  assumes "rejected_run allow p ((r0, t0) # xs)" "(rnd, now) \<in> set xs"
  shows "now \<le> (case deadline p of None \<Rightarrow> t0 + patience p | Some t \<Rightarrow> t)"
proof -
  from assms(1) obtain p' where p': "allow p r0 t0 = (p', AP_Rejected)" "rejected_run allow p' xs"
    unfolding rejected_run_Cons by blast
  from rejected_before_deadline [OF p'(2) reject_sets_deadline [OF p'(1)] assms(2)] show ?thesis .
qed

end

definition single_deadline :: "single_probe \<Rightarrow> instant option" where
  "single_deadline p = map_option (\<lambda>t. t + sp_probe_cooldown p) (sp_entered_at p)"

definition health_deadline :: "health_probe \<Rightarrow> instant option" where
  "health_deadline p = (case hp_fallback_after p of None \<Rightarrow> hp_sample_until p | Some t \<Rightarrow> Some t)"

fun probe_deadline :: "probe \<Rightarrow> instant option" where
  "probe_deadline (P_Single p) = single_deadline p"
| "probe_deadline (P_Health p) = health_deadline p"

fun probe_patience :: "probe \<Rightarrow> duration" where
  "probe_patience (P_Single p) = sp_probe_cooldown p"
| "probe_patience (P_Health p) = hpo_stage_duration (hp_options p)"

interpretation single_op: probe_operation "\<lambda>p rnd now. single_allow_probe p now" single_record
  single_deadline sp_probe_cooldown
  by unfold_locales
     (auto simp: single_deadline_def single_allow_probe_def single_record_def split: option.splits if_splits)

interpretation health_op: probe_operation health_allow_probe health_record health_deadline
  "\<lambda>p. hpo_stage_duration (hp_options p)"
  by unfold_locales
     (auto simp: health_deadline_def health_allow_probe_def health_record_def Let_def
       split: option.splits if_splits health_status.splits)

interpretation probe_op: probe_operation probe_allow probe_record probe_deadline probe_patience
proof unfold_locales
  fix p t now rnd assume "probe_deadline p = Some t" "t < now"
  then show "snd (probe_allow p rnd now) = AP_Accepted"
    by (cases p) (simp_all add: single_op.accept_after_deadline health_op.accept_after_deadline)
next
  fix p rnd now p' assume "probe_allow p rnd now = (p', AP_Rejected)"
  then show "probe_deadline p' = Some (case probe_deadline p of None \<Rightarrow> now + probe_patience p | Some t \<Rightarrow> t)"
    by (cases p) (auto simp: apfst_def map_prod_def single_op.reject_sets_deadline
        health_op.reject_sets_deadline split: prod.splits option.splits)
next
  fix p rnd now p' assume "probe_allow p rnd now = (p', AP_Accepted)"
  then show "\<exists>t. probe_deadline p' = Some t \<and> (t \<le> now + probe_patience p \<or> probe_deadline p = Some t)"
    by (cases p) (auto simp: apfst_def map_prod_def dest: single_op.accept_sets_deadline
        health_op.accept_sets_deadline split: prod.splits)
next
  fix p rnd now
  show "probe_patience (fst (probe_allow p rnd now)) = probe_patience p"
    by (cases p) (simp_all add: single_op.patience_allow health_op.patience_allow)
next
  fix p res now
  show "probe_deadline (fst (probe_record p res now)) = probe_deadline p"
    by (cases p) (simp_all add: single_op.record_frame health_op.record_frame)
  show "probe_patience (fst (probe_record p res now)) = probe_patience p"
    by (cases p) (simp_all add: single_op.record_frame health_op.record_frame)
qed

lemma probes_allow_fields:
  assumes "probes_allow_probe ps rnd now = (ps', a)"
  shows "ps_probes ps' = ps_probes ps" "probe_allow (ps_current ps) rnd now = (ps_current ps', a)"
  using assms by (auto simp: probes_allow_probe_def split: prod.splits)

lemma rejected_run_probes:
  "rejected_run probes_allow_probe ps xs \<Longrightarrow> rejected_run probe_allow (ps_current ps) xs"
proof (induction xs arbitrary: ps)
  case (Cons x xs)
  obtain r n where x: "x = (r, n)" by force
  from Cons.prems obtain ps' where "probes_allow_probe ps r n = (ps', AP_Rejected)"
    "rejected_run probes_allow_probe ps' xs" unfolding x rejected_run_Cons by blast
  then show ?case
    using Cons.IH probes_allow_fields(2) unfolding x rejected_run_Cons by blast
qed simp

text \<open>How recording moves the sequence of probes: each stage must end in a conclusive success.\<close>

lemma probes_record_cases:
  assumes "probes_record ps res now = (ps', out)"
  shows "out = PR_Success \<and> ps_probes ps = [] \<and> res \<noteq> ER_Abandoned \<or>
    out = PR_Pending \<and> res \<noteq> ER_Abandoned \<and> ps_probes ps \<noteq> [] \<and> ps_probes ps' = tl (ps_probes ps) \<and>
      ps_current ps' = probe_new (hd (ps_probes ps)) \<or>
    out \<noteq> PR_Success \<and> ps_probes ps' = ps_probes ps \<and>
      ps_current ps' = fst (probe_record (ps_current ps) res now)"
  using assms
  by (auto simp: probes_record_def Let_def split: prod.splits probing_result.splits list.splits if_splits)

text \<open>
  What happens to the probes of one half-open phase: admission attempts and recorded results, in
  any order, until the sequence of probes decides.
\<close>

datatype probe_event = PE_Allow f64 instant | PE_Record execution_result instant

fun probes_drive :: "probes \<Rightarrow> probe_event list \<Rightarrow> probing_result" where
  "probes_drive ps [] = PR_Pending"
| "probes_drive ps (PE_Allow rnd now # xs) = probes_drive (fst (probes_allow_probe ps rnd now)) xs"
| "probes_drive ps (PE_Record res now # xs) =
     (case probes_record ps res now of
        (ps', PR_Pending) \<Rightarrow> probes_drive ps' xs
      | (ps', out) \<Rightarrow> out)"

fun conclusive :: "probe_event \<Rightarrow> bool" where
  "conclusive (PE_Allow rnd now) = False"
| "conclusive (PE_Record res now) = (res \<noteq> ER_Abandoned)"

lemma probes_drive_success_length:
  "probes_drive ps xs = PR_Success \<Longrightarrow> length (ps_probes ps) < length (filter conclusive xs)"
proof (induction ps xs rule: probes_drive.induct)
  case (2 ps rnd now xs)
  then show ?case
    using probes_allow_fields(1) [of ps rnd now "fst (probes_allow_probe ps rnd now)"
        "snd (probes_allow_probe ps rnd now)"] by simp
next
  case (3 ps res now xs)
  obtain ps' out where rec: "probes_record ps res now = (ps', out)" by force
  show ?case
  proof (cases "out = PR_Pending")
    case True
    with 3 rec have "length (ps_probes ps') < length (filter conclusive xs)" by auto
    with True show ?thesis using probes_record_cases [OF rec] by auto
  next
    case False
    with 3 rec have "out = PR_Success" by (cases out) simp_all
    then show ?thesis using probes_record_cases [OF rec] by auto
  qed
qed simp

lemma half_open_to_options_nonempty:
  "half_open_to_options mode d thr pol = Inr opts \<Longrightarrow> pso_probes opts \<noteq> []"
  by (auto simp: half_open_to_options_def probes_options_quick_def probes_options_progressive_def
      probes_options_gradual_def probes_options_new_def panic_bind_eq_Inr
      split: half_open_inner.splits)

section \<open>Properties\<close>

text \<open>
  C11. A half-open circuit cannot starve: in a run of rejected admission attempts no attempt comes
  later than the deadline of the current probe, which a fresh probe sets to the first attempt plus
  its cool-down or stage duration. Whatever the random draws, an attempt after that is admitted.
\<close>

theorem probes_rejection_bounded:
  assumes "rejected_run probes_allow_probe ps ((r0, t0) # xs)" and "(rnd, now) \<in> set xs"
  shows "now \<le> (case probe_deadline (ps_current ps) of
    None \<Rightarrow> t0 + probe_patience (ps_current ps) | Some t \<Rightarrow> t)"
  using probe_op.bounded_rejection [OF rejected_run_probes [OF assms(1)] assms(2)] .

definition example_health_probes :: probes where
  "example_health_probes = \<lparr>ps_probes = [], ps_current = probe_new (PO_HealthProbe
     \<lparr>hpo_builder = health_metrics_builder_new 0 (1 / 2) 1 abandoned_policy_ignore, hpo_probing_ratio = 1 / 4\<rparr>)\<rparr>"

theorem probes_rejection_bounded_witness:
  "rejected_run probes_allow_probe example_health_probes [(1 / 2, 5), (3 / 4, 1000000005)] \<and>
   1000000005 \<le> (5::nat) + 1000000000 \<and>
   \<not> rejected_run probes_allow_probe example_health_probes [(1 / 2, 5), (3 / 4, 1000000006)]"
proof -
  have run: "rejected_run probes_allow_probe example_health_probes [(1 / 2, 5), (3 / 4, 1000000005)]"
    by (simp add: example_health_probes_def probes_allow_probe_def health_probe_new_def
        health_allow_probe_def hpo_stage_duration_def health_metrics_builder_new_def MIN_SAMPLING_DURATION_def)
  have "\<not> rejected_run probes_allow_probe example_health_probes [(1 / 2, 5), (3 / 4, 1000000006)]"
    using probes_rejection_bounded [of example_health_probes "1 / 2" 5 "[(3 / 4, 1000000006)]" "3 / 4" 1000000006]
    by (auto simp: example_health_probes_def health_probe_new_def health_deadline_def
        hpo_stage_duration_def health_metrics_builder_new_def MIN_SAMPLING_DURATION_def)
  with run show ?thesis by simp
qed

text \<open>
  C12. A progressive half-open circuit closes only after at least seven results that were not
  abandoned: one for the initial single probe and one for each of the six ratios.
\<close>

theorem progressive_close_needs_seven_results:
  assumes "half_open_to_options (half_open_progressive stage) d thr pol = Inr opts"
    and "probes_new opts = Inr ps" and "probes_drive ps xs = PR_Success"
  shows "7 \<le> length (filter conclusive xs)"
proof -
  have "length (ps_probes ps) = 6"
    using assms(1,2)
    by (auto simp: half_open_to_options_def half_open_progressive_def probes_options_progressive_def
        probes_options_gradual_def probes_options_new_def panic_bind_eq_Inr probes_new_def progressive_ratios_def
        dest!: panic_map_eq_Inr_length)
  then show ?thesis using probes_drive_success_length [OF assms(3)] by simp
qed

lemma progressive_ratios_eq:
  "progressive_ratios = [1152921504606847 / 1152921504606846976, 5764607523034235 / 576460752303423488, 3602879701896397 / 72057594037927936, 3602879701896397 / 36028797018963968, 1 / 4, 1 / 2]"
  by code_simp

lemma progressive_ratios_range: "r \<in> set progressive_ratios \<Longrightarrow> 0 < r \<and> r \<le> 1"
  by (auto simp: progressive_ratios_eq)

lemma health_probe_options_new_Inr:
  "0 < ratio \<Longrightarrow> ratio \<le> 1 \<Longrightarrow> 0 \<le> thr \<Longrightarrow> thr < 1 \<Longrightarrow> 0 < d \<Longrightarrow>
     health_probe_options_new d thr ratio pol =
       Inr \<lparr>hpo_builder = health_metrics_builder_new d thr MIN_THROUGHPUT pol, hpo_probing_ratio = ratio\<rparr>"
  by (simp add: health_probe_options_new_def assert_or_panic_def)

lemma probes_options_progressive_Inr:
  assumes "0 \<le> thr" "thr < 1" "0 < d"
  shows "probes_options_progressive d thr pol = Inr \<lparr>pso_probes = PO_SingleProbe d pol #
    map (\<lambda>ratio. PO_HealthProbe \<lparr>hpo_builder = health_metrics_builder_new d thr MIN_THROUGHPUT pol,
       hpo_probing_ratio = ratio\<rparr>) progressive_ratios\<rparr>"
proof -
  have "panic_map (\<lambda>ratio. panic_bind (health_probe_options_new d thr ratio pol) (\<lambda>o'. Inr (PO_HealthProbe o')))
      progressive_ratios =
    Inr (map (\<lambda>ratio. PO_HealthProbe \<lparr>hpo_builder = health_metrics_builder_new d thr MIN_THROUGHPUT pol,
       hpo_probing_ratio = ratio\<rparr>) progressive_ratios)"
    using assms by (intro panic_map_Inr) (simp add: health_probe_options_new_Inr progressive_ratios_range)
  then show ?thesis
    by (simp add: probes_options_progressive_def probes_options_gradual_def probes_options_new_def assert_or_panic_def)
qed

definition example_progressive_probes :: probes where
  "example_progressive_probes =
     \<lparr>ps_probes = map (\<lambda>ratio. PO_HealthProbe \<lparr>hpo_builder =
        health_metrics_builder_new 5000000000 (1 / 2) MIN_THROUGHPUT abandoned_policy_default,
        hpo_probing_ratio = ratio\<rparr>) progressive_ratios,
      ps_current = probe_new (PO_SingleProbe 5000000000 abandoned_policy_default)\<rparr>"

definition example_progressive_events :: "probe_event list" where
  "example_progressive_events =
     [PE_Allow 0 0, PE_Record ER_Success 1] @
     concat (map (\<lambda>i. [PE_Allow 0 (i * 6000000000), PE_Record ER_Success (i * 6000000000 + 5000000000)])
       [1, 2, 3, 4, 5, 6])"

lemmas probes_eval = probes_allow_probe_def probes_record_def single_allow_probe_def single_record_def
  single_probe_new_def health_allow_probe_def health_record_def health_probe_new_def keep_sampling_def
  hpo_stage_duration_def health_metrics_builder_new_def health_metrics_build_def health_metrics_new_def
  health_metrics_record_def current_window_def health_metrics_info_def health_evaluate_def evaluate_core_def
  evaluate_threshold_def execution_info_total_def execution_info_default_def window_new_def window_update_def
  abandoned_policy_default_def saturating_add_def MIN_SAMPLING_DURATION_def WINDOW_COUNT_def MIN_THROUGHPUT_def

lemma example_progressive_drive:
  "probes_drive example_progressive_probes example_progressive_events = PR_Success"
  by (simp add: example_progressive_probes_def example_progressive_events_def progressive_ratios_eq probes_eval)

lemma example_progressive_built:
  "\<exists>opts. half_open_to_options (half_open_progressive None) 5000000000 (1 / 2) abandoned_policy_default = Inr opts \<and>
     probes_new opts = Inr example_progressive_probes"
  by (simp add: half_open_to_options_def half_open_progressive_def probes_options_progressive_Inr
      probes_new_def example_progressive_probes_def)

theorem progressive_close_needs_seven_results_witness:
  "probes_drive example_progressive_probes example_progressive_events = PR_Success \<and>
   7 \<le> length (filter conclusive example_progressive_events)"
proof -
  obtain opts where o: "half_open_to_options (half_open_progressive None) 5000000000 (1 / 2)
      abandoned_policy_default = Inr opts" "probes_new opts = Inr example_progressive_probes"
    using example_progressive_built by blast
  show ?thesis
    using progressive_close_needs_seven_results [OF o example_progressive_drive] example_progressive_drive
    by simp
qed

end
