(* ===== verification/Breaker_Engine.thy ===== *)
theory Breaker_Engine
  imports Breaker_Probing
begin

text \<open>
  The circuit breaker engine (\<open>seatbelt/src/breaker/engine\<close>): the three-state machine of
  \<open>engine_core.rs\<close>, the telemetry decorator of \<open>engine_telemetry.rs\<close>, the registry of
  \<open>engines.rs\<close> and the breaker ids of \<open>breaker_id.rs\<close>.

  Each \<open>enter\<close> and \<open>exit\<close> runs under the engine's mutex, so it is one step. The caller reads the
  clock before it takes the lock, so the instants of successive steps are in no particular order,
  and \<open>enter\<close> and \<open>exit\<close> of concurrent calls interleave: a run is an arbitrary list of
  \<open>circuit_event\<close>s, in the order in which the mutex serialises them.
\<close>

section \<open>Results, options and statistics\<close>

datatype circuit_state = CS_Closed | CS_Open | CS_HalfOpen

fun circuit_state_as_str :: "circuit_state \<Rightarrow> string" where
  "circuit_state_as_str CS_Closed = ''closed''"
| "circuit_state_as_str CS_Open = ''open''"
| "circuit_state_as_str CS_HalfOpen = ''half_open''"

record stats =
  st_probes :: execution_info
  st_probes_lost :: usize
  st_executions_lost :: usize
  st_opened_at :: instant
  st_re_opened :: usize
  st_rejected :: usize

datatype exit_circuit_result =
    XC_Unchanged
  | XC_Opened health_info
  | XC_Reopened
  | XC_Closed stats

record engine_options =
  eo_break_duration :: duration
  eo_health_metrics_builder :: health_metrics_builder
  eo_probes :: probes_options

definition stats_new :: "instant \<Rightarrow> stats" where
  "stats_new opened_at =
     \<lparr>st_probes = execution_info_default, st_probes_lost = 0, st_executions_lost = 0,
      st_opened_at = opened_at, st_re_opened = 0, st_rejected = 0\<rparr>"

definition stats_opened_duration :: "stats \<Rightarrow> instant \<Rightarrow> duration" where
  "stats_opened_duration s now = now - st_opened_at s"

definition stats_record_allow_result :: "stats \<Rightarrow> allow_probe_result \<Rightarrow> stats" where
  "stats_record_allow_result s allow =
     (if allow \<noteq> AP_Accepted then s\<lparr>st_rejected := saturating_add (st_rejected s) 1\<rparr> else s)"

definition stats_record_probe_execution_result :: "stats \<Rightarrow> execution_result \<Rightarrow> stats" where
  "stats_record_probe_execution_result s result = s\<lparr>st_probes := execution_info_record (st_probes s) result\<rparr>"

section \<open>The state machine\<close>

datatype state =
    Closed health_metrics
  | Open instant stats
  | HalfOpen probes stats

definition state_enter ::
  "state \<Rightarrow> f64 \<Rightarrow> instant \<Rightarrow> engine_options \<Rightarrow> (state \<times> enter_circuit_result) panicking" where
  "state_enter self rnd now settings =
     (case self of
        Closed health \<Rightarrow> Inr (Closed health, EC_Accepted EM_Normal)
      | Open open_until stats \<Rightarrow>
          if open_until \<le> now
          then panic_bind (probes_new (eo_probes settings))
                 (\<lambda>probes. let (probes', allow) = probes_allow_probe probes rnd now
                   in Inr (HalfOpen probes' (stats_record_allow_result stats allow),
                           enter_circuit_result_from allow))
          else Inr (Open open_until (stats\<lparr>st_rejected := saturating_add (st_rejected stats) 1\<rparr>), EC_Rejected)
      | HalfOpen probes stats \<Rightarrow>
          let (probes', allow) = probes_allow_probe probes rnd now
          in Inr (HalfOpen probes' (stats_record_allow_result stats allow), enter_circuit_result_from allow))"

definition state_exit ::
  "state \<Rightarrow> execution_result \<Rightarrow> execution_mode \<Rightarrow> instant \<Rightarrow> engine_options \<Rightarrow> state \<times> exit_circuit_result" where
  "state_exit self result mode now settings =
     (case self of
        Closed health \<Rightarrow>
          if mode = EM_Probe then (Closed health, XC_Unchanged)
          else let health' = health_metrics_record health result now; info = health_metrics_info health'
               in (case hi_status info of
                     Healthy \<Rightarrow> (Closed health', XC_Unchanged)
                   | Unhealthy \<Rightarrow>
                       (Open (now + eo_break_duration settings) (stats_new now), XC_Opened info))
      | Open open_until stats \<Rightarrow>
          (Open open_until
             (case mode of
                EM_Probe \<Rightarrow> stats\<lparr>st_probes_lost := saturating_add (st_probes_lost stats) 1\<rparr>
              | EM_Normal \<Rightarrow> stats\<lparr>st_executions_lost := saturating_add (st_executions_lost stats) 1\<rparr>),
           XC_Unchanged)
      | HalfOpen probes stats \<Rightarrow>
          if mode = EM_Normal
          then (HalfOpen probes (stats\<lparr>st_executions_lost := saturating_add (st_executions_lost stats) 1\<rparr>),
                XC_Unchanged)
          else let stats' = stats_record_probe_execution_result stats result;
                   (probes', outcome) = probes_record probes result now
               in (case outcome of
                     PR_Success \<Rightarrow>
                       (Closed (health_metrics_build (eo_health_metrics_builder settings)), XC_Closed stats')
                   | PR_Failure \<Rightarrow>
                       (Open (now + eo_break_duration settings)
                          (stats'\<lparr>st_re_opened := saturating_add (st_re_opened stats') 1\<rparr>), XC_Reopened)
                   | PR_Pending \<Rightarrow> (HalfOpen probes' stats', XC_Unchanged)))"

record engine_core =
  ec_state :: state
  ec_options :: engine_options

definition engine_core_new :: "engine_options \<Rightarrow> engine_core" where
  "engine_core_new options =
     \<lparr>ec_state = Closed (health_metrics_build (eo_health_metrics_builder options)), ec_options = options\<rparr>"

definition engine_core_enter ::
  "engine_core \<Rightarrow> f64 \<Rightarrow> instant \<Rightarrow> (engine_core \<times> enter_circuit_result) panicking" where
  "engine_core_enter e rnd now =
     panic_bind (state_enter (ec_state e) rnd now (ec_options e))
       (\<lambda>(st, res). Inr (e\<lparr>ec_state := st\<rparr>, res))"

definition engine_core_exit ::
  "engine_core \<Rightarrow> execution_result \<Rightarrow> execution_mode \<Rightarrow> instant \<Rightarrow> engine_core \<times> exit_circuit_result" where
  "engine_core_exit e result mode now =
     (let (st, res) = state_exit (ec_state e) result mode now (ec_options e) in (e\<lparr>ec_state := st\<rparr>, res))"

section \<open>Breaker ids\<close>

datatype breaker_id = BI_Number u64 | BI_Hashed u64 string | BI_String string

definition breaker_id_default :: breaker_id where
  "breaker_id_default = BI_String ''default''"

definition breaker_id_is_default :: "breaker_id \<Rightarrow> bool" where
  "breaker_id_is_default i = (case i of BI_String value \<Rightarrow> value = ''default'' | _ \<Rightarrow> False)"

definition breaker_id_hashed :: "('a \<Rightarrow> u64) \<Rightarrow> 'a \<Rightarrow> string \<Rightarrow> breaker_id" where
  "breaker_id_hashed hash value label = BI_Hashed (hash value) label"

fun breaker_id_to_string :: "breaker_id \<Rightarrow> string" where
  "breaker_id_to_string (BI_Number n) = decimal_of_nat (unat n)"
| "breaker_id_to_string (BI_String s) = s"
| "breaker_id_to_string (BI_Hashed h label) = label"

section \<open>Telemetry\<close>

datatype log_value = LV_Str string | LV_Num nat

datatype log_level = Level_Info | Level_Warn

datatype telemetry_event =
    TE_Metric "(string \<times> string) list"
  | TE_Log string log_level "(string \<times> log_value) list"

record telemetry_helper =
  th_pipeline_name :: string
  th_strategy_name :: string
  th_metrics_enabled :: bool
  th_logs_enabled :: bool

definition report_metrics :: "telemetry_helper \<Rightarrow> (string \<times> string) list \<Rightarrow> telemetry_event list" where
  "report_metrics t attributes = (if th_metrics_enabled t then [TE_Metric attributes] else [])"

record engine =
  en_inner :: engine_core
  en_telemetry :: telemetry_helper
  en_breaker_id :: string

definition engine_metric ::
  "engine \<Rightarrow> string \<Rightarrow> circuit_state \<Rightarrow> (string \<times> string) list \<Rightarrow> telemetry_event list" where
  "engine_metric e event_name st extra =
     (if th_metrics_enabled (en_telemetry e)
      then report_metrics (en_telemetry e)
        ([(''resilience.pipeline.name'', th_pipeline_name (en_telemetry e)),
          (''resilience.strategy.name'', th_strategy_name (en_telemetry e)),
          (''resilience.event.name'', event_name),
          (''resilience.circuit_breaker.state'', circuit_state_as_str st),
          (''resilience.circuit_breaker.id'', en_breaker_id e)] @ extra)
      else [])"

definition engine_log ::
  "engine \<Rightarrow> string \<Rightarrow> log_level \<Rightarrow> circuit_state \<Rightarrow> (string \<times> log_value) list \<Rightarrow>
   (string \<times> log_value) list \<Rightarrow> telemetry_event list" where
  "engine_log e name level st before_id after_id =
     (if th_logs_enabled (en_telemetry e)
      then [TE_Log name level
        ([(''pipeline.name'', LV_Str (th_pipeline_name (en_telemetry e))),
          (''strategy.name'', LV_Str (th_strategy_name (en_telemetry e))),
          (''circuit_breaker.state'', LV_Str (circuit_state_as_str st))] @ before_id @
         [(''circuit_breaker.id'', LV_Str (en_breaker_id e))] @ after_id)]
      else [])"

definition engine_enter ::
  "engine \<Rightarrow> f64 \<Rightarrow> instant \<Rightarrow> (engine \<times> enter_circuit_result \<times> telemetry_event list) panicking" where
  "engine_enter e rnd now =
     panic_bind (engine_core_enter (en_inner e) rnd now)
       (\<lambda>(inner, enter_result).
          Inr (e\<lparr>en_inner := inner\<rparr>, enter_result,
               if enter_result = EC_Rejected
               then engine_metric e ''circuit_rejected'' CS_Open [] @
                    engine_log e ''seatbelt.circuit_breaker.rejected'' Level_Warn CS_Open [] []
               else []))"

definition report_state_change :: "engine \<Rightarrow> exit_circuit_result \<Rightarrow> instant \<Rightarrow> telemetry_event list" where
  "report_state_change e exit_result now =
     (case exit_result of
        XC_Opened health \<Rightarrow>
          engine_metric e ''circuit_opened'' CS_Open [] @
          engine_log e ''seatbelt.circuit_breaker.opened'' Level_Warn CS_Open []
            [(''circuit_breaker.execs.total'', LV_Num (unat (execution_info_total (hi_counts health)))),
             (''circuit_breaker.execs.succeeded'', LV_Num (unat (ei_succeeded (hi_counts health)))),
             (''circuit_breaker.execs.failed'', LV_Num (unat (ei_failed (hi_counts health)))),
             (''circuit_breaker.execs.abandoned'', LV_Num (unat (ei_abandoned (hi_counts health))))]
      | XC_Closed stats \<Rightarrow>
          engine_metric e ''circuit_closed'' CS_Closed [] @
          engine_log e ''seatbelt.circuit_breaker.closed'' Level_Info CS_Closed
            [(''circuit_breaker.open.duration'', LV_Num (stats_opened_duration stats now div 1000000000))]
            [(''circuit_breaker.probes.total'', LV_Num (unat (execution_info_total (st_probes stats)))),
             (''circuit_breaker.probes.succeeded'', LV_Num (unat (ei_succeeded (st_probes stats)))),
             (''circuit_breaker.probes.failed'', LV_Num (unat (ei_failed (st_probes stats)))),
             (''circuit_breaker.probes.abandoned'', LV_Num (unat (ei_abandoned (st_probes stats)))),
             (''circuit_breaker.probes.lost'', LV_Num (unat (st_probes_lost stats))),
             (''circuit_breaker.execs.lost'', LV_Num (unat (st_executions_lost stats))),
             (''circuit_breaker.rejections'', LV_Num (unat (st_rejected stats))),
             (''circuit_breaker.re_opened'', LV_Num (unat (st_re_opened stats)))]
      | XC_Reopened \<Rightarrow> []
      | XC_Unchanged \<Rightarrow> [])"

text \<open>
  \<open>report_state_change\<close> reads the clock again for the open duration: \<open>now'\<close> is that second reading.
\<close>

definition engine_exit ::
  "engine \<Rightarrow> execution_result \<Rightarrow> execution_mode \<Rightarrow> instant \<Rightarrow> instant \<Rightarrow>
   engine \<times> exit_circuit_result \<times> telemetry_event list" where
  "engine_exit e result mode now now' =
     (let probe_events =
            (if mode = EM_Probe
             then engine_metric e ''circuit_probe'' CS_HalfOpen
                    [(''resilience.circuit_breaker.probe.result'', execution_result_as_str result)] @
                  engine_log e ''seatbelt.circuit_breaker.probe'' Level_Info CS_HalfOpen []
                    [(''circuit_breaker.probe.result'', LV_Str (execution_result_as_str result))]
             else []);
          (inner, exit_result) = engine_core_exit (en_inner e) result mode now
      in (e\<lparr>en_inner := inner\<rparr>, exit_result, probe_events @ report_state_change e exit_result now'))"

section \<open>The registry of engines\<close>

text \<open>
  An \<open>Arc<Engine>\<close> is a reference into the registry, so that callers holding it share the engine.
  \<open>get_engine\<close> takes a read lock, releases it and then takes the write lock: the two critical
  sections are \<open>engines_read\<close> and \<open>engines_write\<close>.
\<close>

datatype engine_ref = Ref_Default | Ref_Keyed breaker_id

record engines =
  es_default_engine :: engine
  es_map :: "breaker_id \<Rightarrow> engine option"
  es_engine_options :: engine_options
  es_telemetry :: telemetry_helper

definition create_engine :: "engine_options \<Rightarrow> telemetry_helper \<Rightarrow> breaker_id \<Rightarrow> engine" where
  "create_engine engine_options telemetry key =
     \<lparr>en_inner = engine_core_new engine_options, en_telemetry = telemetry,
      en_breaker_id = breaker_id_to_string key\<rparr>"

definition engines_new :: "engine_options \<Rightarrow> telemetry_helper \<Rightarrow> engines" where
  "engines_new engine_options telemetry =
     \<lparr>es_default_engine = create_engine engine_options telemetry breaker_id_default,
      es_map = Map.empty, es_engine_options = engine_options, es_telemetry = telemetry\<rparr>"

definition engines_read :: "engines \<Rightarrow> breaker_id \<Rightarrow> engine_ref option" where
  "engines_read es key =
     (if breaker_id_is_default key then Some Ref_Default
      else case es_map es key of Some engine \<Rightarrow> Some (Ref_Keyed key) | None \<Rightarrow> None)"

definition engines_write :: "engines \<Rightarrow> breaker_id \<Rightarrow> engines \<times> engine_ref" where
  "engines_write es key =
     (case es_map es key of
        Some engine \<Rightarrow> (es, Ref_Keyed key)
      | None \<Rightarrow>
          (es\<lparr>es_map := (es_map es)(key \<mapsto> create_engine (es_engine_options es) (es_telemetry es) key)\<rparr>,
           Ref_Keyed key))"

definition get_engine :: "engines \<Rightarrow> breaker_id \<Rightarrow> engines \<times> engine_ref" where
  "get_engine es key =
     (case engines_read es key of Some r \<Rightarrow> (es, r) | None \<Rightarrow> engines_write es key)"

fun engine_at :: "engines \<Rightarrow> engine_ref \<Rightarrow> engine option" where
  "engine_at es Ref_Default = Some (es_default_engine es)"
| "engine_at es (Ref_Keyed key) = es_map es key"

fun engine_put :: "engines \<Rightarrow> engine_ref \<Rightarrow> engine \<Rightarrow> engines" where
  "engine_put es Ref_Default e = es\<lparr>es_default_engine := e\<rparr>"
| "engine_put es (Ref_Keyed key) e = es\<lparr>es_map := (es_map es)(key \<mapsto> e)\<rparr>"

section \<open>The contract of a circuit engine\<close>

text \<open>The abstract machine: which of the three states may follow which.\<close>

inductive abstract_step :: "circuit_state \<Rightarrow> circuit_state \<Rightarrow> bool" where
  stay: "abstract_step s s"
| trip: "abstract_step CS_Closed CS_Open"
| probe: "abstract_step CS_Open CS_HalfOpen"
| recover: "abstract_step CS_HalfOpen CS_Closed"
| reopen: "abstract_step CS_HalfOpen CS_Open"

inductive_simps abstract_step_simps [simp]:
  "abstract_step CS_Closed s" "abstract_step CS_Open s" "abstract_step CS_HalfOpen s"

fun circuit_kind :: "state \<Rightarrow> circuit_state" where
  "circuit_kind (Closed health) = CS_Closed"
| "circuit_kind (Open open_until stats) = CS_Open"
| "circuit_kind (HalfOpen probes stats) = CS_HalfOpen"

text \<open>What callers do to an engine, in the order the mutex serialises it.\<close>

datatype circuit_event = Ev_Enter f64 instant | Ev_Exit execution_result execution_mode instant

fun engine_run ::
  "('e \<Rightarrow> f64 \<Rightarrow> instant \<Rightarrow> ('e \<times> enter_circuit_result) panicking) \<Rightarrow>
   ('e \<Rightarrow> execution_result \<Rightarrow> execution_mode \<Rightarrow> instant \<Rightarrow> 'e \<times> exit_circuit_result) \<Rightarrow>
   'e \<Rightarrow> circuit_event list \<Rightarrow> 'e panicking" where
  "engine_run enter exit e [] = Inr e"
| "engine_run enter exit e (Ev_Enter rnd now # evs) =
     panic_bind (enter e rnd now) (\<lambda>(e', res). engine_run enter exit e' evs)"
| "engine_run enter exit e (Ev_Exit result mode now # evs) =
     engine_run enter exit (fst (exit e result mode now)) evs"

fun conclusive_probe :: "circuit_event \<Rightarrow> bool" where
  "conclusive_probe (Ev_Enter rnd now) = False"
| "conclusive_probe (Ev_Exit result mode now) = (mode = EM_Probe \<and> result \<noteq> ER_Abandoned)"

locale circuit_engine =
  fixes enter :: "'e \<Rightarrow> f64 \<Rightarrow> instant \<Rightarrow> ('e \<times> enter_circuit_result) panicking"
    and exit :: "'e \<Rightarrow> execution_result \<Rightarrow> execution_mode \<Rightarrow> instant \<Rightarrow> 'e \<times> exit_circuit_result"
    and kind :: "'e \<Rightarrow> circuit_state"
  assumes enter_closed: "kind e = CS_Closed \<Longrightarrow> enter e rnd now = Inr (e, EC_Accepted EM_Normal)"
    and enter_tripped: "kind e \<noteq> CS_Closed \<Longrightarrow> enter e rnd now = Inr (e', res) \<Longrightarrow>
      res \<noteq> EC_Accepted EM_Normal \<and> kind e' \<noteq> CS_Closed \<and> abstract_step (kind e) (kind e') \<and>
      (res = EC_Accepted EM_Probe \<longrightarrow> kind e' = CS_HalfOpen)"
    and exit_unchanged: "exit e r m now = (e', XC_Unchanged) \<Longrightarrow> kind e' = kind e"
    and exit_opened: "exit e r m now = (e', XC_Opened h) \<Longrightarrow>
      kind e = CS_Closed \<and> kind e' = CS_Open \<and> m = EM_Normal"
    and exit_reopened: "exit e r m now = (e', XC_Reopened) \<Longrightarrow>
      kind e = CS_HalfOpen \<and> kind e' = CS_Open \<and> m = EM_Probe"
    and exit_closed: "exit e r m now = (e', XC_Closed st) \<Longrightarrow>
      kind e = CS_HalfOpen \<and> kind e' = CS_Closed \<and> m = EM_Probe \<and> r \<noteq> ER_Abandoned"
begin

lemma enter_abstract:
  assumes "enter e rnd now = Inr (e', res)"
  shows "abstract_step (kind e) (kind e')"
proof (cases "kind e = CS_Closed")
  case True
  with enter_closed [OF True, of rnd now] assms have "e' = e" by simp
  then show ?thesis by (simp add: abstract_step.stay)
next
  case False
  from enter_tripped [OF False assms] show ?thesis by blast
qed

lemma exit_abstract:
  assumes "exit e r m now = (e', x)"
  shows "abstract_step (kind e) (kind e')"
proof (cases x)
  case XC_Unchanged
  with assms have "kind e' = kind e" by (metis exit_unchanged)
  then show ?thesis by (simp add: abstract_step.stay)
next
  case (XC_Opened h)
  with assms exit_opened [of e r m now e' h] show ?thesis by simp
next
  case XC_Reopened
  with assms exit_reopened [of e r m now e'] show ?thesis by simp
next
  case (XC_Closed st)
  with assms exit_closed [of e r m now e' st] show ?thesis by simp
qed

lemma exit_keeps_tripped:
  assumes "kind e \<noteq> CS_Closed" "\<not> conclusive_probe (Ev_Exit r m now)"
  shows "kind (fst (exit e r m now)) \<noteq> CS_Closed"
proof -
  obtain e' x where x: "exit e r m now = (e', x)" by force
  have "kind e' \<noteq> CS_Closed"
  proof (cases x)
    case XC_Unchanged
    with x have "kind e' = kind e" by (metis exit_unchanged)
    with assms(1) show ?thesis by simp
  next
    case (XC_Opened h)
    with x exit_opened [of e r m now e' h] show ?thesis by simp
  next
    case XC_Reopened
    with x exit_reopened [of e r m now e'] show ?thesis by simp
  next
    case (XC_Closed st)
    with x exit_closed [of e r m now e' st] assms(2) show ?thesis by simp
  qed
  with x show ?thesis by simp
qed

lemma run_keeps_tripped:
  assumes "kind e \<noteq> CS_Closed" "engine_run enter exit e evs = Inr e'" "\<forall>ev \<in> set evs. \<not> conclusive_probe ev"
  shows "kind e' \<noteq> CS_Closed"
  using assms
proof (induction evs arbitrary: e)
  case Nil
  then show ?case by simp
next
  case (Cons ev evs)
  show ?case
  proof (cases ev)
    case (Ev_Enter rnd now)
    with Cons.prems(2) obtain e1 res where e1: "enter e rnd now = Inr (e1, res)"
      "engine_run enter exit e1 evs = Inr e'"
      by (auto simp: panic_bind_eq_Inr)
    have "kind e1 \<noteq> CS_Closed" using enter_tripped [OF Cons.prems(1) e1(1)] by blast
    from Cons.IH [OF this e1(2)] Cons.prems(3) show ?thesis by simp
  next
    case (Ev_Exit r m now)
    have "kind (fst (exit e r m now)) \<noteq> CS_Closed"
      using exit_keeps_tripped [OF Cons.prems(1)] Cons.prems(3) Ev_Exit by simp
    from Cons.IH [OF this] Cons.prems(2,3) show ?thesis by (simp add: Ev_Exit)
  qed
qed

end

lemma state_enter_cases:
  assumes "state_enter st rnd now settings = Inr (st', res)"
  shows "circuit_kind st = CS_Closed \<and> st' = st \<and> res = EC_Accepted EM_Normal \<or>
    circuit_kind st = CS_Open \<and> circuit_kind st' = CS_Open \<and> res = EC_Rejected \<or>
    circuit_kind st \<noteq> CS_Closed \<and> circuit_kind st' = CS_HalfOpen \<and> res \<noteq> EC_Accepted EM_Normal"
proof -
  have "enter_circuit_result_from a \<noteq> EC_Accepted EM_Normal" for a by (cases a) simp_all
  with assms show ?thesis
    by (cases st) (auto simp: state_enter_def Let_def panic_bind_eq_Inr case_prod_beta split: if_splits)
qed

lemma state_exit_cases:
  assumes "state_exit st r m now settings = (st', x)"
  shows "x = XC_Unchanged \<and> circuit_kind st' = circuit_kind st \<or>
    (\<exists>h. x = XC_Opened h \<and> circuit_kind st = CS_Closed \<and> circuit_kind st' = CS_Open \<and> m = EM_Normal \<and>
       hi_status h = Unhealthy) \<or>
    x = XC_Reopened \<and> circuit_kind st = CS_HalfOpen \<and> circuit_kind st' = CS_Open \<and> m = EM_Probe \<or>
    (\<exists>s. x = XC_Closed s \<and> circuit_kind st = CS_HalfOpen \<and> circuit_kind st' = CS_Closed \<and> m = EM_Probe \<and>
       r \<noteq> ER_Abandoned)"
proof (cases st)
  case (Closed health)
  with assms show ?thesis
    by (cases m) (auto simp: state_exit_def Let_def split: health_status.splits)
next
  case (Open open_until stats)
  with assms show ?thesis by (auto simp: state_exit_def)
next
  case (HalfOpen probes stats)
  obtain probes' out where rec: "probes_record probes r now = (probes', out)" by force
  with probes_record_cases [OF rec] assms HalfOpen show ?thesis
    by (cases m; cases out) (auto simp: state_exit_def Let_def)
qed

abbreviation core_kind :: "engine_core \<Rightarrow> circuit_state" where
  "core_kind e \<equiv> circuit_kind (ec_state e)"

interpretation core_engine: circuit_engine engine_core_enter engine_core_exit core_kind
proof unfold_locales
  fix e rnd now assume "core_kind e = CS_Closed"
  then show "engine_core_enter e rnd now = Inr (e, EC_Accepted EM_Normal)"
    by (cases "ec_state e") (simp_all add: engine_core_enter_def state_enter_def)
next
  fix e rnd now e' res
  assume "core_kind e \<noteq> CS_Closed" "engine_core_enter e rnd now = Inr (e', res)"
  then show "res \<noteq> EC_Accepted EM_Normal \<and> core_kind e' \<noteq> CS_Closed \<and> abstract_step (core_kind e) (core_kind e') \<and>
      (res = EC_Accepted EM_Probe \<longrightarrow> core_kind e' = CS_HalfOpen)"
    by (cases "core_kind e") (auto simp: engine_core_enter_def panic_bind_eq_Inr dest!: state_enter_cases)
qed (auto simp: engine_core_exit_def split: prod.splits dest!: state_exit_cases)

text \<open>The telemetry decorator keeps the contract: it forwards to the core and only adds events.\<close>

definition engine_enter_result :: "engine \<Rightarrow> f64 \<Rightarrow> instant \<Rightarrow> (engine \<times> enter_circuit_result) panicking" where
  "engine_enter_result e rnd now = panic_bind (engine_enter e rnd now) (\<lambda>(e', res, evs). Inr (e', res))"

definition engine_exit_result ::
  "engine \<Rightarrow> execution_result \<Rightarrow> execution_mode \<Rightarrow> instant \<Rightarrow> engine \<times> exit_circuit_result" where
  "engine_exit_result e result mode now = (let (e', res, evs) = engine_exit e result mode now now in (e', res))"

lemma engine_enter_result_core:
  "engine_enter_result e rnd now = Inr (e', res) \<Longrightarrow>
     engine_core_enter (en_inner e) rnd now = Inr (en_inner e', res)"
  by (auto simp: engine_enter_result_def engine_enter_def panic_bind_eq_Inr)

lemma engine_exit_result_core:
  "engine_exit_result e result mode now = (e', res) \<Longrightarrow>
     engine_core_exit (en_inner e) result mode now = (en_inner e', res)"
  by (auto simp: engine_exit_result_def engine_exit_def Let_def split: prod.splits)

interpretation telemetry_engine: circuit_engine engine_enter_result engine_exit_result
  "\<lambda>e. core_kind (en_inner e)"
proof unfold_locales
  fix e :: engine and rnd now assume "core_kind (en_inner e) = CS_Closed"
  then show "engine_enter_result e rnd now = Inr (e, EC_Accepted EM_Normal)"
    by (simp add: engine_enter_result_def engine_enter_def core_engine.enter_closed)
next
  fix e :: engine and rnd now e' res
  assume "core_kind (en_inner e) \<noteq> CS_Closed" "engine_enter_result e rnd now = Inr (e', res)"
  then show "res \<noteq> EC_Accepted EM_Normal \<and> core_kind (en_inner e') \<noteq> CS_Closed \<and>
      abstract_step (core_kind (en_inner e)) (core_kind (en_inner e')) \<and>
      (res = EC_Accepted EM_Probe \<longrightarrow> core_kind (en_inner e') = CS_HalfOpen)"
    using core_engine.enter_tripped engine_enter_result_core by metis
next
  fix e r m now e' assume "engine_exit_result e r m now = (e', XC_Unchanged)"
  then show "core_kind (en_inner e') = core_kind (en_inner e)"
    by (rule core_engine.exit_unchanged [OF engine_exit_result_core])
next
  fix e r m now e' h assume "engine_exit_result e r m now = (e', XC_Opened h)"
  then show "core_kind (en_inner e) = CS_Closed \<and> core_kind (en_inner e') = CS_Open \<and> m = EM_Normal"
    by (rule core_engine.exit_opened [OF engine_exit_result_core])
next
  fix e r m now e' assume "engine_exit_result e r m now = (e', XC_Reopened)"
  then show "core_kind (en_inner e) = CS_HalfOpen \<and> core_kind (en_inner e') = CS_Open \<and> m = EM_Probe"
    by (rule core_engine.exit_reopened [OF engine_exit_result_core])
next
  fix e r m now e' st assume "engine_exit_result e r m now = (e', XC_Closed st)"
  then show "core_kind (en_inner e) = CS_HalfOpen \<and> core_kind (en_inner e') = CS_Closed \<and>
      m = EM_Probe \<and> r \<noteq> ER_Abandoned"
    by (rule core_engine.exit_closed [OF engine_exit_result_core])
qed

section \<open>A tripped phase and its statistics\<close>

text \<open>
  The events between the trip and the recovery of a circuit. The run counts the rejections the
  callers saw; it is \<open>None\<close> if the circuit closes (or panics) on the way.
\<close>

fun tripped_run :: "engine_options \<Rightarrow> state \<Rightarrow> circuit_event list \<Rightarrow> (state \<times> nat) option" where
  "tripped_run settings st [] = Some (st, 0)"
| "tripped_run settings st (Ev_Enter rnd now # evs) =
     (case state_enter st rnd now settings of
        Inl msg \<Rightarrow> None
      | Inr (st', res) \<Rightarrow>
          map_option (\<lambda>(st'', n). (st'', n + (if res = EC_Rejected then 1 else 0)))
            (tripped_run settings st' evs))"
| "tripped_run settings st (Ev_Exit result mode now # evs) =
     (case state_exit st result mode now settings of
        (st', XC_Closed s) \<Rightarrow> None
      | (st', _) \<Rightarrow> tripped_run settings st' evs)"

fun is_enter :: "circuit_event \<Rightarrow> bool" where
  "is_enter (Ev_Enter rnd now) = True"
| "is_enter (Ev_Exit r m now) = False"

fun is_exit :: "execution_mode \<Rightarrow> circuit_event \<Rightarrow> bool" where
  "is_exit mode (Ev_Enter rnd now) = False"
| "is_exit mode (Ev_Exit r m now) = (m = mode)"

fun event_time :: "circuit_event \<Rightarrow> instant" where
  "event_time (Ev_Enter rnd now) = now"
| "event_time (Ev_Exit r m now) = now"

lemma open_run_rejects:
  assumes "\<forall>ev \<in> set evs. event_time ev < u"
  shows "\<exists>s'. tripped_run settings (Open u s) evs = Some (Open u s', length (filter is_enter evs))"
  using assms
proof (induction evs arbitrary: s)
  case Nil
  then show ?case by simp
next
  case (Cons ev evs)
  show ?case
  proof (cases ev)
    case (Ev_Enter rnd now)
    define s1 where "s1 = s\<lparr>st_rejected := saturating_add (st_rejected s) 1\<rparr>"
    have "state_enter (Open u s) rnd now settings = Inr (Open u s1, EC_Rejected)"
      using Cons.prems by (simp add: Ev_Enter state_enter_def s1_def)
    moreover obtain s' where "tripped_run settings (Open u s1) evs = Some (Open u s', length (filter is_enter evs))"
      using Cons.IH [of s1] Cons.prems by auto
    ultimately show ?thesis by (auto simp: Ev_Enter)
  next
    case (Ev_Exit r m now)
    obtain s1 where "state_exit (Open u s) r m now settings = (Open u s1, XC_Unchanged)"
      by (cases m) (auto simp: state_exit_def)
    then show ?thesis using Cons.IH [of s1] Cons.prems by (auto simp: Ev_Exit)
  qed
qed

fun state_stats :: "state \<Rightarrow> stats option" where
  "state_stats (Closed health) = None"
| "state_stats (Open u s) = Some s"
| "state_stats (HalfOpen ps s) = Some s"

definition probe_results :: "stats \<Rightarrow> nat" where
  "probe_results s = unat (st_probes_lost s) + unat (ei_succeeded (st_probes s)) +
     unat (ei_failed (st_probes s)) + unat (ei_abandoned (st_probes s))"

text \<open>One step adds exactly what the caller observed, as long as no counter is at its maximum.\<close>

definition stats_room :: "nat \<Rightarrow> stats \<Rightarrow> bool" where
  "stats_room n s \<longleftrightarrow> unat (st_rejected s) + n < 2 ^ 32 \<and> unat (st_executions_lost s) + n < 2 ^ 32 \<and>
     probe_results s + n < 2 ^ 32"

lemma state_enter_stats:
  assumes "state_enter st rnd now settings = Inr (st', res)" "state_stats st = Some s"
  shows "state_stats st' =
    Some (if res = EC_Rejected then s\<lparr>st_rejected := saturating_add (st_rejected s) 1\<rparr> else s)"
proof -
  have allow: "stats_record_allow_result s a =
      (if enter_circuit_result_from a = EC_Rejected
       then s\<lparr>st_rejected := saturating_add (st_rejected s) 1\<rparr> else s)" for a
    by (cases a) (simp_all add: stats_record_allow_result_def)
  show ?thesis
  proof (cases st)
    case (Open u s0)
    with assms show ?thesis
      by (cases "u \<le> now") (auto simp: state_enter_def panic_bind_eq_Inr case_prod_beta allow)
  next
    case (HalfOpen ps s0)
    with assms show ?thesis by (auto simp: state_enter_def case_prod_beta allow)
  qed (use assms in simp)
qed

lemma stats_room_rejected:
  assumes "stats_room (Suc n) s"
  shows "unat (saturating_add (st_rejected s) 1) = unat (st_rejected s) + 1"
    and "stats_room n (s\<lparr>st_rejected := saturating_add (st_rejected s) 1\<rparr>)" and "stats_room n s"
proof -
  show r: "unat (saturating_add (st_rejected s) 1) = unat (st_rejected s) + 1"
    using assms by (simp add: stats_room_def word_arith_simps)
  show "stats_room n (s\<lparr>st_rejected := saturating_add (st_rejected s) 1\<rparr>)" "stats_room n s"
    using assms by (simp_all add: stats_room_def probe_results_def r)
qed

lemma probe_results_record:
  assumes "probe_results s < 2 ^ 32 - 1"
  shows "probe_results (stats_record_probe_execution_result s r) = probe_results s + 1"
proof -
  have "unat (ei_get (execution_info_record (st_probes s) r) r') =
      unat (ei_get (st_probes s) r') + (if r = r' then 1 else 0)" for r'
  proof -
    have "unat (ei_get (st_probes s) r) + 1 \<le> 2 ^ 32 - 1"
      using assms by (cases r) (simp_all add: probe_results_def)
    then show ?thesis by (auto simp: ei_get_record min_absorb1 simp del: power_numeral)
  qed
  from this [of ER_Success] this [of ER_Failure] this [of ER_Abandoned] show ?thesis
    by (cases r) (simp_all add: probe_results_def stats_record_probe_execution_result_def)
qed

text \<open>What one \<open>exit\<close> does to the statistics of a tripped circuit.\<close>

fun exit_stats :: "stats \<Rightarrow> state \<Rightarrow> execution_result \<Rightarrow> execution_mode \<Rightarrow> stats" where
  "exit_stats s (Open u s0) r EM_Probe = s\<lparr>st_probes_lost := saturating_add (st_probes_lost s) 1\<rparr>"
| "exit_stats s st r EM_Normal = s\<lparr>st_executions_lost := saturating_add (st_executions_lost s) 1\<rparr>"
| "exit_stats s st r EM_Probe = stats_record_probe_execution_result s r"

lemma exit_stats_counts:
  assumes "stats_room (Suc n) s"
  shows "stats_room n (exit_stats s st r m)"
    and "st_rejected (exit_stats s st r m) = st_rejected s"
    and "unat (st_executions_lost (exit_stats s st r m)) =
      unat (st_executions_lost s) + (if m = EM_Normal then 1 else 0)"
    and "probe_results (exit_stats s st r m) = probe_results s + (if m = EM_Probe then 1 else 0)"
    and "st_opened_at (exit_stats s st r m) = st_opened_at s"
proof -
  have lost: "unat (saturating_add (st_executions_lost s) 1) = unat (st_executions_lost s) + 1"
    "unat (saturating_add (st_probes_lost s) 1) = unat (st_probes_lost s) + 1"
    using assms by (simp_all add: stats_room_def probe_results_def word_arith_simps)
  have rec: "probe_results (stats_record_probe_execution_result s r) = probe_results s + 1"
    using assms by (intro probe_results_record) (simp add: stats_room_def)
  show ro: "st_rejected (exit_stats s st r m) = st_rejected s" "st_opened_at (exit_stats s st r m) = st_opened_at s"
    by (cases "(s, st, r, m)" rule: exit_stats.cases; simp add: stats_record_probe_execution_result_def)+
  show el: "unat (st_executions_lost (exit_stats s st r m)) =
      unat (st_executions_lost s) + (if m = EM_Normal then 1 else 0)"
    by (cases "(s, st, r, m)" rule: exit_stats.cases)
       (simp_all add: lost stats_record_probe_execution_result_def)
  show pr: "probe_results (exit_stats s st r m) = probe_results s + (if m = EM_Probe then 1 else 0)"
    by (cases "(s, st, r, m)" rule: exit_stats.cases) (simp_all add: rec, simp_all add: probe_results_def lost)
  show "stats_room n (exit_stats s st r m)"
    using assms unfolding stats_room_def ro el pr by simp
qed

lemma state_exit_stats:
  assumes "state_exit st r m now settings = (st', x)" "state_stats st = Some s"
  shows "(x = XC_Unchanged \<and> state_stats st' = Some (exit_stats s st r m)) \<or>
    (x = XC_Reopened \<and> m = EM_Probe \<and> state_stats st' = Some ((exit_stats s st r m)
       \<lparr>st_re_opened := saturating_add (st_re_opened (exit_stats s st r m)) 1\<rparr>)) \<or>
    (x = XC_Closed (exit_stats s st r m) \<and> m = EM_Probe)"
proof (cases st)
  case (Open u s0)
  with assms show ?thesis by (cases m) (auto simp: state_exit_def)
next
  case (HalfOpen ps s0)
  obtain ps' out where "probes_record ps r now = (ps', out)" by force
  with assms HalfOpen show ?thesis by (cases m; cases out) (auto simp: state_exit_def Let_def)
qed (use assms in simp)

lemma stats_re_opened_irrelevant [simp]:
  "stats_room n (s\<lparr>st_re_opened := k\<rparr>) = stats_room n s" "probe_results (s\<lparr>st_re_opened := k\<rparr>) = probe_results s"
  by (simp_all add: stats_room_def probe_results_def)

lemma tripped_run_stats:
  assumes "tripped_run settings st evs = Some (st', rej)" "state_stats st = Some s"
    "stats_room (length evs + n) s"
  shows "\<exists>s'. state_stats st' = Some s' \<and> stats_room n s' \<and>
    unat (st_rejected s') = unat (st_rejected s) + rej \<and>
    unat (st_executions_lost s') = unat (st_executions_lost s) + length (filter (is_exit EM_Normal) evs) \<and>
    probe_results s' = probe_results s + length (filter (is_exit EM_Probe) evs) \<and>
    st_opened_at s' = st_opened_at s"
  using assms
proof (induction evs arbitrary: st s rej)
  case Nil
  then show ?case by auto
next
  case (Cons ev evs)
  have room: "stats_room (Suc (length evs + n)) s" using Cons.prems(3) by simp
  show ?case
  proof (cases ev)
    case (Ev_Enter rnd now)
    with Cons.prems(1) obtain st1 res rej1 where st1: "state_enter st rnd now settings = Inr (st1, res)"
      "tripped_run settings st1 evs = Some (st', rej1)" "rej = rej1 + (if res = EC_Rejected then 1 else 0)"
      by (auto split: sum.splits)
    from state_enter_stats [OF st1(1) Cons.prems(2)] stats_room_rejected [OF room] obtain s1 where
      s1: "state_stats st1 = Some s1" "stats_room (length evs + n) s1"
        "unat (st_rejected s1) = unat (st_rejected s) + (if res = EC_Rejected then 1 else 0)"
        "unat (st_executions_lost s1) = unat (st_executions_lost s)" "probe_results s1 = probe_results s"
        "st_opened_at s1 = st_opened_at s" by (cases "res = EC_Rejected") (simp_all add: probe_results_def)
    from Cons.IH [OF st1(2) s1(1,2)] show ?thesis
      using s1(3-) st1(3) by (cases "res = EC_Rejected") (simp_all add: Ev_Enter)
  next
    case (Ev_Exit r m now)
    obtain st1 x where st1: "state_exit st r m now settings = (st1, x)" by force
    with Cons.prems(1) have "\<forall>s. x \<noteq> XC_Closed s" "tripped_run settings st1 evs = Some (st', rej)"
      by (auto simp: Ev_Exit split: exit_circuit_result.splits)
    then obtain s1 where
      s1: "state_stats st1 = Some s1" "stats_room (length evs + n) s1"
        "unat (st_rejected s1) = unat (st_rejected s)"
        "unat (st_executions_lost s1) = unat (st_executions_lost s) + (if m = EM_Normal then 1 else 0)"
        "probe_results s1 = probe_results s + (if m = EM_Probe then 1 else 0)"
        "st_opened_at s1 = st_opened_at s"
      and run: "tripped_run settings st1 evs = Some (st', rej)"
      using state_exit_stats [OF st1 Cons.prems(2)] exit_stats_counts [OF room, of st r m] by (elim disjE) auto
    from Cons.IH [OF run s1(1,2)] show ?thesis using s1(3-) by (cases m) (simp_all add: Ev_Exit)
  qed
qed

section \<open>The registry as an interface\<close>

locale engine_registry =
  fixes get :: "'r \<Rightarrow> 'k \<Rightarrow> 'r \<times> 'ref"
    and fetch :: "'r \<Rightarrow> 'ref \<Rightarrow> 'e option"
    and put :: "'r \<Rightarrow> 'ref \<Rightarrow> 'e \<Rightarrow> 'r"
    and ref_of :: "'k \<Rightarrow> 'ref"
  assumes get_ref: "snd (get r k) = ref_of k"
    and get_present: "fetch (fst (get r k)) (ref_of k) \<noteq> None"
    and get_keeps: "fetch r ref = Some e \<Longrightarrow> fetch (fst (get r k)) ref = Some e"
    and put_at: "fetch (put r ref e) ref = Some e"
    and put_other: "ref' \<noteq> ref \<Longrightarrow> fetch (put r ref e) ref' = fetch r ref'"
begin

text \<open>Operations on other keys leave an engine alone.\<close>

lemma fold_get_put_isolated:
  assumes "fetch r (ref_of k) = Some e" "\<forall>(k', f) \<in> set ops. ref_of k' \<noteq> ref_of k"
  shows "fetch (fold (\<lambda>(k', f) r. put (fst (get r k')) (ref_of k') (f (the (fetch (fst (get r k')) (ref_of k'))))) ops r)
    (ref_of k) = Some e"
  using assms
proof (induction ops arbitrary: r)
  case Nil
  then show ?case by simp
next
  case (Cons op ops)
  obtain k' f where op: "op = (k', f)" by force
  have "fetch (put (fst (get r k')) (ref_of k') (f (the (fetch (fst (get r k')) (ref_of k'))))) (ref_of k) = Some e"
    using Cons.prems by (subst put_other) (auto simp: op get_keeps)
  from Cons.IH [OF this] Cons.prems(2) show ?case by (simp add: op)
qed

end

definition engine_ref_of :: "breaker_id \<Rightarrow> engine_ref" where
  "engine_ref_of key = (if breaker_id_is_default key then Ref_Default else Ref_Keyed key)"

interpretation registry: engine_registry get_engine engine_at engine_put engine_ref_of
proof unfold_locales
  fix r k
  show "snd (get_engine r k) = engine_ref_of k"
    by (simp add: get_engine_def engines_read_def engines_write_def engine_ref_of_def split: option.splits)
  show "engine_at (fst (get_engine r k)) (engine_ref_of k) \<noteq> None"
    by (auto simp: get_engine_def engines_read_def engines_write_def engine_ref_of_def split: option.splits)
next
  fix r ref e k assume "engine_at r ref = Some e"
  then show "engine_at (fst (get_engine r k)) ref = Some e"
    by (cases ref) (auto simp: get_engine_def engines_read_def engines_write_def split: option.splits)
next
  fix r ref e
  show "engine_at (engine_put r ref e) ref = Some e" by (cases ref) simp_all
next
  fix ref' ref r e assume "(ref' :: engine_ref) \<noteq> ref"
  then show "engine_at (engine_put r ref e) ref' = engine_at r ref'"
    by (cases ref; cases ref') simp_all
qed

section \<open>When a closed circuit trips\<close>

fun normal_results :: "circuit_event list \<Rightarrow> (execution_result \<times> instant) list" where
  "normal_results [] = []"
| "normal_results (Ev_Exit r EM_Normal now # evs) = (r, now) # normal_results evs"
| "normal_results (ev # evs) = normal_results evs"

definition log_execution_info :: "health_log \<Rightarrow> execution_info" where
  "log_execution_info hist = \<lparr>ei_succeeded = of_nat (log_count hist ER_Success),
     ei_failed = of_nat (log_count hist ER_Failure), ei_abandoned = of_nat (log_count hist ER_Abandoned)\<rparr>"

text \<open>The verdict of the specification: the evaluator applied to the counts of the abstract log.\<close>

definition log_verdict :: "health_metrics_builder \<Rightarrow> (execution_result \<times> instant) list \<Rightarrow> health_status" where
  "log_verdict b rs = hi_status (health_evaluate
     \<lparr>he_failure_threshold = hb_failure_threshold b, he_min_throughput = hb_min_throughput b,
      he_abandoned_policy = hb_abandoned_policy b\<rparr>
     (log_execution_info (log_run (hb_sampling_duration b) (hb_sampling_duration b div WINDOW_COUNT) [] rs)))"

lemma counts_log_execution_info: "counts_log c hist \<Longrightarrow> c = log_execution_info hist"
proof -
  assume c: "counts_log c hist"
  have "ei_get c r = of_nat (log_count hist r)" for r
    using c unfolding counts_log_def by (metis of_nat_unat ucast_id)
  from this [of ER_Success] this [of ER_Failure] this [of ER_Abandoned] show ?thesis
    by (simp add: log_execution_info_def)
qed

lemma health_metrics_verdict:
  assumes "MIN_SAMPLING_DURATION \<le> hb_sampling_duration b" "length rs < 2 ^ 32"
  shows "hi_status (health_metrics_info (health_metrics_run (health_metrics_build b) rs)) = log_verdict b rs"
proof -
  have "health_inv (health_metrics_run (health_metrics_build b) rs)
      (log_run (hb_sampling_duration b) (hb_sampling_duration b div WINDOW_COUNT) [] rs)"
    using health_inv_run [OF health_inv_build [OF assms(1)], of rs] assms(2) by simp
  then have "hm_counts (health_metrics_run (health_metrics_build b) rs) =
      log_execution_info (log_run (hb_sampling_duration b) (hb_sampling_duration b div WINDOW_COUNT) [] rs)"
    by (simp add: health_inv_def counts_log_execution_info)
  then show ?thesis
    by (simp add: health_metrics_info_def log_verdict_def health_metrics_build_def health_metrics_new_def)
qed

lemma health_metrics_run_snoc:
  "health_metrics_record (health_metrics_run hm rs) r now = health_metrics_run hm (rs @ [(r, now)])"
  by (simp add: health_metrics_run_def)

lemma closed_exit:
  assumes "MIN_SAMPLING_DURATION \<le> hb_sampling_duration b" "length rs + 1 < 2 ^ 32"
  shows "state_exit (Closed (health_metrics_run (health_metrics_build b) rs)) r EM_Normal now settings =
    (case log_verdict b (rs @ [(r, now)]) of
       Healthy \<Rightarrow> (Closed (health_metrics_run (health_metrics_build b) (rs @ [(r, now)])), XC_Unchanged)
     | Unhealthy \<Rightarrow> (Open (now + eo_break_duration settings) (stats_new now), XC_Opened (health_metrics_info
         (health_metrics_run (health_metrics_build b) (rs @ [(r, now)])))))"
  using health_metrics_verdict [OF assms(1), of "rs @ [(r, now)]"] assms(2)
  by (simp add: state_exit_def Let_def health_metrics_run_snoc)

lemma closed_run:
  assumes "MIN_SAMPLING_DURATION \<le> hb_sampling_duration (eo_health_metrics_builder (ec_options e))"
    and "ec_state e = Closed (health_metrics_run (health_metrics_build (eo_health_metrics_builder (ec_options e))) rs)"
    and "length rs + length (normal_results evs) < 2 ^ 32"
    and "\<forall>k \<le> length (normal_results evs). 0 < k \<longrightarrow>
      log_verdict (eo_health_metrics_builder (ec_options e)) (rs @ take k (normal_results evs)) = Healthy"
  shows "engine_run engine_core_enter engine_core_exit e evs = Inr (e\<lparr>ec_state :=
    Closed (health_metrics_run (health_metrics_build (eo_health_metrics_builder (ec_options e)))
      (rs @ normal_results evs))\<rparr>)"
  using assms
proof (induction evs arbitrary: e rs)
  case Nil
  then show ?case by simp
next
  case (Cons ev evs)
  let ?b = "eo_health_metrics_builder (ec_options e)"
  show ?case
  proof (cases ev)
    case (Ev_Enter rnd now)
    have "engine_core_enter e rnd now = Inr (e, EC_Accepted EM_Normal)"
      using Cons.prems(2) by (intro core_engine.enter_closed) simp
    with Cons Ev_Enter show ?thesis by simp
  next
    case (Ev_Exit r m now)
    show ?thesis
    proof (cases m)
      case EM_Probe
      have "fst (engine_core_exit e r EM_Probe now) = e"
        using Cons.prems(2) by (simp add: engine_core_exit_def state_exit_def)
      with Cons Ev_Exit EM_Probe show ?thesis by simp
    next
      case EM_Normal
      note ev = Ev_Exit [unfolded EM_Normal]
      have h: "log_verdict ?b (rs @ [(r, now)]) = Healthy"
        using Cons.prems(4) ev by (auto dest!: spec [of _ 1])
      have tl: "log_verdict ?b ((rs @ [(r, now)]) @ take k (normal_results evs)) = Healthy"
        if "k \<le> length (normal_results evs)" for k
        using Cons.prems(4) ev that by (auto dest!: spec [of _ "Suc k"])
      define e1 where "e1 = e\<lparr>ec_state := Closed (health_metrics_run (health_metrics_build ?b) (rs @ [(r, now)]))\<rparr>"
      have "fst (engine_core_exit e r EM_Normal now) = e1"
        using closed_exit [OF Cons.prems(1), of rs r now] Cons.prems(2,3) h ev
        by (simp add: engine_core_exit_def e1_def)
      moreover have "engine_run engine_core_enter engine_core_exit e1 evs = Inr (e1\<lparr>ec_state :=
        Closed (health_metrics_run (health_metrics_build ?b) ((rs @ [(r, now)]) @ normal_results evs))\<rparr>)"
        using Cons.IH [of e1 "rs @ [(r, now)]"] Cons.prems(1,3) tl ev by (simp add: e1_def)
      ultimately show ?thesis by (simp add: e1_def ev)
    qed
  qed
qed

section \<open>Absence of panics\<close>

lemma state_enter_no_panic:
  assumes "pso_probes (eo_probes settings) \<noteq> []"
  shows "\<exists>st' res. state_enter st rnd now settings = Inr (st', res)"
proof -
  obtain ps where "probes_new (eo_probes settings) = Inr ps"
    using assms by (cases "pso_probes (eo_probes settings)") (simp_all add: probes_new_def)
  then show ?thesis by (cases st) (simp_all add: state_enter_def case_prod_beta)
qed

lemma engine_core_run_no_panic:
  "pso_probes (eo_probes (ec_options e)) \<noteq> [] \<Longrightarrow>
     \<exists>e'. engine_run engine_core_enter engine_core_exit e evs = Inr e' \<and> ec_options e' = ec_options e"
proof (induction evs arbitrary: e)
  case Nil
  then show ?case by simp
next
  case (Cons ev evs)
  show ?case
  proof (cases ev)
    case (Ev_Enter rnd now)
    obtain st' res where "state_enter (ec_state e) rnd now (ec_options e) = Inr (st', res)"
      using state_enter_no_panic [OF Cons.prems] by blast
    then have "engine_run engine_core_enter engine_core_exit e (ev # evs) =
        engine_run engine_core_enter engine_core_exit (e\<lparr>ec_state := st'\<rparr>) evs"
      by (simp add: Ev_Enter engine_core_enter_def)
    then show ?thesis using Cons.IH [of "e\<lparr>ec_state := st'\<rparr>"] Cons.prems by simp
  next
    case (Ev_Exit r m now)
    have "ec_options (fst (engine_core_exit e r m now)) = ec_options e"
      by (simp add: engine_core_exit_def case_prod_beta)
    then show ?thesis using Cons.IH [of "fst (engine_core_exit e r m now)"] Cons.prems
      by (simp add: Ev_Exit)
  qed
qed

section \<open>Recovery\<close>

text \<open>
  A round of recovery: one execution is admitted as a probe and succeeds. The run is \<open>None\<close> if the
  circuit does not admit it.
\<close>

fun probe_rounds :: "engine_options \<Rightarrow> state \<Rightarrow> (instant \<times> instant) list \<Rightarrow> state option" where
  "probe_rounds settings st [] = Some st"
| "probe_rounds settings st ((t, t') # rounds) =
     (case state_enter st 0 t settings of
        Inr (st', EC_Accepted EM_Probe) \<Rightarrow>
          probe_rounds settings (fst (state_exit st' ER_Success EM_Probe t' settings)) rounds
      | _ \<Rightarrow> None)"

fun recoverable_probe :: "probe_options \<Rightarrow> bool" where
  "recoverable_probe (PO_SingleProbe cooldown pol) = True"
| "recoverable_probe (PO_HealthProbe ho) =
     (0 < hpo_probing_ratio ho \<and> 0 < hb_failure_threshold (hpo_builder ho) \<and> hb_min_throughput (hpo_builder ho) = 1)"

fun probe_stage :: "probe_options \<Rightarrow> duration" where
  "probe_stage (PO_SingleProbe cooldown pol) = cooldown"
| "probe_stage (PO_HealthProbe ho) = hpo_stage_duration ho"

lemma evaluate_threshold_no_failures: "0 < t \<Longrightarrow> evaluate_threshold 0 n thru t = Healthy"
  by (simp add: evaluate_threshold_def)

lemma one_success_healthy:
  assumes "0 < hb_failure_threshold b"
  shows "hi_status (health_metrics_info (health_metrics_record (health_metrics_build b) ER_Success now)) = Healthy"
proof -
  have c: "hm_counts (health_metrics_record (health_metrics_build b) ER_Success now) =
      \<lparr>ei_succeeded = 1, ei_failed = 0, ei_abandoned = 0\<rparr>"
    by (simp add: health_metrics_record_def current_window_def health_metrics_build_def health_metrics_new_def
        execution_info_default_def saturating_add_def)
  have "evaluate_core he \<lparr>ei_succeeded = 1, ei_failed = 0, ei_abandoned = 0\<rparr> = (0, 1)" for he
    by (simp add: evaluate_core_def execution_info_total_def saturating_add_def Let_def
        split: abandoned_mode.split health_status.split)
  with assms c show ?thesis
    by (simp add: health_metrics_info_def health_evaluate_def evaluate_threshold_no_failures
        health_metrics_build_def health_metrics_new_def)
qed

lemma fresh_probe_round:
  assumes "recoverable_probe po"
  shows "snd (probe_allow (probe_new po) 0 t) = AP_Accepted"
    and "snd (probe_record (fst (probe_allow (probe_new po) 0 t)) ER_Success (t + probe_stage po)) = PR_Success"
  using assms
  by (cases po; simp add: single_probe_new_def single_allow_probe_def single_record_def health_probe_new_def
        health_allow_probe_def health_record_def keep_sampling_def one_success_healthy Let_def)+

definition recovery_rounds :: "instant \<Rightarrow> probe_options list \<Rightarrow> (instant \<times> instant) list" where
  "recovery_rounds t pos = map (\<lambda>po. (t, t + probe_stage po)) pos"

lemma half_open_round:
  assumes "recoverable_probe po"
  shows "\<exists>ps' s'. state_enter (HalfOpen \<lparr>ps_probes = pos, ps_current = probe_new po\<rparr> s) 0 t settings =
      Inr (HalfOpen ps' s', EC_Accepted EM_Probe) \<and>
    (\<exists>s''. fst (state_exit (HalfOpen ps' s') ER_Success EM_Probe (t + probe_stage po) settings) =
      (case pos of [] \<Rightarrow> Closed (health_metrics_build (eo_health_metrics_builder settings))
       | po' # pos' \<Rightarrow> HalfOpen \<lparr>ps_probes = pos', ps_current = probe_new po'\<rparr> s''))"
  using fresh_probe_round [OF assms, of t]
  by (simp add: state_enter_def state_exit_def probes_allow_probe_def probes_record_def Let_def
      case_prod_beta split: list.split)

lemma half_open_recovers:
  "list_all recoverable_probe (po # pos) \<Longrightarrow>
     probe_rounds settings (HalfOpen \<lparr>ps_probes = pos, ps_current = probe_new po\<rparr> s) (recovery_rounds t (po # pos)) =
       Some (Closed (health_metrics_build (eo_health_metrics_builder settings)))"
proof (induction pos arbitrary: po s)
  case Nil
  then show ?case using half_open_round [of po "[]" s t settings] by (auto simp: recovery_rounds_def)
next
  case (Cons po' pos)
  then show ?case
    using half_open_round [of po "po' # pos" s t settings] by (auto simp: recovery_rounds_def)
qed

lemma open_enter_half_open:
  assumes "u \<le> t" "pso_probes (eo_probes settings) = po # pos"
  shows "state_enter (Open u s) rnd t settings =
    state_enter (HalfOpen \<lparr>ps_probes = pos, ps_current = probe_new po\<rparr> s) rnd t settings"
  using assms by (simp add: state_enter_def probes_new_def)

lemma half_open_to_options_recoverable:
  assumes "half_open_to_options mode d thr pol = Inr opts" "0 < thr"
  shows "list_all recoverable_probe (pso_probes opts)"
proof (cases "hom_inner mode")
  case HO_Quick
  with assms(1) show ?thesis
    by (auto simp: half_open_to_options_def probes_options_quick_def probes_options_new_def panic_bind_eq_Inr)
next
  case (HO_Progressive stage)
  have "recoverable_probe (PO_HealthProbe ho)" if "health_probe_options_new d' thr ratio pol = Inr ho" for d' ratio ho
    using that assms(2) by (auto simp: health_probe_options_new_def panic_bind_eq_Inr assert_or_panic_def
        health_metrics_builder_new_def MIN_THROUGHPUT_def split: if_splits)
  then have rec: "list_all recoverable_probe xs" if "panic_map (\<lambda>ratio. panic_bind
      (health_probe_options_new d' thr ratio pol) (\<lambda>o'. Inr (PO_HealthProbe o'))) ratios = Inr xs" for d' ratios xs
    using panic_map_eq_Inr_set [OF that] by (fastforce simp: list_all_iff panic_bind_eq_Inr)
  from HO_Progressive assms(1) show ?thesis
    by (auto simp: half_open_to_options_def probes_options_progressive_def probes_options_gradual_def
        probes_options_new_def panic_bind_eq_Inr dest: rec)
qed

section \<open>Properties\<close>

definition example_options :: engine_options where
  "example_options = \<lparr>eo_break_duration = 5,
     eo_health_metrics_builder = health_metrics_builder_new 0 (1 / 2) 2 abandoned_policy_default,
     eo_probes = \<lparr>pso_probes = [PO_SingleProbe 5 abandoned_policy_default]\<rparr>\<rparr>"

definition example_telemetry :: telemetry_helper where
  "example_telemetry = \<lparr>th_pipeline_name = ''p'', th_strategy_name = ''s'', th_metrics_enabled = True,
     th_logs_enabled = False\<rparr>"

lemmas engine_eval = example_options_def state_enter_def state_exit_def probes_new_def stats_new_def
  stats_record_allow_result_def stats_record_probe_execution_result_def probes_eval

text \<open>
  C1. A tripped circuit closes only on evidence: whatever calls interleave and whatever the clock
  and the random draws are, a circuit that is not closed stays so as long as no execution that was
  admitted as a probe reports a success or a failure. Results of executions admitted before the
  trip and abandoned probes never close it.
\<close>

theorem tripped_circuit_needs_conclusive_probe:
  assumes "core_kind e \<noteq> CS_Closed" and "engine_run engine_core_enter engine_core_exit e evs = Inr e'"
    and "\<forall>ev \<in> set evs. \<not> conclusive_probe ev"
  shows "core_kind e' \<noteq> CS_Closed"
  using assms by (rule core_engine.run_keeps_tripped)

theorem tripped_circuit_needs_conclusive_probe_witness:
  "\<exists>e'. engine_run engine_core_enter engine_core_exit
      \<lparr>ec_state = Open 3 (stats_new 0), ec_options = example_options\<rparr>
      [Ev_Exit ER_Success EM_Normal 1, Ev_Enter 0 4, Ev_Exit ER_Abandoned EM_Probe 5] = Inr e' \<and>
    core_kind e' = CS_HalfOpen \<and> core_kind e' \<noteq> CS_Closed"
proof -
  let ?e = "\<lparr>ec_state = Open 3 (stats_new 0), ec_options = example_options\<rparr>"
  let ?evs = "[Ev_Exit ER_Success EM_Normal 1, Ev_Enter 0 4, Ev_Exit ER_Abandoned EM_Probe 5]"
  obtain e' where e': "engine_run engine_core_enter engine_core_exit ?e ?evs = Inr e'" "core_kind e' = CS_HalfOpen"
    by (simp add: engine_core_enter_def engine_core_exit_def engine_eval counts_abandoned_as_failure_def)
  then show ?thesis using tripped_circuit_needs_conclusive_probe [of ?e ?evs e'] by simp
qed

text \<open>
  C7. An open circuit protects the dependency: as long as every caller's clock reads less than
  \<open>open_until\<close>, each \<open>enter\<close> of the run is rejected (the number of rejections is the number of
  calls) and no late result moves \<open>open_until\<close> or leaves the open state.
\<close>

theorem open_circuit_rejects_all:
  assumes "\<forall>ev \<in> set evs. event_time ev < u"
  shows "\<exists>s'. tripped_run settings (Open u s) evs = Some (Open u s', length (filter is_enter evs))"
  using assms by (rule open_run_rejects)

theorem open_circuit_rejects_all_witness:
  "\<exists>s'. tripped_run example_options (Open 9 (stats_new 0)) [Ev_Enter 0 1, Ev_Exit ER_Success EM_Probe 2, Ev_Enter 0 8] =
     Some (Open 9 s', 2)"
  using open_circuit_rejects_all [of "[Ev_Enter 0 1, Ev_Exit ER_Success EM_Probe 2, Ev_Enter 0 8]" 9
      example_options "stats_new 0"]
  by (simp add: numeral_2_eq_2)

text \<open>
  C6. The statistics reported when a circuit closes are exact: over the whole tripped phase, with
  any number of re-openings, \<open>rejected\<close> is the number of calls that were refused,
  \<open>executions_lost\<close> the number of results of executions admitted before the trip, the probe
  counters together the number of probe results, the closing one included, and \<open>opened_at\<close> the
  first trip.
\<close>

theorem close_report_exact:
  assumes "tripped_run settings (Open u (stats_new t)) evs = Some (st, rej)"
    and "state_exit st r m now settings = (st', XC_Closed s)" and "length evs + 1 < 2 ^ 32"
  shows "unat (st_rejected s) = rej \<and>
    unat (st_executions_lost s) = length (filter (is_exit EM_Normal) evs) \<and>
    probe_results s = length (filter (is_exit EM_Probe) evs) + 1 \<and> st_opened_at s = t"
proof -
  have "stats_room (length evs + 1) (stats_new t)"
    using assms(3) by (simp add: stats_room_def probe_results_def stats_new_def execution_info_default_def)
  then obtain s1 where s1: "state_stats st = Some s1" "stats_room 1 s1" "unat (st_rejected s1) = rej"
    "unat (st_executions_lost s1) = length (filter (is_exit EM_Normal) evs)"
    "probe_results s1 = length (filter (is_exit EM_Probe) evs)" "st_opened_at s1 = t"
    using tripped_run_stats [OF assms(1), of "stats_new t" 1]
    by (auto simp: stats_new_def probe_results_def execution_info_default_def)
  have "s = exit_stats s1 st r m" "m = EM_Probe" using state_exit_stats [OF assms(2) s1(1)] by auto
  then show ?thesis using exit_stats_counts [of 0 s1 st r m] s1(2-) by simp
qed

theorem close_report_exact_witness:
  "\<exists>st st' s. tripped_run example_options (Open 5 (stats_new 0))
      [Ev_Enter 0 3, Ev_Exit ER_Failure EM_Normal 4, Ev_Enter 0 6, Ev_Enter 0 7] = Some (st, 2) \<and>
    state_exit st ER_Success EM_Probe 8 example_options = (st', XC_Closed s) \<and>
    unat (st_rejected s) = 2 \<and> unat (st_executions_lost s) = 1 \<and> probe_results s = 1 \<and> st_opened_at s = 0"
proof -
  let ?evs = "[Ev_Enter 0 3, Ev_Exit ER_Failure EM_Normal 4, Ev_Enter 0 6, Ev_Enter 0 7]"
  obtain st st' s where run: "tripped_run example_options (Open 5 (stats_new 0)) ?evs = Some (st, 2)"
    "state_exit st ER_Success EM_Probe 8 example_options = (st', XC_Closed s)"
    by (simp add: engine_eval)
  show ?thesis using close_report_exact [OF run] run by auto
qed

text \<open>
  C2. A closed circuit trips on the first unhealthy verdict and not before: for any interleaving of
  calls whose results so far were healthy at every prefix, judged on the abstract log of the
  unexpired results, the circuit is closed and accepts, and the next result leaves it closed or
  opens it, for the break duration from that result on, exactly by the verdict with that result.
\<close>

theorem circuit_trips_on_first_unhealthy_verdict:
  assumes "eo_health_metrics_builder opts = health_metrics_builder_new d thr thru pol"
    and "length (normal_results evs) + 1 < 2 ^ 32"
    and "\<forall>k \<le> length (normal_results evs). 0 < k \<longrightarrow>
      log_verdict (eo_health_metrics_builder opts) (take k (normal_results evs)) = Healthy"
  shows "\<exists>e. engine_run engine_core_enter engine_core_exit (engine_core_new opts) evs = Inr e \<and>
    engine_core_enter e rnd t = Inr (e, EC_Accepted EM_Normal) \<and>
    (case log_verdict (eo_health_metrics_builder opts) (normal_results evs @ [(r, now)]) of
       Healthy \<Rightarrow> core_kind (fst (engine_core_exit e r EM_Normal now)) = CS_Closed
     | Unhealthy \<Rightarrow> ec_state (fst (engine_core_exit e r EM_Normal now)) =
         Open (now + eo_break_duration opts) (stats_new now))"
proof -
  let ?b = "eo_health_metrics_builder opts"
  have d: "MIN_SAMPLING_DURATION \<le> hb_sampling_duration ?b"
    using assms(1) by (simp add: health_metrics_builder_new_def)
  have "engine_run engine_core_enter engine_core_exit (engine_core_new opts) evs =
      Inr \<lparr>ec_state = Closed (health_metrics_run (health_metrics_build ?b) (normal_results evs)), ec_options = opts\<rparr>"
    using closed_run [of "engine_core_new opts" "[]" evs] assms(2,3) d by (simp add: engine_core_new_def)
  then show ?thesis
    using closed_exit [OF d, of "normal_results evs" r now opts] assms(2)
    by (simp add: core_engine.enter_closed engine_core_exit_def split: health_status.split)
qed

theorem circuit_trips_on_first_unhealthy_verdict_witness:
  "\<exists>e. engine_run engine_core_enter engine_core_exit (engine_core_new example_options)
      [Ev_Enter 0 0, Ev_Exit ER_Failure EM_Normal 1] = Inr e \<and>
    ec_state (fst (engine_core_exit e ER_Failure EM_Normal 2)) = Open 7 (stats_new 2)"
proof -
  have v: "log_verdict (eo_health_metrics_builder example_options) [(ER_Failure, 1)] = Healthy"
    "log_verdict (eo_health_metrics_builder example_options) [(ER_Failure, 1), (ER_Failure, 2)] = Unhealthy"
    by (simp_all add: log_verdict_def log_execution_info_def log_record_def log_count_def engine_eval
        representable_1 [unfolded representable_def])
  have "\<forall>k \<le> Suc 0. 0 < k \<longrightarrow>
      log_verdict (eo_health_metrics_builder example_options) (take k [(ER_Failure, 1)]) = Healthy"
    using v(1) by (simp add: le_Suc_eq)
  then show ?thesis
    using circuit_trips_on_first_unhealthy_verdict [of example_options 0 "1 / 2" 2 abandoned_policy_default
        "[Ev_Enter 0 0, Ev_Exit ER_Failure EM_Normal 1]" 0 0 ER_Failure 2] v(2)
    by (auto simp: example_options_def)
qed





text \<open>The metric events of a call, by their event name.\<close>

definition metric_names :: "telemetry_event list \<Rightarrow> string list" where
  "metric_names evs = List.map_filter (\<lambda>ev. case ev of
     TE_Metric attrs \<Rightarrow> map_of attrs ''resilience.event.name'' | TE_Log name level attrs \<Rightarrow> None) evs"

fun transition_metrics :: "circuit_state \<Rightarrow> circuit_state \<Rightarrow> string list" where
  "transition_metrics CS_Closed CS_Open = [''circuit_opened'']"
| "transition_metrics CS_HalfOpen CS_Closed = [''circuit_closed'']"
| "transition_metrics _ _ = []"

lemma metric_names_append [simp]: "metric_names (xs @ ys) = metric_names xs @ metric_names ys"
  by (simp add: metric_names_def map_filter_def)

lemma metric_names_engine [simp]:
  "th_metrics_enabled (en_telemetry e) \<Longrightarrow> metric_names (engine_metric e name st extra) = [name]"
  "metric_names (engine_log e name' level st before_id after_id) = []" "metric_names [] = []"
  by (simp_all add: metric_names_def engine_metric_def engine_log_def report_metrics_def map_filter_def)

lemma transition_metrics_same [simp]: "transition_metrics s s = []"
  by (cases s) simp_all

lemma report_state_change_metrics:
  assumes "engine_core_exit (en_inner e) r m now = (c', x)" "th_metrics_enabled (en_telemetry e)"
  shows "metric_names (report_state_change e x now') = transition_metrics (core_kind (en_inner e)) (core_kind c')"
proof (cases x)
  case XC_Unchanged
  with core_engine.exit_unchanged [OF assms(1) [unfolded XC_Unchanged]] show ?thesis
    by (simp add: report_state_change_def)
next
  case (XC_Opened h)
  with core_engine.exit_opened [OF assms(1) [unfolded XC_Opened]] assms(2) show ?thesis
    by (simp add: report_state_change_def)
next
  case XC_Reopened
  with core_engine.exit_reopened [OF assms(1) [unfolded XC_Reopened]] show ?thesis
    by (simp add: report_state_change_def)
next
  case (XC_Closed s)
  with core_engine.exit_closed [OF assms(1) [unfolded XC_Closed]] assms(2) show ?thesis
    by (simp add: report_state_change_def)
qed

text \<open>
  C10. The telemetry decorator refines the core engine and reports what it does: an \<open>exit\<close> changes
  the wrapped engine exactly as the core does, moves it along a legal transition of the abstract
  three-state machine, and emits one \<open>circuit_opened\<close> metric exactly on a trip, one
  \<open>circuit_closed\<close> exactly on a recovery and one \<open>circuit_probe\<close> exactly per probe result.
\<close>

theorem engine_exit_refines_core:
  assumes "engine_exit e r m now now' = (e', x, evs)" and "th_metrics_enabled (en_telemetry e)"
  shows "engine_core_exit (en_inner e) r m now = (en_inner e', x) \<and>
    abstract_step (core_kind (en_inner e)) (core_kind (en_inner e')) \<and>
    metric_names evs = (if m = EM_Probe then [''circuit_probe''] else []) @
      transition_metrics (core_kind (en_inner e)) (core_kind (en_inner e'))"
proof -
  obtain c' x' where c: "engine_core_exit (en_inner e) r m now = (c', x')" by force
  with assms(1) have e': "e' = e\<lparr>en_inner := c'\<rparr>" "x = x'"
    and evs: "evs = (if m = EM_Probe
             then engine_metric e ''circuit_probe'' CS_HalfOpen
                    [(''resilience.circuit_breaker.probe.result'', execution_result_as_str r)] @
                  engine_log e ''seatbelt.circuit_breaker.probe'' Level_Info CS_HalfOpen []
                    [(''circuit_breaker.probe.result'', LV_Str (execution_result_as_str r))]
             else []) @ report_state_change e x' now'"
    by (auto simp: engine_exit_def Let_def)
  show ?thesis
    using core_engine.exit_abstract [OF c] report_state_change_metrics [OF c assms(2)] c assms(2)
    by (simp add: e' evs)
qed

theorem engine_exit_refines_core_witness:
  "\<exists>e' evs. engine_exit (create_engine example_options example_telemetry breaker_id_default)
       ER_Failure EM_Normal 1 1 = (e', XC_Unchanged, evs) \<and> metric_names evs = []"
proof -
  let ?e = "create_engine example_options example_telemetry breaker_id_default"
  obtain e' evs where x: "engine_exit ?e ER_Failure EM_Normal 1 1 = (e', XC_Unchanged, evs)"
    by (simp add: engine_exit_def create_engine_def engine_core_new_def engine_core_exit_def engine_eval)
  have m: "th_metrics_enabled (en_telemetry ?e)" by (simp add: create_engine_def example_telemetry_def)
  note refines = engine_exit_refines_core [OF x m]
  have "core_kind (en_inner e') = core_kind (en_inner ?e)"
    using refines core_engine.exit_unchanged by blast
  with refines x show ?thesis by auto
qed



text \<open>
  C14. Concurrent creation is safe: if any number of callers looked a key up under the read lock
  before any of them took the write lock, all of them get the same engine, and the engine the first
  one created, with whatever state it has by then, is not replaced.
\<close>

theorem engines_write_race_safe:
  assumes "engine_at (fst (engines_write es k)) (Ref_Keyed k) = Some e0"
  shows "engines_write (engine_put (fst (engines_write es k)) (Ref_Keyed k) e) k =
      (engine_put (fst (engines_write es k)) (Ref_Keyed k) e, Ref_Keyed k) \<and>
    snd (engines_write es k) = Ref_Keyed k \<and>
    (es_map es k = None \<longrightarrow> e0 = create_engine (es_engine_options es) (es_telemetry es) k)"
  using assms by (auto simp: engines_write_def split: option.splits)

theorem engines_write_race_safe_witness:
  "let es = fst (engines_write (engines_new example_options example_telemetry) (BI_Number 7));
       e = fst (engine_exit_result (the (engine_at es (Ref_Keyed (BI_Number 7)))) ER_Failure EM_Normal 3)
   in engines_write (engine_put es (Ref_Keyed (BI_Number 7)) e) (BI_Number 7) =
     (engine_put es (Ref_Keyed (BI_Number 7)) e, Ref_Keyed (BI_Number 7))"
  unfolding Let_def
  using engines_write_race_safe [of "engines_new example_options example_telemetry" "BI_Number 7"]
  by (simp add: engines_write_def engines_new_def)

end
