(* ===== verification/Breaker_Service.thy ===== *)
theory Breaker_Service
  imports Breaker_Engine
begin

text \<open>
  The circuit breaker middleware: \<open>EnableIf\<close> (\<open>seatbelt/src/utils/mod.rs\<close>), the configuration and
  the builder (\<open>breaker/config.rs\<close>, \<open>breaker/layer.rs\<close>) and the service (\<open>breaker/service.rs\<close>)
  with its guard for abandoned executions.

  User code is a parameter: the recovery classifier, the output for rejected input, the breaker id
  provider and the probing callback are functions in \<open>breaker_shared\<close>; the callbacks that only
  observe are events. An execution awaits the inner service, so it is two steps, \<open>execute_begin\<close>
  and either \<open>guard_complete\<close> or \<open>guard_drop\<close>; \<open>service_step\<close> interleaves the executions of
  concurrent callers.
\<close>

section \<open>Enabling\<close>

datatype 'i enable_if = EI_Enabled | EI_Disabled | EI_Custom "'i \<Rightarrow> bool"

definition enable_if_new :: "bool \<Rightarrow> 'i enable_if" where
  "enable_if_new enabled = (if enabled then EI_Enabled else EI_Disabled)"

fun enable_if_call :: "'i enable_if \<Rightarrow> 'i \<Rightarrow> bool" where
  "enable_if_call EI_Enabled input = True"
| "enable_if_call EI_Disabled input = False"
| "enable_if_call (EI_Custom predicate) input = predicate input"

section \<open>Configuration and builder\<close>

definition DEFAULT_MIN_THROUGHPUT :: u32 where
  "DEFAULT_MIN_THROUGHPUT = 100"

definition DEFAULT_SAMPLING_DURATION :: duration where
  "DEFAULT_SAMPLING_DURATION = 30000000000"

definition DEFAULT_FAILURE_THRESHOLD :: f32 where
  "DEFAULT_FAILURE_THRESHOLD = f32_of (1 / 10)"

definition DEFAULT_BREAK_DURATION :: duration where
  "DEFAULT_BREAK_DURATION = 5000000000"

record breaker_config =
  bc_enabled :: bool
  bc_failure_threshold :: f32
  bc_min_throughput :: u32
  bc_sampling_duration :: duration
  bc_break_duration :: duration
  bc_half_open_mode :: half_open_mode
  bc_abandoned_policy :: abandoned_policy

definition breaker_config_default :: breaker_config where
  "breaker_config_default =
     \<lparr>bc_enabled = True, bc_failure_threshold = DEFAULT_FAILURE_THRESHOLD,
      bc_min_throughput = DEFAULT_MIN_THROUGHPUT, bc_sampling_duration = DEFAULT_SAMPLING_DURATION,
      bc_break_duration = DEFAULT_BREAK_DURATION, bc_half_open_mode = half_open_progressive None,
      bc_abandoned_policy = abandoned_policy_default\<rparr>"

record ('i, 'o) breaker_layer =
  bl_recovery :: "('o \<Rightarrow> breaker_id \<Rightarrow> recovery_info) option"
  bl_rejected_input :: "('i \<Rightarrow> breaker_id \<Rightarrow> 'o) option"
  bl_on_opened :: bool
  bl_on_closed :: bool
  bl_on_probing :: "('i \<Rightarrow> breaker_id \<Rightarrow> 'i) option"
  bl_breaker_id :: "('i \<Rightarrow> breaker_id) option"
  bl_enable_if :: "'i enable_if"
  bl_telemetry :: telemetry_helper
  bl_failure_threshold :: f32
  bl_min_throughput :: u32
  bl_sampling_duration :: duration
  bl_break_duration :: duration
  bl_half_open_mode :: half_open_mode
  bl_abandoned_policy :: abandoned_policy

definition breaker_layer_new :: "telemetry_helper \<Rightarrow> ('i, 'o) breaker_layer" where
  "breaker_layer_new telemetry =
     \<lparr>bl_recovery = None, bl_rejected_input = None, bl_on_opened = False, bl_on_closed = False,
      bl_on_probing = None, bl_breaker_id = None, bl_enable_if = EI_Enabled, bl_telemetry = telemetry,
      bl_failure_threshold = DEFAULT_FAILURE_THRESHOLD, bl_min_throughput = DEFAULT_MIN_THROUGHPUT,
      bl_sampling_duration = DEFAULT_SAMPLING_DURATION, bl_break_duration = DEFAULT_BREAK_DURATION,
      bl_half_open_mode = half_open_progressive None, bl_abandoned_policy = abandoned_policy_default\<rparr>"

definition layer_failure_threshold :: "f32 \<Rightarrow> ('i, 'o) breaker_layer \<Rightarrow> ('i, 'o) breaker_layer" where
  "layer_failure_threshold threshold l = l\<lparr>bl_failure_threshold := max 0 (min 1 threshold)\<rparr>"

definition layer_enable :: "bool \<Rightarrow> ('i, 'o) breaker_layer \<Rightarrow> ('i, 'o) breaker_layer" where
  "layer_enable enabled l = l\<lparr>bl_enable_if := enable_if_new enabled\<rparr>"

definition layer_config :: "breaker_config \<Rightarrow> ('i, 'o) breaker_layer \<Rightarrow> ('i, 'o) breaker_layer" where
  "layer_config config l =
     layer_enable (bc_enabled config)
       ((layer_failure_threshold (bc_failure_threshold config) l)
          \<lparr>bl_min_throughput := bc_min_throughput config,
           bl_sampling_duration := bc_sampling_duration config,
           bl_break_duration := bc_break_duration config,
           bl_half_open_mode := bc_half_open_mode config,
           bl_abandoned_policy := bc_abandoned_policy config\<rparr>)"

definition layer_probes_options :: "('i, 'o) breaker_layer \<Rightarrow> probes_options panicking" where
  "layer_probes_options l =
     half_open_to_options (bl_half_open_mode l) (bl_break_duration l) (bl_failure_threshold l)
       (bl_abandoned_policy l)"

definition layer_engines :: "('i, 'o) breaker_layer \<Rightarrow> engines panicking" where
  "layer_engines l =
     panic_bind (layer_probes_options l)
       (\<lambda>probes. Inr (engines_new
          \<lparr>eo_break_duration = bl_break_duration l,
           eo_health_metrics_builder = health_metrics_builder_new (bl_sampling_duration l)
             (bl_failure_threshold l) (bl_min_throughput l) (bl_abandoned_policy l),
           eo_probes = probes\<rparr> (bl_telemetry l)))"

record ('i, 'o) breaker_shared =
  bs_recovery :: "'o \<Rightarrow> breaker_id \<Rightarrow> recovery_info"
  bs_rejected_input :: "'i \<Rightarrow> breaker_id \<Rightarrow> 'o"
  bs_enable_if :: "'i enable_if"
  bs_id_provider :: "('i \<Rightarrow> breaker_id) option"
  bs_on_opened :: bool
  bs_on_closed :: bool
  bs_on_probing :: "('i \<Rightarrow> breaker_id \<Rightarrow> 'i) option"

fun expect_some :: "'a option \<Rightarrow> string \<Rightarrow> 'a panicking" where
  "expect_some None msg = Inl msg"
| "expect_some (Some x) msg = Inr x"

text \<open>
  \<open>Layer::layer\<close>: the registry is the mutable part of \<open>BreakerShared\<close>, so it is returned beside it.
\<close>

definition breaker_layer_build :: "('i, 'o) breaker_layer \<Rightarrow> (('i, 'o) breaker_shared \<times> engines) panicking" where
  "breaker_layer_build l =
     panic_bind (expect_some (bl_recovery l) ''enforced by the type state pattern'') (\<lambda>recovery.
     panic_bind (expect_some (bl_rejected_input l) ''enforced by the type state pattern'') (\<lambda>rejected.
     panic_bind (layer_engines l) (\<lambda>engines.
       Inr (\<lparr>bs_recovery = recovery, bs_rejected_input = rejected, bs_enable_if = bl_enable_if l,
             bs_id_provider = bl_breaker_id l, bs_on_opened = bl_on_opened l,
             bs_on_closed = bl_on_closed l, bs_on_probing = bl_on_probing l\<rparr>, engines))))"

section \<open>The service\<close>

datatype 'o service_event =
    SE_Telemetry telemetry_event
  | SE_Opened "'o option" breaker_id
  | SE_Closed 'o breaker_id duration

definition get_breaker_id :: "('i, 'o) breaker_shared \<Rightarrow> 'i \<Rightarrow> breaker_id" where
  "get_breaker_id sh input =
     (case bs_id_provider sh of None \<Rightarrow> breaker_id_default | Some provider \<Rightarrow> provider input)"

definition invoke_on_probing :: "('i, 'o) breaker_shared \<Rightarrow> 'i \<Rightarrow> breaker_id \<Rightarrow> 'i" where
  "invoke_on_probing sh input bid =
     (case bs_on_probing sh of None \<Rightarrow> input | Some on_probing \<Rightarrow> on_probing input bid)"

definition invoke_on_opened :: "('i, 'o) breaker_shared \<Rightarrow> 'o option \<Rightarrow> breaker_id \<Rightarrow> 'o service_event list" where
  "invoke_on_opened sh output bid = (if bs_on_opened sh then [SE_Opened output bid] else [])"

definition invoke_on_closed ::
  "('i, 'o) breaker_shared \<Rightarrow> 'o \<Rightarrow> breaker_id \<Rightarrow> duration \<Rightarrow> 'o service_event list" where
  "invoke_on_closed sh output bid open_duration =
     (if bs_on_closed sh then [SE_Closed output bid open_duration] else [])"

datatype ('b, 'c) control_flow = CF_Continue 'c | CF_Break 'b

definition before_execute ::
  "('i, 'o) breaker_shared \<Rightarrow> engine \<Rightarrow> 'i \<Rightarrow> breaker_id \<Rightarrow> f64 \<Rightarrow> instant \<Rightarrow>
   (engine \<times> ('o, 'i \<times> execution_mode) control_flow \<times> 'o service_event list) panicking" where
  "before_execute sh engine input bid rnd now =
     panic_bind (engine_enter engine rnd now) (\<lambda>(engine', res, evs).
       Inr (engine',
            (case res of
               EC_Accepted mode \<Rightarrow>
                 CF_Continue (if mode = EM_Probe then invoke_on_probing sh input bid else input, mode)
             | EC_Rejected \<Rightarrow> CF_Break (bs_rejected_input sh input bid)),
            map SE_Telemetry evs))"

definition after_execute ::
  "('i, 'o) breaker_shared \<Rightarrow> engine \<Rightarrow> 'o \<Rightarrow> execution_mode \<Rightarrow> breaker_id \<Rightarrow> instant \<Rightarrow> instant \<Rightarrow>
   engine \<times> 'o service_event list" where
  "after_execute sh engine output mode bid now now' =
     (let recovery = bs_recovery sh output bid;
          execution_result = execution_result_from_recovery recovery;
          (engine', res, evs) = engine_exit engine execution_result mode now now'
      in (engine', map SE_Telemetry evs @
            (case res of
               XC_Unchanged \<Rightarrow> []
             | XC_Reopened \<Rightarrow> []
             | XC_Opened health \<Rightarrow> invoke_on_opened sh (Some output) bid
             | XC_Closed stats \<Rightarrow> invoke_on_closed sh output bid (stats_opened_duration stats now'))))"

record abandoned_guard =
  ag_engine :: engine_ref
  ag_breaker_id :: breaker_id
  ag_mode :: execution_mode
  ag_armed :: bool

definition guard_new :: "engine_ref \<Rightarrow> breaker_id \<Rightarrow> execution_mode \<Rightarrow> abandoned_guard" where
  "guard_new engine bid mode =
     \<lparr>ag_engine = engine, ag_breaker_id = bid, ag_mode = mode, ag_armed = True\<rparr>"

text \<open>A guard holds an \<open>Arc\<close> from \<open>get_engine\<close>; that such a reference resolves is \<open>registry.get_present\<close>.\<close>

definition on_engine ::
  "engines \<Rightarrow> engine_ref \<Rightarrow> (engine \<Rightarrow> engine \<times> 'o service_event list) \<Rightarrow> engines \<times> 'o service_event list" where
  "on_engine es ref f =
     (case engine_at es ref of
        None \<Rightarrow> (es, [])
      | Some e \<Rightarrow> (let (e', evs) = f e in (engine_put es ref e', evs)))"

definition guard_complete ::
  "('i, 'o) breaker_shared \<Rightarrow> engines \<Rightarrow> abandoned_guard \<Rightarrow> 'o \<Rightarrow> instant \<Rightarrow> instant \<Rightarrow>
   engines \<times> abandoned_guard \<times> 'o service_event list" where
  "guard_complete sh es g output now now' =
     (let (es', evs) = on_engine es (ag_engine g)
            (\<lambda>e. after_execute sh e output (ag_mode g) (ag_breaker_id g) now now')
      in (es', g\<lparr>ag_armed := False\<rparr>, evs))"

definition guard_drop ::
  "('i, 'o) breaker_shared \<Rightarrow> engines \<Rightarrow> abandoned_guard \<Rightarrow> bool \<Rightarrow> instant \<Rightarrow> instant \<Rightarrow>
   engines \<times> 'o service_event list" where
  "guard_drop sh es g thread_panicking now now' =
     (if \<not> ag_armed g \<or> thread_panicking then (es, [])
      else on_engine es (ag_engine g) (\<lambda>e.
        let (e', res, evs) = engine_exit e ER_Abandoned (ag_mode g) now now'
        in (e', map SE_Telemetry evs @
              (case res of XC_Opened health \<Rightarrow> invoke_on_opened sh None (ag_breaker_id g) | _ \<Rightarrow> []))))"

datatype ('i, 'o) begin_result =
    BR_Bypass 'i
  | BR_Break 'o
  | BR_Run 'i abandoned_guard

definition execute_begin ::
  "('i, 'o) breaker_shared \<Rightarrow> engines \<Rightarrow> 'i \<Rightarrow> f64 \<Rightarrow> instant \<Rightarrow>
   (engines \<times> ('i, 'o) begin_result \<times> 'o service_event list) panicking" where
  "execute_begin sh es input rnd now =
     (if \<not> enable_if_call (bs_enable_if sh) input then Inr (es, BR_Bypass input, [])
      else let bid = get_breaker_id sh input; (es', ref) = get_engine es bid
           in case engine_at es' ref of
                None \<Rightarrow> Inr (es', BR_Bypass input, [])
              | Some engine \<Rightarrow>
                  panic_bind (before_execute sh engine input bid rnd now) (\<lambda>(engine', flow, evs).
                    Inr (engine_put es' ref engine',
                         (case flow of
                            CF_Continue (input', mode) \<Rightarrow> BR_Run input' (guard_new ref bid mode)
                          | CF_Break output \<Rightarrow> BR_Break output),
                         evs)))"

text \<open>
  One execution with nothing in between: the inner service maps the input to an output, or to
  \<open>None\<close> when the future is dropped while it is pending.
\<close>

definition breaker_execute ::
  "('i, 'o) breaker_shared \<Rightarrow> ('i \<Rightarrow> 'o option) \<Rightarrow> engines \<Rightarrow> 'i \<Rightarrow> f64 \<Rightarrow> instant \<Rightarrow> instant \<Rightarrow> instant \<Rightarrow>
   (engines \<times> 'o option \<times> 'o service_event list) panicking" where
  "breaker_execute sh inner es input rnd now1 now2 now3 =
     panic_bind (execute_begin sh es input rnd now1) (\<lambda>(es', res, evs).
       Inr (case res of
              BR_Bypass input' \<Rightarrow> (es', inner input', evs)
            | BR_Break output \<Rightarrow> (es', Some output, evs)
            | BR_Run input' g \<Rightarrow>
                (case inner input' of
                   None \<Rightarrow> (let (es'', evs') = guard_drop sh es' g False now2 now3 in (es'', None, evs @ evs'))
                 | Some output \<Rightarrow>
                     (let (es'', g', evs') = guard_complete sh es' g output now2 now3;
                          (es3, evs'') = guard_drop sh es'' g' False now2 now3
                      in (es3, Some output, evs @ evs' @ evs'')))))"

section \<open>Concurrent executions\<close>

text \<open>
  A step starts an execution, completes the one at a position of the list of those in flight, or
  drops it, possibly while its thread is panicking. The labels are the engine calls the step makes.
\<close>

record service_state =
  sv_engines :: engines
  sv_inflight :: "abandoned_guard list"

datatype ('i, 'o) service_action =
    SA_Call 'i f64 instant
  | SA_Complete nat 'o instant instant
  | SA_Drop nat bool instant instant

datatype service_label =
    SL_Enter engine_ref f64 instant enter_circuit_result
  | SL_Exit engine_ref execution_result execution_mode instant

fun service_step ::
  "('i, 'o) breaker_shared \<Rightarrow> service_state \<Rightarrow> ('i, 'o) service_action \<Rightarrow>
   (service_state \<times> service_label list) panicking" where
  "service_step sh sv (SA_Call input rnd now) =
     panic_bind (execute_begin sh (sv_engines sv) input rnd now) (\<lambda>(es', res, evs).
       Inr (case res of
              BR_Bypass input' \<Rightarrow> (sv\<lparr>sv_engines := es'\<rparr>, [])
            | BR_Break output \<Rightarrow>
                (sv\<lparr>sv_engines := es'\<rparr>,
                 [SL_Enter (snd (get_engine (sv_engines sv) (get_breaker_id sh input))) rnd now EC_Rejected])
            | BR_Run input' g \<Rightarrow>
                (sv\<lparr>sv_engines := es', sv_inflight := sv_inflight sv @ [g]\<rparr>,
                 [SL_Enter (ag_engine g) rnd now (EC_Accepted (ag_mode g))])))"
| "service_step sh sv (SA_Complete i output now now') =
     Inr (if i < length (sv_inflight sv)
          then let g = sv_inflight sv ! i;
                   (es', g', evs) = guard_complete sh (sv_engines sv) g output now now';
                   (es'', evs') = guard_drop sh es' g' False now now'
               in (\<lparr>sv_engines = es'', sv_inflight = take i (sv_inflight sv) @ drop (Suc i) (sv_inflight sv)\<rparr>,
                   [SL_Exit (ag_engine g) (execution_result_from_recovery (bs_recovery sh output (ag_breaker_id g)))
                      (ag_mode g) now])
          else (sv, []))"
| "service_step sh sv (SA_Drop i thread_panicking now now') =
     Inr (if i < length (sv_inflight sv)
          then let g = sv_inflight sv ! i;
                   (es', evs) = guard_drop sh (sv_engines sv) g thread_panicking now now'
               in (\<lparr>sv_engines = es', sv_inflight = take i (sv_inflight sv) @ drop (Suc i) (sv_inflight sv)\<rparr>,
                   if thread_panicking then [] else [SL_Exit (ag_engine g) ER_Abandoned (ag_mode g) now])
          else (sv, []))"

fun service_run ::
  "('i, 'o) breaker_shared \<Rightarrow> service_state \<Rightarrow> ('i, 'o) service_action list \<Rightarrow>
   (service_state \<times> service_label list) panicking" where
  "service_run sh sv [] = Inr (sv, [])"
| "service_run sh sv (a # as) =
     panic_bind (service_step sh sv a) (\<lambda>(sv', ls).
       panic_bind (service_run sh sv' as) (\<lambda>(sv'', ls'). Inr (sv'', ls @ ls')))"

fun label_event :: "engine_ref \<Rightarrow> service_label \<Rightarrow> circuit_event list" where
  "label_event ref (SL_Enter r rnd now res) = (if r = ref then [Ev_Enter rnd now] else [])"
| "label_event ref (SL_Exit r res mode now) = (if r = ref then [Ev_Exit res mode now] else [])"

definition label_events :: "engine_ref \<Rightarrow> service_label list \<Rightarrow> circuit_event list" where
  "label_events ref ls = concat (map (label_event ref) ls)"

lemma label_events_simps [simp]:
  "label_events ref [] = []" "label_events ref (l # ls) = label_event ref l @ label_events ref ls"
  "label_events ref (ls @ ls') = label_events ref ls @ label_events ref ls'"
  by (simp_all add: label_events_def)

lemma engine_run_append:
  "engine_run enter exit e (evs @ evs') =
     panic_bind (engine_run enter exit e evs) (\<lambda>e'. engine_run enter exit e' evs')"
proof (induction evs arbitrary: e)
  case (Cons ev evs)
  show ?case
  proof (cases ev)
    case (Ev_Enter rnd now)
    with Cons show ?thesis by (cases "enter e rnd now") (auto split: prod.split)
  qed (simp add: Cons)
qed simp

lemma engine_at_put [simp]:
  "engine_at (engine_put es r e) r' = (if r' = r then Some e else engine_at es r')"
  "es_engine_options (engine_put es r e) = es_engine_options es"
  by (cases r; cases r'; simp)+

lemma get_engine_effect:
  "snd (get_engine es k) = engine_ref_of k"
  "engine_at (fst (get_engine es k)) r =
     (if r = engine_ref_of k \<and> engine_at es r = None
      then Some (create_engine (es_engine_options es) (es_telemetry es) k) else engine_at es r)"
  "es_engine_options (fst (get_engine es k)) = es_engine_options es"
  by (cases r; auto simp: get_engine_def engines_read_def engines_write_def engine_ref_of_def split: option.splits)+

lemma engine_enter_core:
  "engine_enter e rnd now = Inr (e', res, evs) \<Longrightarrow> engine_core_enter (en_inner e) rnd now = Inr (en_inner e', res)"
  by (auto simp: engine_enter_def panic_bind_eq_Inr)

lemma engine_exit_core:
  "engine_exit e r m now now' = (e', x, evs) \<Longrightarrow> engine_core_exit (en_inner e) r m now = (en_inner e', x)"
  by (auto simp: engine_exit_def Let_def split: prod.splits)

text \<open>What beginning and ending an execution do to the registry.\<close>

lemma execute_begin_cases:
  fixes sh :: "('i, 'o) breaker_shared" and input :: 'i
  defines "bid \<equiv> get_breaker_id sh input"
  assumes "execute_begin sh es input rnd now = Inr (es', res, evs)"
  shows "res = BR_Bypass input \<and> es' = es \<and> \<not> enable_if_call (bs_enable_if sh) input \<or>
    (\<exists>e0 e ecr. engine_at (fst (get_engine es bid)) (engine_ref_of bid) = Some e0 \<and>
       engine_core_enter (en_inner e0) rnd now = Inr (en_inner e, ecr) \<and>
       es' = engine_put (fst (get_engine es bid)) (engine_ref_of bid) e \<and>
       (case ecr of
          EC_Rejected \<Rightarrow> res = BR_Break (bs_rejected_input sh input bid)
        | EC_Accepted mode \<Rightarrow> \<exists>input'. res = BR_Run input' (guard_new (engine_ref_of bid) bid mode) \<and>
            (mode = EM_Normal \<longrightarrow> input' = input)))"
proof (cases "enable_if_call (bs_enable_if sh) input")
  case False
  with assms(2) show ?thesis by (simp add: execute_begin_def)
next
  case True
  obtain es1 where g: "get_engine es bid = (es1, engine_ref_of bid)"
    by (metis get_engine_effect(1) prod.collapse)
  obtain e0 where e0: "engine_at es1 (engine_ref_of bid) = Some e0"
    using registry.get_present [of es bid] g by auto
  from assms(2) True e0 g obtain e flow where e: "before_execute sh e0 input bid rnd now = Inr (e, flow, evs)"
    "es' = engine_put es1 (engine_ref_of bid) e"
    "res = (case flow of CF_Continue (input', mode) \<Rightarrow> BR_Run input' (guard_new (engine_ref_of bid) bid mode)
       | CF_Break output \<Rightarrow> BR_Break output)"
    by (auto simp: execute_begin_def panic_bind_eq_Inr Let_def bid_def [symmetric])
  from e(1) obtain ecr evs0 where ecr: "engine_enter e0 rnd now = Inr (e, ecr, evs0)"
    "flow = (case ecr of EC_Accepted mode \<Rightarrow>
         CF_Continue (if mode = EM_Probe then invoke_on_probing sh input bid else input, mode)
       | EC_Rejected \<Rightarrow> CF_Break (bs_rejected_input sh input bid))"
    by (auto simp: before_execute_def panic_bind_eq_Inr)
  show ?thesis
    using e0 e(2,3) ecr(2) engine_enter_core [OF ecr(1)] g
    by (cases ecr; intro disjI2 exI [of _ e0] exI [of _ e] exI [of _ ecr]) auto
qed

lemma guard_complete_effect:
  assumes "engine_at es (ag_engine g) = Some e0"
  shows "\<exists>e x evs. engine_core_exit (en_inner e0)
      (execution_result_from_recovery (bs_recovery sh output (ag_breaker_id g))) (ag_mode g) now = (en_inner e, x) \<and>
    guard_complete sh es g output now now' = (engine_put es (ag_engine g) e, g\<lparr>ag_armed := False\<rparr>, evs)"
proof -
  obtain e x evs where x: "engine_exit e0 (execution_result_from_recovery (bs_recovery sh output (ag_breaker_id g)))
    (ag_mode g) now now' = (e, x, evs)" by (cases rule: prod_cases3)
  show ?thesis using engine_exit_core [OF x] x assms
    by (auto simp: guard_complete_def on_engine_def after_execute_def)
qed

lemma guard_drop_effect:
  assumes "engine_at es (ag_engine g) = Some e0" "ag_armed g"
  shows "\<exists>e x evs. engine_core_exit (en_inner e0) ER_Abandoned (ag_mode g) now = (en_inner e, x) \<and>
    guard_drop sh es g False now now' = (engine_put es (ag_engine g) e, evs)"
proof -
  obtain e x evs where x: "engine_exit e0 ER_Abandoned (ag_mode g) now now' = (e, x, evs)"
    by (cases rule: prod_cases3)
  show ?thesis using engine_exit_core [OF x] x assms
    by (auto simp: guard_drop_def on_engine_def)
qed

lemma guard_drop_idle [simp]:
  "\<not> ag_armed g \<or> thread_panicking \<Longrightarrow> guard_drop sh es g thread_panicking now now' = (es, [])"
  by (auto simp: guard_drop_def)

abbreviation core_run :: "engine_options \<Rightarrow> circuit_event list \<Rightarrow> engine_core panicking" where
  "core_run opts evs \<equiv> engine_run engine_core_enter engine_core_exit (engine_core_new opts) evs"

text \<open>
  The invariant: every engine of the registry is what the calls to it, in their order, make of a
  new engine; an engine that does not exist was not called; the guards in flight are armed.
\<close>

definition engine_traced :: "engine_options \<Rightarrow> engines \<Rightarrow> service_label list \<Rightarrow> engine_ref \<Rightarrow> bool" where
  "engine_traced opts es ls ref \<longleftrightarrow>
     (case engine_at es ref of
        None \<Rightarrow> label_events ref ls = []
      | Some e \<Rightarrow> core_run opts (label_events ref ls) = Inr (en_inner e))"

definition service_inv :: "engine_options \<Rightarrow> service_state \<Rightarrow> service_label list \<Rightarrow> bool" where
  "service_inv opts sv ls \<longleftrightarrow> es_engine_options (sv_engines sv) = opts \<and>
     (\<forall>g \<in> set (sv_inflight sv). engine_at (sv_engines sv) (ag_engine g) \<noteq> None \<and> ag_armed g) \<and>
     (\<forall>ref. engine_traced opts (sv_engines sv) ls ref)"

lemma traced_get_engine:
  assumes "\<forall>ref. engine_traced opts es ls ref" "es_engine_options es = opts"
  shows "engine_traced opts (fst (get_engine es k)) ls ref"
  using spec [OF assms(1), of ref] assms(2)
  by (auto simp: engine_traced_def get_engine_effect create_engine_def split: option.splits)

lemma traced_put:
  assumes "\<forall>ref. engine_traced opts es ls ref" "engine_at es ref0 = Some e0"
    "engine_run engine_core_enter engine_core_exit (en_inner e0) (label_event ref0 l) = Inr (en_inner e)"
    "\<And>ref. ref \<noteq> ref0 \<Longrightarrow> label_event ref l = []"
  shows "engine_traced opts (engine_put es ref0 e) (ls @ [l]) ref"
  using spec [OF assms(1), of ref] assms(2-)
  by (cases "ref = ref0") (auto simp: engine_traced_def engine_run_append split: option.splits)

lemma service_step_exit:
  assumes inv: "service_inv opts sv ls" and i: "i < length (sv_inflight sv)" "g = sv_inflight sv ! i"
    and e0: "engine_at (sv_engines sv) (ag_engine g) = Some e0"
    and x: "engine_core_exit (en_inner e0) r (ag_mode g) now = (en_inner e, x)"
  shows "service_inv opts \<lparr>sv_engines = engine_put (sv_engines sv) (ag_engine g) e,
      sv_inflight = take i (sv_inflight sv) @ drop (Suc i) (sv_inflight sv)\<rparr>
    (ls @ [SL_Exit (ag_engine g) r (ag_mode g) now])"
proof -
  have "engine_traced opts (engine_put (sv_engines sv) (ag_engine g) e)
      (ls @ [SL_Exit (ag_engine g) r (ag_mode g) now]) ref" for ref
    using traced_put [of opts "sv_engines sv" ls "ag_engine g" e0 "SL_Exit (ag_engine g) r (ag_mode g) now" e ref]
      inv x e0 by (simp add: service_inv_def)
  moreover have "set (take i (sv_inflight sv) @ drop (Suc i) (sv_inflight sv)) \<subseteq> set (sv_inflight sv)"
    using set_take_subset set_drop_subset by fastforce
  ultimately show ?thesis using inv by (auto simp: service_inv_def)
qed

lemma service_inv_weaken:
  assumes "service_inv opts sv ls"
  shows "service_inv opts \<lparr>sv_engines = sv_engines sv,
    sv_inflight = take i (sv_inflight sv) @ drop j (sv_inflight sv)\<rparr> ls"
  using assms by (auto simp: service_inv_def dest: in_set_takeD in_set_dropD)

lemma service_inv_call:
  fixes sh :: "('i, 'o) breaker_shared" and input :: 'i
  defines "bid \<equiv> get_breaker_id sh input"
  assumes inv: "service_inv opts sv ls" and step: "service_step sh sv (SA_Call input rnd now) = Inr (sv', ls')"
  shows "service_inv opts sv' (ls @ ls')"
proof -
  obtain es' res evs where b: "execute_begin sh (sv_engines sv) input rnd now = Inr (es', res, evs)"
    using step by (auto simp: panic_bind_eq_Inr)
  from execute_begin_cases [OF b] consider (bypass) "res = BR_Bypass input" "es' = sv_engines sv"
    | (entered) e0 e ecr where
      "engine_at (fst (get_engine (sv_engines sv) bid)) (engine_ref_of bid) = Some e0"
      "engine_core_enter (en_inner e0) rnd now = Inr (en_inner e, ecr)"
      "es' = engine_put (fst (get_engine (sv_engines sv) bid)) (engine_ref_of bid) e"
      "case ecr of EC_Rejected \<Rightarrow> res = BR_Break (bs_rejected_input sh input bid)
        | EC_Accepted mode \<Rightarrow> \<exists>input'. res = BR_Run input' (guard_new (engine_ref_of bid) bid mode) \<and>
            (mode = EM_Normal \<longrightarrow> input' = input)"
    unfolding bid_def by blast
  then show ?thesis
  proof cases
    case bypass
    with inv step b show ?thesis by (simp add: service_inv_def)
  next
    case entered
    have traced: "engine_traced opts es' (ls @ [SL_Enter (engine_ref_of bid) rnd now ecr]) ref" for ref
      using traced_put [of opts "fst (get_engine (sv_engines sv) bid)" ls "engine_ref_of bid" e0
          "SL_Enter (engine_ref_of bid) rnd now ecr" e ref] traced_get_engine [of opts "sv_engines sv" ls bid]
        inv entered(1-3) by (simp add: service_inv_def)
    have present: "engine_at es' (ag_engine g) \<noteq> None \<and> ag_armed g" if "g \<in> set (sv_inflight sv)" for g
      using inv that by (auto simp: entered(3) service_inv_def get_engine_effect(2))
    have opts: "es_engine_options es' = opts"
      using inv by (simp add: entered(3) service_inv_def get_engine_effect(3))
    show ?thesis
    proof (cases ecr)
      case (EC_Accepted mode)
      with entered(4) obtain input' where "res = BR_Run input' (guard_new (engine_ref_of bid) bid mode)" by auto
      with step b have sv': "ls' = [SL_Enter (engine_ref_of bid) rnd now ecr]"
        "sv' = sv\<lparr>sv_engines := es', sv_inflight := sv_inflight sv @ [guard_new (engine_ref_of bid) bid mode]\<rparr>"
        by (simp_all add: EC_Accepted guard_new_def)
      have "engine_at es' (engine_ref_of bid) \<noteq> None" by (simp add: entered(3))
      then show ?thesis using traced present opts unfolding sv' by (simp add: service_inv_def guard_new_def)
    next
      case EC_Rejected
      with entered(4) have "res = BR_Break (bs_rejected_input sh input bid)" by simp
      with step b have sv': "sv' = sv\<lparr>sv_engines := es'\<rparr>" "ls' = [SL_Enter (engine_ref_of bid) rnd now ecr]"
        by (simp_all add: get_engine_effect(1) EC_Rejected bid_def)
      show ?thesis using traced present opts unfolding sv' by (simp add: service_inv_def)
    qed
  qed
qed

lemma service_inv_step:
  assumes inv: "service_inv opts sv ls" and "service_step sh sv a = Inr (sv', ls')"
  shows "service_inv opts sv' (ls @ ls')"
proof (cases a)
  case (SA_Call input rnd now)
  with assms(2) service_inv_call [OF inv, of sh input rnd now sv' ls'] show ?thesis by simp
next
  case (SA_Complete i out now now')
  show ?thesis
  proof (cases "i < length (sv_inflight sv)")
    case True
    define g where "g = sv_inflight sv ! i"
    obtain e0 where e0: "engine_at (sv_engines sv) (ag_engine g) = Some e0"
      using inv True by (force simp: service_inv_def g_def)
    from guard_complete_effect [OF e0, of sh out now now'] obtain e x evs where
      x: "engine_core_exit (en_inner e0) (execution_result_from_recovery (bs_recovery sh out (ag_breaker_id g)))
        (ag_mode g) now = (en_inner e, x)"
      and c: "guard_complete sh (sv_engines sv) g out now now' =
        (engine_put (sv_engines sv) (ag_engine g) e, g\<lparr>ag_armed := False\<rparr>, evs)" by blast
    show ?thesis using service_step_exit [OF inv True g_def e0 x] assms(2) True c
      by (simp add: SA_Complete g_def [symmetric] Let_def)
  qed (use assms in \<open>simp add: SA_Complete\<close>)
next
  case (SA_Drop i p now now')
  show ?thesis
  proof (cases "i < length (sv_inflight sv) \<and> \<not> p")
    case True
    define g where "g = sv_inflight sv ! i"
    obtain e0 where e0: "engine_at (sv_engines sv) (ag_engine g) = Some e0" and "ag_armed g"
      using inv True by (force simp: service_inv_def g_def)
    from guard_drop_effect [OF this, of now sh now'] obtain e x evs where
      x: "engine_core_exit (en_inner e0) ER_Abandoned (ag_mode g) now = (en_inner e, x)"
      and c: "guard_drop sh (sv_engines sv) g False now now' = (engine_put (sv_engines sv) (ag_engine g) e, evs)"
      by blast
    show ?thesis using service_step_exit [OF inv conjunct1 [OF True] g_def e0 x] assms(2) True c
      by (simp add: SA_Drop g_def [symmetric] Let_def)
  next
    case False
    with assms service_inv_weaken [OF inv, of i "Suc i"] show ?thesis
      by (auto simp: SA_Drop split: if_splits)
  qed
qed

lemma service_inv_run:
  "service_run sh sv as = Inr (sv', ls') \<Longrightarrow> service_inv opts sv ls \<Longrightarrow> service_inv opts sv' (ls @ ls')"
proof (induction as arbitrary: sv ls ls')
  case (Cons a as)
  then obtain sv1 ls1 ls2 where "service_step sh sv a = Inr (sv1, ls1)" "service_run sh sv1 as = Inr (sv', ls2)"
    "ls' = ls1 @ ls2" by (auto simp: panic_bind_eq_Inr)
  with Cons.IH [of sv1 ls2 "ls @ ls1"] service_inv_step [OF Cons.prems(2), of sh a sv1 ls1] show ?case by simp
qed simp

text \<open>No step panics when the options have a probe.\<close>

lemma traced_engine_options:
  assumes "engine_traced opts es ls ref" "engine_at es ref = Some e" "pso_probes (eo_probes opts) \<noteq> []"
  shows "ec_options (en_inner e) = opts"
  using engine_core_run_no_panic [of "engine_core_new opts" "label_events ref ls"] assms
  by (auto simp: engine_traced_def engine_core_new_def)

lemma engine_enter_no_panic:
  assumes "pso_probes (eo_probes (ec_options (en_inner e))) \<noteq> []"
  shows "\<exists>y. engine_enter e rnd now = Inr y"
  using state_enter_no_panic [OF assms, of "ec_state (en_inner e)" rnd now]
  by (auto simp: engine_enter_def engine_core_enter_def)

lemma service_step_no_panic:
  assumes inv: "service_inv opts sv ls" and ne: "pso_probes (eo_probes opts) \<noteq> []"
  shows "\<exists>sv' ls'. service_step sh sv a = Inr (sv', ls')"
proof (cases a)
  case (SA_Call input rnd now)
  let ?bid = "get_breaker_id sh input"
  obtain es1 where g: "get_engine (sv_engines sv) ?bid = (es1, engine_ref_of ?bid)"
    by (metis get_engine_effect(1) prod.collapse)
  obtain e0 where e0: "engine_at es1 (engine_ref_of ?bid) = Some e0"
    using registry.get_present [of "sv_engines sv" ?bid] g by auto
  have "engine_traced opts es1 ls (engine_ref_of ?bid)"
    using traced_get_engine [of opts "sv_engines sv" ls ?bid] inv g by (simp add: service_inv_def)
  from traced_engine_options [OF this e0 ne] ne obtain e res evs where
    e: "engine_enter e0 rnd now = Inr (e, res, evs)"
    using engine_enter_no_panic [of e0 rnd now] by auto
  have "\<exists>y. execute_begin sh (sv_engines sv) input rnd now = Inr y"
    using g e0 e by (simp add: execute_begin_def before_execute_def Let_def)
  then show ?thesis by (auto simp: SA_Call split: begin_result.split)
qed (simp_all add: case_prod_beta Let_def)

lemma service_run_no_panic:
  "service_inv opts sv ls \<Longrightarrow> pso_probes (eo_probes opts) \<noteq> [] \<Longrightarrow> \<exists>sv' ls'. service_run sh sv as = Inr (sv', ls')"
proof (induction as arbitrary: sv ls)
  case (Cons a as)
  obtain sv1 ls1 where s1: "service_step sh sv a = Inr (sv1, ls1)"
    using service_step_no_panic [OF Cons.prems] by blast
  from Cons.IH [OF service_inv_step [OF Cons.prems(1) s1] Cons.prems(2)] s1 show ?case by auto
qed simp

lemma service_inv_new: "service_inv opts \<lparr>sv_engines = engines_new opts tel, sv_inflight = []\<rparr> []"
proof -
  have "engine_traced opts (engines_new opts tel) [] ref" for ref
    by (cases ref) (simp_all add: engine_traced_def engines_new_def create_engine_def)
  then show ?thesis by (simp add: service_inv_def) (simp add: engines_new_def)
qed

lemma breaker_layer_build_engines:
  assumes "breaker_layer_build l = Inr (sh, es)"
  obtains opts where "es = engines_new opts (bl_telemetry l)" "pso_probes (eo_probes opts) \<noteq> []"
proof -
  from assms obtain probes where p: "layer_probes_options l = Inr probes" "layer_engines l = Inr es"
    by (auto simp: breaker_layer_build_def layer_engines_def panic_bind_eq_Inr)
  have "pso_probes probes \<noteq> []"
    using p(1) unfolding layer_probes_options_def by (rule half_open_to_options_nonempty)
  then show ?thesis using p that by (auto simp: layer_engines_def)
qed

text \<open>Accounting of executions.\<close>

fun is_accept :: "engine_ref \<Rightarrow> execution_mode \<Rightarrow> service_label \<Rightarrow> bool" where
  "is_accept ref mode (SL_Enter r rnd now res) = (r = ref \<and> res = EC_Accepted mode)"
| "is_accept ref mode (SL_Exit r res m now) = False"

fun is_end :: "engine_ref \<Rightarrow> execution_mode \<Rightarrow> service_label \<Rightarrow> bool" where
  "is_end ref mode (SL_Enter r rnd now res) = False"
| "is_end ref mode (SL_Exit r res m now) = (r = ref \<and> m = mode)"

definition in_flight :: "engine_ref \<Rightarrow> execution_mode \<Rightarrow> service_state \<Rightarrow> nat" where
  "in_flight ref mode sv = length (filter (\<lambda>g. ag_engine g = ref \<and> ag_mode g = mode) (sv_inflight sv))"

fun panicking_drop :: "('i, 'o) service_action \<Rightarrow> bool" where
  "panicking_drop (SA_Drop i p now now') = p"
| "panicking_drop _ = False"

lemma filter_remove_nth:
  "i < length xs \<Longrightarrow> length (filter P xs) =
     length (filter P (take i xs @ drop (Suc i) xs)) + (if P (xs ! i) then 1 else 0)"
  by (subst id_take_nth_drop [of i xs]) auto

lemma service_step_accounting:
  assumes "service_step sh sv a = Inr (sv', ls)" "\<not> panicking_drop a"
  shows "in_flight ref mode sv + length (filter (is_accept ref mode) ls) =
    in_flight ref mode sv' + length (filter (is_end ref mode) ls)"
proof (cases a)
  case (SA_Call input rnd now)
  obtain es' res evs where b: "execute_begin sh (sv_engines sv) input rnd now = Inr (es', res, evs)"
    using assms(1) by (auto simp: SA_Call panic_bind_eq_Inr)
  with assms(1) show ?thesis by (cases res) (auto simp: SA_Call in_flight_def)
next
  case (SA_Complete i out now now')
  with assms(1) filter_remove_nth [of i "sv_inflight sv"] show ?thesis
    by (auto simp: in_flight_def Let_def case_prod_beta split: if_splits)
next
  case (SA_Drop i p now now')
  with assms filter_remove_nth [of i "sv_inflight sv"] show ?thesis
    by (auto simp: in_flight_def Let_def case_prod_beta split: if_splits)
qed

lemma service_run_accounting:
  "service_run sh sv as = Inr (sv', ls) \<Longrightarrow> \<forall>a \<in> set as. \<not> panicking_drop a \<Longrightarrow>
     in_flight ref mode sv + length (filter (is_accept ref mode) ls) =
     in_flight ref mode sv' + length (filter (is_end ref mode) ls)"
proof (induction as arbitrary: sv ls)
  case (Cons a as)
  then obtain sv1 ls1 ls2 where "service_step sh sv a = Inr (sv1, ls1)" "service_run sh sv1 as = Inr (sv', ls2)"
    "ls = ls1 @ ls2" by (auto simp: panic_bind_eq_Inr)
  with Cons.IH [of sv1 ls2] Cons.prems(2) service_step_accounting [of sh sv a sv1 ls1 ref mode] show ?case by simp
qed simp

lemma probes_options_progressive_panics:
  assumes "0 \<le> thr"
  shows "(\<exists>msg. probes_options_progressive d thr pol = Inl msg) \<longleftrightarrow> 1 \<le> thr \<or> d = 0"
proof (cases "thr < 1 \<and> 0 < d")
  case True
  with assms show ?thesis by (simp add: probes_options_progressive_Inr)
next
  case False
  with assms show ?thesis
    by (auto simp: probes_options_progressive_def probes_options_gradual_def progressive_ratios_eq
        health_probe_options_new_def assert_or_panic_def)
qed

lemma half_open_to_options_panics:
  assumes "0 \<le> thr"
  shows "(\<exists>msg. half_open_to_options mode d thr pol = Inl msg) \<longleftrightarrow>
    (\<exists>stage. hom_inner mode = HO_Progressive stage \<and>
       (1 \<le> thr \<or> (case stage of None \<Rightarrow> d | Some d' \<Rightarrow> d') = 0))"
  using probes_options_progressive_panics [OF assms]
  by (auto simp: half_open_to_options_def probes_options_quick_def probes_options_new_def assert_or_panic_def
      split: half_open_inner.split)

section \<open>Properties\<close>

definition example_layer :: "(nat, nat) breaker_layer" where
  "example_layer = (breaker_layer_new example_telemetry)
     \<lparr>bl_recovery := Some (\<lambda>output bid. if output = 0 then ri_never else ri_retry),
      bl_rejected_input := Some (\<lambda>input bid. 99), bl_half_open_mode := half_open_quick,
      bl_min_throughput := 2, bl_failure_threshold := 1 / 2\<rparr>"

definition example_shared :: "(nat, nat) breaker_shared" where
  "example_shared = \<lparr>bs_recovery = (\<lambda>output bid. if output = 0 then ri_never else ri_retry),
     bs_rejected_input = (\<lambda>input bid. 99), bs_enable_if = EI_Enabled, bs_id_provider = None,
     bs_on_opened = False, bs_on_closed = False, bs_on_probing = None\<rparr>"

definition example_engines :: engines where
  "example_engines = engines_new
     \<lparr>eo_break_duration = DEFAULT_BREAK_DURATION,
      eo_health_metrics_builder = health_metrics_builder_new DEFAULT_SAMPLING_DURATION (1 / 2) 2 abandoned_policy_default,
      eo_probes = \<lparr>pso_probes = [PO_SingleProbe DEFAULT_BREAK_DURATION abandoned_policy_default]\<rparr>\<rparr>
     example_telemetry"

lemma example_layer_build: "breaker_layer_build example_layer = Inr (example_shared, example_engines)"
  by (simp add: breaker_layer_build_def example_layer_def breaker_layer_new_def layer_engines_def
      layer_probes_options_def half_open_to_options_def half_open_quick_def probes_options_quick_def
      probes_options_new_def assert_or_panic_def example_shared_def example_engines_def)

text \<open>
  C15. The service refines its engines: under any interleaving of starting, completing and dropping
  executions of one built breaker, every engine of the registry is in exactly the state that the
  sequence of \<open>enter\<close> and \<open>exit\<close> calls labelled with it, and no others, make of a new engine.
\<close>

theorem service_refines_engines:
  assumes "breaker_layer_build l = Inr (sh, es)"
    and "service_run sh \<lparr>sv_engines = es, sv_inflight = []\<rparr> as = Inr (sv, ls)"
    and "engine_at (sv_engines sv) ref = Some e"
  shows "core_run (es_engine_options es) (label_events ref ls) = Inr (en_inner e)"
proof -
  obtain opts where opts: "es = engines_new opts (bl_telemetry l)"
    using assms(1) by (rule breaker_layer_build_engines)
  have "service_inv opts sv ls"
    using service_inv_run [OF assms(2) [unfolded opts] service_inv_new] by simp
  then have "engine_traced opts (sv_engines sv) ls ref" by (simp add: service_inv_def)
  with assms(3) show ?thesis by (simp add: engine_traced_def opts engines_new_def)
qed

theorem service_refines_engines_witness:
  "\<exists>sv e. service_run example_shared \<lparr>sv_engines = example_engines, sv_inflight = []\<rparr>
      [SA_Call 5 0 1, SA_Complete 0 0 2 2] =
        Inr (sv, [SL_Enter Ref_Default 0 1 (EC_Accepted EM_Normal), SL_Exit Ref_Default ER_Success EM_Normal 2]) \<and>
    engine_at (sv_engines sv) Ref_Default = Some e \<and>
    core_run (es_engine_options example_engines) [Ev_Enter 0 1, Ev_Exit ER_Success EM_Normal 2] = Inr (en_inner e)"
proof -
  let ?ls = "[SL_Enter Ref_Default 0 1 (EC_Accepted EM_Normal), SL_Exit Ref_Default ER_Success EM_Normal 2]"
  obtain sv where sv: "service_run example_shared \<lparr>sv_engines = example_engines, sv_inflight = []\<rparr>
      [SA_Call 5 0 1, SA_Complete 0 0 2 2] = Inr (sv, ?ls)"
    by (simp add: execute_begin_def example_shared_def get_breaker_id_def get_engine_def engines_read_def
        breaker_id_is_default_def breaker_id_default_def before_execute_def engine_enter_def engine_core_enter_def
        example_engines_def engines_new_def create_engine_def engine_core_new_def state_enter_def guard_new_def
        guard_complete_def on_engine_def execution_result_from_recovery_def ri_never_def case_prod_beta)
  show ?thesis
    using service_refines_engines [OF example_layer_build sv, of Ref_Default "es_default_engine (sv_engines sv)"] sv
    by (intro exI [of _ sv] exI [of _ "es_default_engine (sv_engines sv)"])
       (simp del: service_run.simps engine_run.simps)
qed





text \<open>
  C18. When building a breaker panics: with both required properties set, exactly if the half-open
  mode is progressive and the configured failure threshold is at least \<open>1.0\<close> or the stage duration,
  by default the break duration, is zero. The builder accepts a threshold of \<open>1.0\<close>, and clamps
  anything above to it.
\<close>

theorem breaker_layer_build_panics_iff:
  assumes "bl_recovery l = Some r" and "bl_rejected_input l = Some ri"
  shows "(\<exists>msg. breaker_layer_build (layer_config config l) = Inl msg) \<longleftrightarrow>
    (\<exists>stage. hom_inner (bc_half_open_mode config) = HO_Progressive stage \<and>
       (1 \<le> bc_failure_threshold config \<or>
        (case stage of None \<Rightarrow> bc_break_duration config | Some d \<Rightarrow> d) = 0))"
proof -
  let ?thr = "max 0 (min 1 (bc_failure_threshold config))"
  have "(\<exists>msg. breaker_layer_build (layer_config config l) = Inl msg) \<longleftrightarrow>
      (\<exists>msg. half_open_to_options (bc_half_open_mode config) (bc_break_duration config) ?thr
         (bc_abandoned_policy config) = Inl msg)"
    using assms
    by (auto simp: breaker_layer_build_def layer_config_def layer_enable_def layer_failure_threshold_def
        layer_engines_def layer_probes_options_def panic_bind_eq_Inl)
  also have "\<dots> \<longleftrightarrow> (\<exists>stage. hom_inner (bc_half_open_mode config) = HO_Progressive stage \<and>
      (1 \<le> ?thr \<or> (case stage of None \<Rightarrow> bc_break_duration config | Some d \<Rightarrow> d) = 0))"
    by (rule half_open_to_options_panics) simp
  also have "1 \<le> ?thr \<longleftrightarrow> 1 \<le> bc_failure_threshold config" by auto
  finally show ?thesis .
qed

theorem breaker_layer_build_panics_iff_witness:
  "\<exists>msg. breaker_layer_build (layer_config (breaker_config_default\<lparr>bc_failure_threshold := 1\<rparr>) example_layer) = Inl msg"
  using breaker_layer_build_panics_iff [of example_layer _ _ "breaker_config_default\<lparr>bc_failure_threshold := 1\<rparr>"]
  by (simp add: example_layer_def breaker_config_default_def half_open_progressive_def)

text \<open>
  C19. Failing fast: while the engine of the input's breaker id is open and the break has not ended,
  an execution returns the rejection output without running the inner service (the result is the
  same for every inner service) and leaves the engine open until the same instant.
\<close>

theorem open_breaker_fails_fast:
  assumes "enable_if_call (bs_enable_if sh) input" and "k = get_breaker_id sh input"
    and "engine_at es (engine_ref_of k) = Some e" and "ec_state (en_inner e) = Open u s" and "now < u"
  shows "\<exists>es' evs e' s'. breaker_execute sh inner es input rnd now t2 t3 =
      Inr (es', Some (bs_rejected_input sh input k), evs) \<and>
    engine_at es' (engine_ref_of k) = Some e' \<and> ec_state (en_inner e') = Open u s'"
proof -
  obtain es1 where g: "get_engine es k = (es1, engine_ref_of k)"
    by (metis get_engine_effect(1) prod.collapse)
  have e: "engine_at es1 (engine_ref_of k) = Some e"
    using get_engine_effect(2) [of es k "engine_ref_of k"] assms(3) g by simp
  show ?thesis
    using assms(1,2,4,5) g e
    by (simp add: breaker_execute_def execute_begin_def Let_def before_execute_def engine_enter_def
        engine_core_enter_def state_enter_def)
qed

theorem open_breaker_fails_fast_witness:
  "\<exists>es' evs e' s'. breaker_execute example_shared Some
      (engine_put example_engines Ref_Default ((es_default_engine example_engines)
         \<lparr>en_inner := \<lparr>ec_state = Open 9 (stats_new 0), ec_options = example_options\<rparr>\<rparr>)) 5 0 8 8 8 =
      Inr (es', Some 99, evs) \<and> engine_at es' Ref_Default = Some e' \<and> ec_state (en_inner e') = Open 9 s'"
  using open_breaker_fails_fast [of example_shared 5 breaker_id_default
      "engine_put example_engines Ref_Default ((es_default_engine example_engines)
         \<lparr>en_inner := \<lparr>ec_state = Open 9 (stats_new 0), ec_options = example_options\<rparr>\<rparr>)"
      "(es_default_engine example_engines)
         \<lparr>en_inner := \<lparr>ec_state = Open 9 (stats_new 0), ec_options = example_options\<rparr>\<rparr>"
      9 "stats_new 0" 8 Some 0 8 8]
  by (simp add: example_shared_def get_breaker_id_def engine_ref_of_def breaker_id_is_default_def breaker_id_default_def)

end
