(* ===== verification/Retry.thy ===== *)
theory Retry
  imports Backoff Breaker_Service
begin

text \<open>
  The retry middleware (\<open>seatbelt/src/retry\<close>): configuration, builder and the retry loop of
  \<open>service.rs\<close>.

  The inner service is a parameter that maps its own state and an input to the next state and an
  output; the cloning and restoring of inputs and the recovery classifier are functions of
  \<open>retry_shared\<close>. A run returns the events it causes: each execution with the attempt and the input
  it passes on, each telemetry report, each \<open>on_retry\<close> call and each delay. Draws for the jitter are
  indexed by the number of the delay. The loop is total: the attempt index grows up to the maximum.
\<close>

section \<open>Configuration\<close>

definition DEFAULT_RETRY_ATTEMPTS :: u32 where
  "DEFAULT_RETRY_ATTEMPTS = 3"

record retry_config =
  rc_enabled :: bool
  rc_backoff_type :: backoff
  rc_base_delay :: duration
  rc_max_delay :: "duration option"
  rc_use_jitter :: bool
  rc_max_retry_attempts :: u32
  rc_handle_unavailable :: bool

definition retry_config_default :: retry_config where
  "retry_config_default =
     \<lparr>rc_enabled = True, rc_backoff_type = BO_Exponential, rc_base_delay = 10000000, rc_max_delay = None,
      rc_use_jitter = True, rc_max_retry_attempts = DEFAULT_RETRY_ATTEMPTS, rc_handle_unavailable = False\<rparr>"

record ('i, 'o) retry_shared =
  rs_max_attempts :: u32
  rs_backoff :: backoff_options
  rs_clone_input :: "'i \<Rightarrow> attempt \<Rightarrow> recovery_info option \<Rightarrow> 'i \<times> 'i option"
  rs_should_recover :: "'o \<Rightarrow> attempt \<Rightarrow> recovery_info"
  rs_on_retry :: bool
  rs_enable_if :: "'i enable_if"
  rs_telemetry :: telemetry_helper
  rs_restore_input :: "('o \<Rightarrow> attempt \<Rightarrow> recovery_info \<Rightarrow> 'o \<times> 'i option) option"
  rs_handle_unavailable :: bool

record ('i, 'o) retry_layer =
  rl_max_attempts :: u32
  rl_backoff :: backoff_options
  rl_clone_input :: "('i \<Rightarrow> attempt \<Rightarrow> recovery_info option \<Rightarrow> 'i \<times> 'i option) option"
  rl_should_recover :: "('o \<Rightarrow> attempt \<Rightarrow> recovery_info) option"
  rl_on_retry :: bool
  rl_enable_if :: "'i enable_if"
  rl_telemetry :: telemetry_helper
  rl_restore_input :: "('o \<Rightarrow> attempt \<Rightarrow> recovery_info \<Rightarrow> 'o \<times> 'i option) option"
  rl_handle_unavailable :: bool

definition retry_layer_new :: "telemetry_helper \<Rightarrow> ('i, 'o) retry_layer" where
  "retry_layer_new telemetry =
     \<lparr>rl_max_attempts = saturating_add DEFAULT_RETRY_ATTEMPTS 1, rl_backoff = backoff_options_default,
      rl_clone_input = None, rl_should_recover = None, rl_on_retry = False, rl_enable_if = EI_Enabled,
      rl_telemetry = telemetry, rl_restore_input = None, rl_handle_unavailable = False\<rparr>"

definition layer_max_retry_attempts :: "u32 \<Rightarrow> ('i, 'o) retry_layer \<Rightarrow> ('i, 'o) retry_layer" where
  "layer_max_retry_attempts max_attempts l = l\<lparr>rl_max_attempts := saturating_add max_attempts 1\<rparr>"

definition retry_layer_config :: "retry_config \<Rightarrow> ('i, 'o) retry_layer \<Rightarrow> ('i, 'o) retry_layer" where
  "retry_layer_config config l =
     (let l1 = l\<lparr>rl_backoff := (rl_backoff l)\<lparr>bo_backoff_type := rc_backoff_type config,
                   bo_base_delay := rc_base_delay config, bo_use_jitter := rc_use_jitter config\<rparr>\<rparr>;
          l2 = layer_max_retry_attempts (rc_max_retry_attempts config) l1;
          l3 = l2\<lparr>rl_backoff := (rl_backoff l2)\<lparr>bo_max_delay := rc_max_delay config\<rparr>\<rparr>
      in l3\<lparr>rl_handle_unavailable := rc_handle_unavailable config,
            rl_enable_if := enable_if_new (rc_enabled config)\<rparr>)"

definition retry_layer_build :: "('i, 'o) retry_layer \<Rightarrow> ('i, 'o) retry_shared panicking" where
  "retry_layer_build l =
     panic_bind (expect_some (rl_clone_input l) ''enforced by the type state pattern'') (\<lambda>clone_input.
     panic_bind (expect_some (rl_should_recover l) ''enforced by the type state pattern'') (\<lambda>should_recover.
       Inr \<lparr>rs_max_attempts = rl_max_attempts l, rs_backoff = rl_backoff l, rs_clone_input = clone_input,
            rs_should_recover = should_recover, rs_on_retry = rl_on_retry l, rs_enable_if = rl_enable_if l,
            rs_telemetry = rl_telemetry l, rs_restore_input = rl_restore_input l,
            rs_handle_unavailable = rl_handle_unavailable l\<rparr>))"

section \<open>Evaluating an attempt\<close>

datatype ('i, 'o) retry_event =
    RE_Execute attempt 'i
  | RE_Log string string u32 bool duration recovery_kind
  | RE_Metric string string u32 bool string
  | RE_OnRetry 'o attempt duration recovery_info
  | RE_Delay duration

definition retry_clone_input ::
  "('i, 'o) retry_shared \<Rightarrow> 'i \<Rightarrow> attempt \<Rightarrow> recovery_info option \<Rightarrow> 'i option \<times> 'i" where
  "retry_clone_input sh input attempt previous_recovery =
     (case rs_clone_input sh input attempt previous_recovery of
        (input', Some cloned) \<Rightarrow> (Some input', cloned)
      | (input', None) \<Rightarrow> (None, input'))"

definition retry_is_recoverable :: "('i, 'o) retry_shared \<Rightarrow> recovery_info \<Rightarrow> bool" where
  "retry_is_recoverable sh recovery =
     (case ri_kind recovery of
        RK_Unavailable \<Rightarrow> rs_handle_unavailable sh
      | RK_Retry \<Rightarrow> True
      | _ \<Rightarrow> False)"

definition try_restore_input ::
  "('i, 'o) retry_shared \<Rightarrow> 'i option \<Rightarrow> 'o \<Rightarrow> attempt \<Rightarrow> recovery_info \<Rightarrow> 'o \<times> 'i option" where
  "try_restore_input sh original_input out attempt recovery =
     (if original_input \<noteq> None then (out, None)
      else case rs_restore_input sh of
             Some restore \<Rightarrow> restore out attempt recovery
           | None \<Rightarrow> (out, None))"

definition invoke_on_retry ::
  "('i, 'o) retry_shared \<Rightarrow> 'o \<Rightarrow> attempt \<Rightarrow> duration \<Rightarrow> recovery_info \<Rightarrow> ('i, 'o) retry_event list" where
  "invoke_on_retry sh out attempt retry_delay recovery =
     (if rs_on_retry sh then [RE_OnRetry out attempt retry_delay recovery] else [])"

definition retry_emit_telemetry ::
  "('i, 'o) retry_shared \<Rightarrow> attempt \<Rightarrow> duration \<Rightarrow> recovery_kind \<Rightarrow> ('i, 'o) retry_event list" where
  "retry_emit_telemetry sh attempt retry_delay kind =
     (let t = rs_telemetry sh
      in (if th_logs_enabled t
          then [RE_Log (th_pipeline_name t) (th_strategy_name t) (at_index attempt) (at_is_last attempt) retry_delay kind]
          else []) @
         (if th_metrics_enabled t
          then [RE_Metric (th_pipeline_name t) (th_strategy_name t) (at_index attempt) (at_is_last attempt)
                  (recovery_kind_as_str kind)]
          else []))"

definition compute_retry_delay ::
  "float_fns \<Rightarrow> recovery_info \<Rightarrow> delays_iter \<Rightarrow> f64 \<Rightarrow> delays_iter \<times> duration" where
  "compute_retry_delay fns recovery delays rnd =
     (let (delays', backoff_delay) = delays_next fns delays rnd
      in (delays', case ri_get_delay recovery of Some d \<Rightarrow> d | None \<Rightarrow> backoff_delay))"

record 'i continue_retry =
  cr_input :: 'i
  cr_attempt :: attempt
  cr_recovery :: recovery_info
  cr_delay :: duration

definition evaluate_attempt ::
  "float_fns \<Rightarrow> ('i, 'o) retry_shared \<Rightarrow> 'i option \<Rightarrow> 'o \<Rightarrow> attempt \<Rightarrow> delays_iter \<Rightarrow> f64 \<Rightarrow>
   delays_iter \<times> ('o, 'i continue_retry) control_flow \<times> ('i, 'o) retry_event list" where
  "evaluate_attempt fns sh original_input out attempt delays rnd =
     (let recovery = rs_should_recover sh out attempt
      in if \<not> retry_is_recoverable sh recovery then (delays, CF_Break out, [])
         else case attempt_increment attempt (rs_max_attempts sh) of
                None \<Rightarrow> (delays, CF_Break out, retry_emit_telemetry sh attempt 0 (ri_kind recovery))
              | Some next_attempt \<Rightarrow>
                  let (delays', retry_delay) = compute_retry_delay fns recovery delays rnd;
                      evs = retry_emit_telemetry sh attempt retry_delay (ri_kind recovery);
                      (out', restored) = try_restore_input sh original_input out attempt recovery
                  in case (case restored of Some input \<Rightarrow> Some input | None \<Rightarrow> original_input) of
                       Some input \<Rightarrow>
                         (delays',
                          CF_Continue \<lparr>cr_input = input, cr_attempt = next_attempt, cr_recovery = recovery,
                            cr_delay = retry_delay\<rparr>,
                          evs @ invoke_on_retry sh out' attempt retry_delay recovery)
                     | None \<Rightarrow> (delays', CF_Break out', evs))"

lemma evaluate_attempt_Continue:
  assumes "evaluate_attempt fns sh orig out a delays rnd = (delays', CF_Continue st, evs)"
  shows "attempt_increment a (rs_max_attempts sh) = Some (cr_attempt st)"
    and "retry_is_recoverable sh (rs_should_recover sh out a)"
    and "cr_recovery st = rs_should_recover sh out a"
    and "compute_retry_delay fns (rs_should_recover sh out a) delays rnd = (delays', cr_delay st)"
  using assms
  by (auto simp: evaluate_attempt_def Let_def case_prod_beta split: if_splits option.splits)

lemma attempt_increment_less:
  "attempt_increment a m = Some a' \<Longrightarrow> unat m - unat (at_index a') < unat m - unat (at_index a)"
  using attempt_increment_Some [of a m a'] by simp

section \<open>The retry loop\<close>

function retry_loop ::
  "float_fns \<Rightarrow> ('i, 'o) retry_shared \<Rightarrow> ('w \<Rightarrow> 'i \<Rightarrow> 'w \<times> 'o) \<Rightarrow> (nat \<Rightarrow> f64) \<Rightarrow> 'w \<Rightarrow> 'i \<Rightarrow> attempt \<Rightarrow>
   delays_iter \<Rightarrow> recovery_info option \<Rightarrow> 'w \<times> 'o \<times> ('i, 'o) retry_event list" where
  "retry_loop fns sh inner draws w input attempt delays previous_recovery =
     (let (original_input, attempt_input) = retry_clone_input sh input attempt previous_recovery;
          (w', out) = inner w attempt_input
      in case evaluate_attempt fns sh original_input out attempt delays (draws (unat (at_index attempt))) of
           (delays', CF_Continue st, evs) \<Rightarrow>
             let (w'', out', evs') = retry_loop fns sh inner draws w' (cr_input st) (cr_attempt st) delays'
                                       (Some (cr_recovery st))
             in (w'', out', RE_Execute attempt attempt_input # evs @ RE_Delay (cr_delay st) # evs')
         | (delays', CF_Break out', evs) \<Rightarrow> (w', out', RE_Execute attempt attempt_input # evs))"
  by pat_completeness auto

termination
  by (relation "measure (\<lambda>(fns, sh, inner, draws, w, input, attempt, delays, prev).
        unat (rs_max_attempts sh) - unat (at_index attempt))")
     (auto dest!: attempt_increment_less [OF evaluate_attempt_Continue(1) [OF sym]])

declare retry_loop.simps [simp del]

definition retry_execute ::
  "float_fns \<Rightarrow> ('i, 'o) retry_shared \<Rightarrow> ('w \<Rightarrow> 'i \<Rightarrow> 'w \<times> 'o) \<Rightarrow> (nat \<Rightarrow> f64) \<Rightarrow> 'w \<Rightarrow> 'i \<Rightarrow>
   'w \<times> 'o \<times> ('i, 'o) retry_event list" where
  "retry_execute fns sh inner draws w input =
     (if \<not> enable_if_call (rs_enable_if sh) input then let (w', out) = inner w input in (w', out, [])
      else retry_loop fns sh inner draws w input (attempt_first (rs_max_attempts sh))
             (backoff_delays (rs_backoff sh)) None)"

section \<open>The attempts of a run\<close>

fun attempts_of :: "('i, 'o) retry_event list \<Rightarrow> attempt list" where
  "attempts_of [] = []"
| "attempts_of (RE_Execute a input # evs) = a # attempts_of evs"
| "attempts_of (ev # evs) = attempts_of evs"

fun delays_of :: "('i, 'o) retry_event list \<Rightarrow> duration list" where
  "delays_of [] = []"
| "delays_of (RE_Delay d # evs) = d # delays_of evs"
| "delays_of (ev # evs) = delays_of evs"

lemma attempts_of_append [simp]: "attempts_of (xs @ ys) = attempts_of xs @ attempts_of ys"
  by (induction xs rule: attempts_of.induct) simp_all

lemma delays_of_append [simp]: "delays_of (xs @ ys) = delays_of xs @ delays_of ys"
  by (induction xs rule: delays_of.induct) simp_all

lemma evaluate_attempt_silent:
  assumes "evaluate_attempt fns sh orig out a delays rnd = (delays', flow, evs)"
  shows "attempts_of evs = [] \<and> delays_of evs = []"
proof -
  have t: "attempts_of (retry_emit_telemetry sh a d k) = [] \<and> delays_of (retry_emit_telemetry sh a d k) = []" for d k
    by (simp add: retry_emit_telemetry_def Let_def)
  have r: "attempts_of (invoke_on_retry sh o' a d ri) = [] \<and> delays_of (invoke_on_retry sh o' a d ri) = []" for o' d ri
    by (simp add: invoke_on_retry_def)
  from assms show ?thesis
    by (auto simp: evaluate_attempt_def Let_def case_prod_beta t r split: if_splits option.splits)
qed

definition nth_attempt :: "u32 \<Rightarrow> nat \<Rightarrow> attempt" where
  "nth_attempt m k = attempt_new (of_nat k) (k + 1 = unat m)"

lemma attempt_first_nth: "attempt_first m = nth_attempt m 0"
  by (simp add: attempt_first_def nth_attempt_def word_unat_eq_iff eq_commute)

lemma nth_attempt_increment:
  assumes "attempt_increment (nth_attempt m k) m = Some a'" "k < 2 ^ 32"
  shows "a' = nth_attempt m (k + 1)" "k + 1 < unat m"
proof -
  have k: "unat (at_index (nth_attempt m k)) = k"
    using assms(2) by (simp add: nth_attempt_def attempt_new_def unat_of_nat_small)
  note inc = attempt_increment_Some [OF assms(1), unfolded k]
  show "k + 1 < unat m" using inc by simp
  then have "unat (of_nat (k + 1) :: u32) = k + 1"
    using unat_u32_less [of m] by (intro unat_of_nat_small) simp
  then show "a' = nth_attempt m (k + 1)"
    using inc by (cases a') (simp add: nth_attempt_def attempt_new_def word_unat_eq_iff del: of_nat_add)
qed

text \<open>One turn of the loop.\<close>

lemma retry_loop_turn:
  obtains (stop) orig ainput w' out delays' out' evs where
      "retry_clone_input sh input a prev = (orig, ainput)" "inner w ainput = (w', out)"
      "evaluate_attempt fns sh orig out a delays (draws (unat (at_index a))) = (delays', CF_Break out', evs)"
      "retry_loop fns sh inner draws w input a delays prev = (w', out', RE_Execute a ainput # evs)"
    | (continue) orig ainput w' out delays' st evs w'' out' evs' where
      "retry_clone_input sh input a prev = (orig, ainput)" "inner w ainput = (w', out)"
      "evaluate_attempt fns sh orig out a delays (draws (unat (at_index a))) = (delays', CF_Continue st, evs)"
      "retry_loop fns sh inner draws w' (cr_input st) (cr_attempt st) delays' (Some (cr_recovery st)) = (w'', out', evs')"
      "retry_loop fns sh inner draws w input a delays prev =
         (w'', out', RE_Execute a ainput # evs @ RE_Delay (cr_delay st) # evs')"
proof -
  obtain orig ainput where c: "retry_clone_input sh input a prev = (orig, ainput)" by force
  obtain w' out where i: "inner w ainput = (w', out)" by force
  obtain delays' flow evs where
    e: "evaluate_attempt fns sh orig out a delays (draws (unat (at_index a))) = (delays', flow, evs)"
    by (cases rule: prod_cases3)
  show ?thesis
  proof (cases flow)
    case (CF_Continue st)
    obtain w'' out' evs' where "retry_loop fns sh inner draws w' (cr_input st) (cr_attempt st) delays'
      (Some (cr_recovery st)) = (w'', out', evs')" by (cases rule: prod_cases3)
    with c i e CF_Continue show ?thesis
      by (intro continue) (simp_all add: retry_loop.simps [of fns sh inner draws w input])
  next
    case (CF_Break out')
    with c i e show ?thesis by (intro stop) (simp_all add: retry_loop.simps [of fns sh inner draws w input])
  qed
qed

lemma retry_loop_attempts:
  assumes "retry_loop fns sh inner draws w input (nth_attempt (rs_max_attempts sh) k) delays prev = (w', out, evs)"
    "k < 2 ^ 32"
  shows "\<exists>n. 1 \<le> n \<and> k + n \<le> max (k + 1) (unat (rs_max_attempts sh)) \<and>
    attempts_of evs = map (nth_attempt (rs_max_attempts sh)) [k ..< k + n] \<and> length (delays_of evs) = n - 1"
  using assms
proof (induction "unat (rs_max_attempts sh) - k" arbitrary: k w input delays prev w' out evs rule: less_induct)
  case less
  let ?m = "rs_max_attempts sh"
  show ?case
  proof (cases rule: retry_loop_turn [of sh input "nth_attempt ?m k" prev inner w fns delays draws])
    case (stop orig ainput w1 out1 delays' out' evs1)
    with less.prems evaluate_attempt_silent [OF stop(3)] show ?thesis by (intro exI [of _ 1]) auto
  next
    case (continue orig ainput w1 out1 delays' st evs1 w2 out2 evs2)
    note inc = nth_attempt_increment [OF evaluate_attempt_Continue(1) [OF continue(3)] less.prems(2)]
    have "k + 1 < 2 ^ 32" "unat ?m - (k + 1) < unat ?m - k" using inc(2) unat_u32_less [of ?m] by linarith+
    from less.hyps [OF this(2) continue(4) [unfolded inc(1)] this(1)] obtain n where
      n: "1 \<le> n" "k + 1 + n \<le> max (k + 1 + 1) (unat ?m)"
      "attempts_of evs2 = map (nth_attempt ?m) [k + 1 ..< k + 1 + n]" "length (delays_of evs2) = n - 1" by blast
    have "[k ..< k + (n + 1)] = k # [k + 1 ..< k + 1 + n]" by (simp add: upt_rec)
    with n inc(2) less.prems(1) continue(5) evaluate_attempt_silent [OF continue(3)] show ?thesis
      by (intro exI [of _ "n + 1"]) auto
  qed
qed

section \<open>A reference specification\<close>

text \<open>
  With inputs that can be cloned, a run executes the same input again until an output need not be
  retried or the attempts are used up.
\<close>

fun retry_spec ::
  "('i, 'o) retry_shared \<Rightarrow> ('w \<Rightarrow> 'i \<Rightarrow> 'w \<times> 'o) \<Rightarrow> 'i \<Rightarrow> nat \<Rightarrow> nat \<Rightarrow> 'w \<Rightarrow> 'w \<times> 'o" where
  "retry_spec sh inner input k remaining w =
     (let (w', out) = inner w input
      in case remaining of
           0 \<Rightarrow> (w', out)
         | Suc r \<Rightarrow>
             if retry_is_recoverable sh (rs_should_recover sh out (nth_attempt (rs_max_attempts sh) k))
             then retry_spec sh inner input (k + 1) r w' else (w', out))"

declare retry_spec.simps [simp del]

definition clones_input :: "('i, 'o) retry_shared \<Rightarrow> bool" where
  "clones_input sh \<longleftrightarrow> rs_clone_input sh = (\<lambda>input a prev. (input, Some input))"

lemma evaluate_attempt_cloned:
  "evaluate_attempt fns sh (Some input) out a delays rnd =
     (let recovery = rs_should_recover sh out a
      in if \<not> retry_is_recoverable sh recovery then (delays, CF_Break out, [])
         else case attempt_increment a (rs_max_attempts sh) of
                None \<Rightarrow> (delays, CF_Break out, retry_emit_telemetry sh a 0 (ri_kind recovery))
              | Some a' \<Rightarrow> let (delays', d) = compute_retry_delay fns recovery delays rnd
                  in (delays', CF_Continue \<lparr>cr_input = input, cr_attempt = a', cr_recovery = recovery, cr_delay = d\<rparr>,
                      retry_emit_telemetry sh a d (ri_kind recovery) @ invoke_on_retry sh out a d recovery))"
  by (simp add: evaluate_attempt_def Let_def try_restore_input_def case_prod_beta split: option.split)

lemma retry_loop_spec:
  assumes "clones_input sh" "k < 2 ^ 32"
    "retry_loop fns sh inner draws w input (nth_attempt (rs_max_attempts sh) k) delays prev = (w', out, evs)"
  shows "(w', out) = retry_spec sh inner input k (unat (rs_max_attempts sh) - (k + 1)) w"
  using assms(2,3)
proof (induction "unat (rs_max_attempts sh) - k" arbitrary: k w delays prev w' out evs rule: less_induct)
  case less
  let ?m = "rs_max_attempts sh"
  let ?a = "nth_attempt ?m k"
  note loop_eq = retry_loop.simps [of fns sh inner draws w input ?a delays prev]
    and spec_eq = retry_spec.simps [of sh inner input k]
  have clone: "retry_clone_input sh input ?a prev = (Some input, input)"
    using assms(1) by (simp add: retry_clone_input_def clones_input_def)
  obtain w1 out1 where i: "inner w input = (w1, out1)" by force
  let ?rec = "retry_is_recoverable sh (rs_should_recover sh out1 ?a)"
  have k: "unat (at_index ?a) = k" using less.prems(1) by (simp add: nth_attempt_def attempt_new_def unat_of_nat_small)
  show ?case
  proof (cases "attempt_increment ?a ?m")
    case None
    then have "unat ?m - (k + 1) = 0" using attempt_increment_None [of ?a ?m] k by simp
    then show ?thesis using less.prems(2) clone i None
      by (simp add: loop_eq spec_eq evaluate_attempt_cloned Let_def split: if_splits)
  next
    case (Some a')
    note inc = nth_attempt_increment [OF Some less.prems(1)]
    then have r: "unat ?m - (k + 1) = Suc (unat ?m - (k + 1 + 1))" by simp
    show ?thesis
    proof (cases ?rec)
      case False
      then show ?thesis using less.prems(2) clone i unfolding r
        by (simp add: loop_eq spec_eq evaluate_attempt_cloned)
    next
      case True
      obtain delays' d where d: "compute_retry_delay fns (rs_should_recover sh out1 ?a) delays (draws k) = (delays', d)"
        by force
      obtain w2 out2 evs2 where loop: "retry_loop fns sh inner draws w1 input (nth_attempt ?m (k + 1)) delays'
        (Some (rs_should_recover sh out1 ?a)) = (w2, out2, evs2)" by (cases rule: prod_cases3)
      have "(w', out) = (w2, out2)"
        using less.prems(2) clone i True Some d loop k inc(1)
        by (simp add: loop_eq evaluate_attempt_cloned Let_def)
      moreover have "k + 1 < 2 ^ 32" using inc(2) unat_u32_less [of ?m] by linarith
      then have "(w2, out2) = retry_spec sh inner input (k + 1) (unat ?m - (k + 1 + 1)) w1"
        using inc(2) by (intro less.hyps [OF _ _ loop]) linarith+
      ultimately show ?thesis using i True unfolding r by (simp add: spec_eq)
    qed
  qed
qed

lemma retry_loop_delays:
  assumes "\<forall>out a. ri_get_delay (rs_should_recover sh out a) = None" "k < 2 ^ 32"
    "retry_loop fns sh inner draws w input (nth_attempt (rs_max_attempts sh) k) delays prev = (w', out, evs)"
  shows "delays_of evs = take_delays fns delays (map draws [k ..< k + length (delays_of evs)])"
  using assms(2,3)
proof (induction "unat (rs_max_attempts sh) - k" arbitrary: k w input delays prev w' out evs rule: less_induct)
  case less
  let ?m = "rs_max_attempts sh"
  show ?case
  proof (cases rule: retry_loop_turn [of sh input "nth_attempt ?m k" prev inner w fns delays draws])
    case (stop orig ainput w1 out1 delays' out' evs1)
    with less.prems evaluate_attempt_silent [OF stop(3)] show ?thesis by auto
  next
    case (continue orig ainput w1 out1 delays' st evs1 w2 out2 evs2)
    note inc = nth_attempt_increment [OF evaluate_attempt_Continue(1) [OF continue(3)] less.prems(1)]
    have "k + 1 < 2 ^ 32" "unat ?m - (k + 1) < unat ?m - k" using inc(2) unat_u32_less [of ?m] by linarith+
    note IH = less.hyps [OF this(2,1) continue(4) [unfolded inc(1)]]
    have "unat (at_index (nth_attempt ?m k)) = k"
      using less.prems(1) by (simp add: nth_attempt_def attempt_new_def unat_of_nat_small)
    then have "delays_next fns delays (draws k) = (delays', cr_delay st)"
      using evaluate_attempt_Continue(4) [OF continue(3)] assms(1)
      by (simp add: compute_retry_delay_def case_prod_beta prod_eq_iff)
    moreover have "delays_of evs = cr_delay st # delays_of evs2"
      using less.prems(2) continue(5) evaluate_attempt_silent [OF continue(3)] by auto
    moreover have "[k ..< k + Suc (length (delays_of evs2))] = k # [k + 1 ..< k + 1 + length (delays_of evs2)]"
      by (simp add: upt_rec)
    ultimately show ?thesis using IH by simp
  qed
qed

section \<open>Properties\<close>

definition example_retry_layer :: "(nat, nat) retry_layer" where
  "example_retry_layer = (retry_layer_new example_telemetry)
     \<lparr>rl_clone_input := Some (\<lambda>input a prev. (input, Some input)),
      rl_should_recover := Some (\<lambda>out a. if out = 0 then ri_never else ri_retry),
      rl_backoff := backoff_options_default\<lparr>bo_use_jitter := False\<rparr>\<rparr>"

definition example_retry_shared :: "(nat, nat) retry_shared" where
  "example_retry_shared = \<lparr>rs_max_attempts = 4, rs_backoff = backoff_options_default,
     rs_clone_input = (\<lambda>input a prev. (input, Some input)),
     rs_should_recover = (\<lambda>out a. if out = 0 then ri_never else ri_retry), rs_on_retry = False,
     rs_enable_if = EI_Enabled, rs_telemetry = example_telemetry, rs_restore_input = None,
     rs_handle_unavailable = False\<rparr>"

lemma example_retry_build:
  "retry_layer_build (retry_layer_config retry_config_default example_retry_layer) = Inr example_retry_shared"
  by (simp add: retry_layer_build_def retry_layer_config_def retry_config_default_def example_retry_layer_def
      retry_layer_new_def layer_max_retry_attempts_def DEFAULT_RETRY_ATTEMPTS_def saturating_add_def
      backoff_options_default_def enable_if_new_def example_retry_shared_def Let_def)

text \<open>
  C21. A configured retry executes the inner service at least once and at most once more than the
  configured number of retries; the attempts it reports are numbered consecutively from zero, only
  the one with the last possible number is marked as the last, and there is one delay between two
  executions.
\<close>

theorem retry_attempts_consecutive:
  assumes "retry_layer_build (retry_layer_config config l) = Inr sh"
    and "enable_if_call (rs_enable_if sh) input"
    and "retry_execute fns sh inner draws w input = (w', out, evs)"
  shows "\<exists>n. 1 \<le> n \<and> n \<le> unat (rc_max_retry_attempts config) + 1 \<and>
    attempts_of evs = map (nth_attempt (rs_max_attempts sh)) [0 ..< n] \<and> length (delays_of evs) = n - 1"
proof -
  have m: "rs_max_attempts sh = saturating_add (rc_max_retry_attempts config) 1"
    using assms(1) by (auto simp: retry_layer_build_def retry_layer_config_def layer_max_retry_attempts_def Let_def
        panic_bind_eq_Inr)
  have "retry_loop fns sh inner draws w input (nth_attempt (rs_max_attempts sh) 0)
      (backoff_delays (rs_backoff sh)) None = (w', out, evs)"
    using assms(2,3) by (simp add: retry_execute_def attempt_first_nth)
  from retry_loop_attempts [OF this] obtain n where "1 \<le> n" "n \<le> max 1 (unat (rs_max_attempts sh))"
    "attempts_of evs = map (nth_attempt (rs_max_attempts sh)) [0 ..< n]" "length (delays_of evs) = n - 1" by auto
  then show ?thesis by (intro exI [of _ n]) (simp add: m word_arith_simps)
qed

theorem retry_attempts_consecutive_witness:
  "\<exists>n w' out evs. retry_execute \<lparr>ff_exp2 = id, ff_sqrt = id, ff_tanh = id\<rparr> example_retry_shared
      (\<lambda>w input. (w + 1 :: nat, input)) (\<lambda>i. 0) 0 7 = (w', out, evs) \<and> 1 \<le> n \<and> n \<le> (4 :: nat) \<and>
    attempts_of evs = map (nth_attempt 4) [0 ..< n]"
proof -
  obtain w' out evs where run: "retry_execute \<lparr>ff_exp2 = id, ff_sqrt = id, ff_tanh = id\<rparr> example_retry_shared
      (\<lambda>w input. (w + 1 :: nat, input)) (\<lambda>i. 0) 0 7 = (w', out, evs)" by (cases rule: prod_cases3)
  have e: "enable_if_call (rs_enable_if example_retry_shared) 7" "rs_max_attempts example_retry_shared = 4"
    by (simp_all add: example_retry_shared_def)
  from retry_attempts_consecutive [OF example_retry_build e(1) run] obtain n where
    "1 \<le> n" "n \<le> 4" "attempts_of evs = map (nth_attempt 4) [0 ..< n]"
    by (auto simp: e retry_config_default_def DEFAULT_RETRY_ATTEMPTS_def)
  with run show ?thesis by blast
qed

text \<open>
  C20. The retry loop implements its specification: if inputs are cloned, the final state and output
  are those of executing the same input until an output is not recoverable or \<open>max_attempts\<close>
  executions, at least one, are done. Telemetry, callbacks, delays and draws do not matter.
\<close>

theorem retry_refines_spec:
  assumes "clones_input sh" and "enable_if_call (rs_enable_if sh) input"
    and "retry_execute fns sh inner draws w input = (w', out, evs)"
  shows "(w', out) = retry_spec sh inner input 0 (unat (rs_max_attempts sh) - 1) w"
  using retry_loop_spec [OF assms(1), of 0 fns inner draws w input] assms(2,3)
  by (simp add: retry_execute_def attempt_first_nth)

theorem retry_refines_spec_witness:
  "\<exists>evs. retry_execute \<lparr>ff_exp2 = id, ff_sqrt = id, ff_tanh = id\<rparr> example_retry_shared
      (\<lambda>w input. (w + 1, if w = 2 then 0 else input)) (\<lambda>i. 0) (0 :: nat) 7 = (3, 0, evs)"
proof -
  let ?inner = "\<lambda>w input. (w + 1, if w = 2 then 0 else input)"
  obtain w' out evs where run: "retry_execute \<lparr>ff_exp2 = id, ff_sqrt = id, ff_tanh = id\<rparr> example_retry_shared
      ?inner (\<lambda>i. 0) (0 :: nat) 7 = (w', out, evs)" by (cases rule: prod_cases3)
  have "retry_spec example_retry_shared ?inner 7 0 (Suc (Suc (Suc 0))) (0 :: nat) = (3, 0)"
    by (simp add: retry_spec.simps example_retry_shared_def retry_is_recoverable_def ri_retry_def ri_never_def)
  then show ?thesis
    using retry_refines_spec [OF _ _ run] run
    by (simp add: clones_input_def example_retry_shared_def numeral_3_eq_3)
qed

text \<open>
  C22. The delays follow the backoff: when the outputs name no delay of their own, the delays of a run
  are, in order, the first delays of the configured backoff.
\<close>

theorem retry_delays_follow_backoff:
  assumes "\<forall>out a. ri_get_delay (rs_should_recover sh out a) = None"
    and "retry_execute fns sh inner draws w input = (w', out, evs)"
  shows "delays_of evs = take_delays fns (backoff_delays (rs_backoff sh)) (map draws [0 ..< length (delays_of evs)])"
  using retry_loop_delays [OF assms(1), of 0 fns inner draws w input "backoff_delays (rs_backoff sh)" None w' out evs]
    assms(2)
  by (auto simp: retry_execute_def attempt_first_nth case_prod_beta split: if_splits)

theorem retry_delays_follow_backoff_witness:
  "\<exists>w' out evs. retry_execute \<lparr>ff_exp2 = id, ff_sqrt = id, ff_tanh = id\<rparr> example_retry_shared
      (\<lambda>w input. (w, input)) (\<lambda>i. 0) () 7 = (w', out, evs) \<and>
    delays_of evs = take_delays \<lparr>ff_exp2 = id, ff_sqrt = id, ff_tanh = id\<rparr>
      (backoff_delays backoff_options_default) (map (\<lambda>i. 0) [0 ..< length (delays_of evs)])"
proof -
  obtain w' out evs where run: "retry_execute \<lparr>ff_exp2 = id, ff_sqrt = id, ff_tanh = id\<rparr> example_retry_shared
      (\<lambda>w input. (w, input)) (\<lambda>i. 0) () 7 = (w', out, evs)" by (cases rule: prod_cases3)
  from retry_delays_follow_backoff [OF _ run] run show ?thesis
    by (simp add: example_retry_shared_def ri_get_delay_def ri_retry_def ri_never_def)
qed

end
