(* ===== verification/Hedging.thy ===== *)
theory Hedging
  imports Retry
begin

text \<open>
  The hedging middleware (\<open>seatbelt/src/hedging\<close>): configuration, builder, the loop that races
  attempts against a delay, and the telemetry guard of an attempt.

  The futures in flight are the list of their guards. What the executor decides is the schedule, a
  parameter: at its \<open>n\<close>-th turn it says whether the delay expires first, and otherwise which future
  completes and with which output; outputs are arbitrary. \<open>FuturesUnordered::next\<close> on no futures
  resolves at once to \<open>None\<close> and wins the race, since \<open>select\<close> polls it first. A run returns its
  output and the events it causes; the dropped futures are those left when it returns.
\<close>

section \<open>Configuration\<close>

definition DEFAULT_MAX_HEDGED_ATTEMPTS :: u8 where
  "DEFAULT_MAX_HEDGED_ATTEMPTS = 1"

definition DEFAULT_HEDGING_DELAY :: duration where
  "DEFAULT_HEDGING_DELAY = 500000000"

record hedging_config =
  hc_enabled :: bool
  hc_hedging_delay :: duration
  hc_max_hedged_attempts :: u8
  hc_handle_unavailable :: bool

definition hedging_config_default :: hedging_config where
  "hedging_config_default =
     \<lparr>hc_enabled = True, hc_hedging_delay = DEFAULT_HEDGING_DELAY,
      hc_max_hedged_attempts = DEFAULT_MAX_HEDGED_ATTEMPTS, hc_handle_unavailable = False\<rparr>"

record ('i, 'o) hedging_layer =
  hl_max_hedged_attempts :: u8
  hl_delay_fn :: "'i \<Rightarrow> attempt \<Rightarrow> duration"
  hl_clone_input :: "('i \<Rightarrow> attempt \<Rightarrow> 'i \<times> 'i option) option"
  hl_should_recover :: "('o \<Rightarrow> attempt \<Rightarrow> recovery_info) option"
  hl_on_execute :: "('i \<Rightarrow> attempt \<Rightarrow> duration \<Rightarrow> 'i) option"
  hl_handle_unavailable :: bool
  hl_enable_if :: "'i enable_if"
  hl_telemetry :: telemetry_helper

definition hedging_layer_new :: "telemetry_helper \<Rightarrow> ('i, 'o) hedging_layer" where
  "hedging_layer_new telemetry =
     \<lparr>hl_max_hedged_attempts = DEFAULT_MAX_HEDGED_ATTEMPTS, hl_delay_fn = (\<lambda>input args. DEFAULT_HEDGING_DELAY),
      hl_clone_input = None, hl_should_recover = None, hl_on_execute = None, hl_handle_unavailable = False,
      hl_enable_if = EI_Enabled, hl_telemetry = telemetry\<rparr>"

definition hedging_layer_config :: "hedging_config \<Rightarrow> ('i, 'o) hedging_layer \<Rightarrow> ('i, 'o) hedging_layer" where
  "hedging_layer_config config l =
     l\<lparr>hl_delay_fn := (\<lambda>input args. hc_hedging_delay config),
       hl_max_hedged_attempts := hc_max_hedged_attempts config,
       hl_handle_unavailable := hc_handle_unavailable config,
       hl_enable_if := enable_if_new (hc_enabled config)\<rparr>"

record ('i, 'o) hedging_shared =
  hs_max_hedged_attempts :: u8
  hs_delay_fn :: "'i \<Rightarrow> attempt \<Rightarrow> duration"
  hs_clone_input :: "'i \<Rightarrow> attempt \<Rightarrow> 'i \<times> 'i option"
  hs_should_recover :: "'o \<Rightarrow> attempt \<Rightarrow> recovery_info"
  hs_on_execute :: "('i \<Rightarrow> attempt \<Rightarrow> duration \<Rightarrow> 'i) option"
  hs_handle_unavailable :: bool
  hs_enable_if :: "'i enable_if"
  hs_telemetry :: telemetry_helper

definition hedging_layer_build :: "('i, 'o) hedging_layer \<Rightarrow> ('i, 'o) hedging_shared panicking" where
  "hedging_layer_build l =
     panic_bind (expect_some (hl_clone_input l) ''clone_input must be set in Ready state'') (\<lambda>clone_input.
     panic_bind (expect_some (hl_should_recover l) ''should_recover must be set in Ready state'') (\<lambda>should_recover.
       Inr \<lparr>hs_max_hedged_attempts = hl_max_hedged_attempts l, hs_delay_fn = hl_delay_fn l,
            hs_clone_input = clone_input, hs_should_recover = should_recover, hs_on_execute = hl_on_execute l,
            hs_handle_unavailable = hl_handle_unavailable l, hs_enable_if = hl_enable_if l,
            hs_telemetry = hl_telemetry l\<rparr>))"

section \<open>The telemetry guard\<close>

record telemetry_guard =
  tg_attempt :: attempt
  tg_hedging_delay :: duration
  tg_recovery_kind :: "recovery_kind option"
  tg_armed :: bool

datatype ('i, 'o) hedge_event =
    HE_Launch attempt 'i
  | HE_Complete attempt 'o
  | HE_Log string string u32 bool string duration
  | HE_Metric string string u32 bool string

definition telemetry_guard_new :: "attempt \<Rightarrow> duration \<Rightarrow> telemetry_guard" where
  "telemetry_guard_new attempt hedging_delay =
     \<lparr>tg_attempt = attempt, tg_hedging_delay = hedging_delay, tg_recovery_kind = None, tg_armed = True\<rparr>"

definition set_recovery_kind :: "recovery_kind \<Rightarrow> telemetry_guard \<Rightarrow> telemetry_guard" where
  "set_recovery_kind kind g = g\<lparr>tg_recovery_kind := Some kind\<rparr>"

definition disarm :: "telemetry_guard \<Rightarrow> telemetry_guard" where
  "disarm g = g\<lparr>tg_armed := False\<rparr>"

definition recovery_kind_str :: "telemetry_guard \<Rightarrow> string" where
  "recovery_kind_str g =
     (case tg_recovery_kind g of None \<Rightarrow> ''abandoned'' | Some kind \<Rightarrow> recovery_kind_as_str kind)"

definition telemetry_guard_emit :: "telemetry_helper \<Rightarrow> telemetry_guard \<Rightarrow> ('i, 'o) hedge_event list" where
  "telemetry_guard_emit t g =
     (if th_logs_enabled t
      then [HE_Log (th_pipeline_name t) (th_strategy_name t) (at_index (tg_attempt g)) (at_is_last (tg_attempt g))
              (recovery_kind_str g) (tg_hedging_delay g)]
      else []) @
     (if th_metrics_enabled t
      then [HE_Metric (th_pipeline_name t) (th_strategy_name t) (at_index (tg_attempt g)) (at_is_last (tg_attempt g))
              (recovery_kind_str g)]
      else [])"

definition telemetry_guard_drop :: "telemetry_helper \<Rightarrow> telemetry_guard \<Rightarrow> ('i, 'o) hedge_event list" where
  "telemetry_guard_drop t g = (if tg_armed g then telemetry_guard_emit t g else [])"

section \<open>The hedging loop\<close>

definition hedge_recovery_kind :: "('i, 'o) hedging_shared \<Rightarrow> 'o \<Rightarrow> attempt \<Rightarrow> recovery_kind option" where
  "hedge_recovery_kind sh out attempt =
     (let recovery = hs_should_recover sh out attempt
      in case ri_kind recovery of
           RK_Unavailable \<Rightarrow> if hs_handle_unavailable sh then Some RK_Unavailable else None
         | RK_Retry \<Rightarrow> Some RK_Retry
         | _ \<Rightarrow> None)"

definition invoke_on_execute :: "('i, 'o) hedging_shared \<Rightarrow> 'i \<Rightarrow> attempt \<Rightarrow> duration \<Rightarrow> 'i" where
  "invoke_on_execute sh input attempt delay =
     (case hs_on_execute sh of None \<Rightarrow> input | Some on_execute \<Rightarrow> on_execute input attempt delay)"

definition launch_hedging_attempt ::
  "('i, 'o) hedging_shared \<Rightarrow> telemetry_guard list \<Rightarrow> 'i \<Rightarrow> attempt \<Rightarrow> duration \<Rightarrow>
   telemetry_guard list \<times> 'i \<times> ('i, 'o) hedge_event list" where
  "launch_hedging_attempt sh futs input attempt hedging_delay =
     (case hs_clone_input sh input attempt of
        (input', Some cloned) \<Rightarrow>
          (futs @ [telemetry_guard_new attempt hedging_delay], input',
           [HE_Launch attempt (invoke_on_execute sh cloned attempt hedging_delay)])
      | (input', None) \<Rightarrow> (futs, input', []))"

datatype 'o select_outcome = SO_Result "('o \<times> telemetry_guard) option" | SO_DelayExpired

type_synonym 'o schedule = "nat \<Rightarrow> bool \<times> nat \<times> 'o"

definition futs_next ::
  "telemetry_guard list \<Rightarrow> nat \<times> 'o \<Rightarrow> ('o \<times> telemetry_guard) option \<times> telemetry_guard list" where
  "futs_next futs turn =
     (if futs = [] then (None, [])
      else let i = fst turn mod length futs
           in (Some (snd turn, futs ! i), take i futs @ drop (Suc i) futs))"

definition hedge_select ::
  "telemetry_guard list \<Rightarrow> bool \<times> nat \<times> 'o \<Rightarrow> 'o select_outcome \<times> telemetry_guard list" where
  "hedge_select futs turn =
     (if futs \<noteq> [] \<and> fst turn then (SO_DelayExpired, futs)
      else let (opt, futs') = futs_next futs (snd turn) in (SO_Result opt, futs'))"

definition drop_futs :: "('i, 'o) hedging_shared \<Rightarrow> telemetry_guard list \<Rightarrow> ('i, 'o) hedge_event list" where
  "drop_futs sh futs = concat (map (telemetry_guard_drop (hs_telemetry sh)) futs)"

definition hedge_finish :: "'o option \<Rightarrow> ('o \<times> ('i, 'o) hedge_event list) panicking" where
  "hedge_finish last_result =
     (case last_result of None \<Rightarrow> Inl ''at least one attempt was launched'' | Some out \<Rightarrow> Inr (out, []))"

definition prepend_events ::
  "('i, 'o) hedge_event list \<Rightarrow> ('o \<times> ('i, 'o) hedge_event list) panicking \<Rightarrow>
   ('o \<times> ('i, 'o) hedge_event list) panicking" where
  "prepend_events evs r = panic_bind r (\<lambda>(out, evs'). Inr (out, evs @ evs'))"

lemma futs_next_Some:
  assumes "futs_next futs turn = (Some (out, g), futs')"
  shows "length futs = Suc (length futs')" "g \<in> set futs" "set futs' \<subseteq> set futs" "out = snd turn"
proof -
  define i where "i = fst turn mod length futs"
  have futs: "futs \<noteq> []" and g: "g = futs ! i" "out = snd turn" and futs': "futs' = take i futs @ drop (Suc i) futs"
    using assms by (auto simp: futs_next_def Let_def i_def split: if_splits)
  have i: "i < length futs" using futs by (simp add: i_def)
  then show "length futs = Suc (length futs')" "g \<in> set futs" "out = snd turn" by (simp_all add: futs' g)
  show "set futs' \<subseteq> set futs" unfolding futs' by (auto dest: in_set_takeD in_set_dropD)
qed

lemma futs_next_None: "futs_next futs turn = (None, futs') \<Longrightarrow> futs = [] \<and> futs' = []"
  by (auto simp: futs_next_def Let_def split: if_splits)

function hedge_drain ::
  "('i, 'o) hedging_shared \<Rightarrow> 'o schedule \<Rightarrow> nat \<Rightarrow> telemetry_guard list \<Rightarrow> 'o option \<Rightarrow>
   ('o \<times> ('i, 'o) hedge_event list) panicking" where
  "hedge_drain sh sched n futs last_result =
     (case futs_next futs (snd (sched n)) of
        (None, futs') \<Rightarrow> hedge_finish last_result
      | (Some (out, guard), futs') \<Rightarrow>
          (case hedge_recovery_kind sh out (tg_attempt guard) of
             None \<Rightarrow>
               Inr (out, HE_Complete (tg_attempt guard) out #
                 telemetry_guard_drop (hs_telemetry sh) (disarm guard) @ drop_futs sh futs')
           | Some kind \<Rightarrow>
               prepend_events
                 (HE_Complete (tg_attempt guard) out #
                  telemetry_guard_drop (hs_telemetry sh) (set_recovery_kind kind guard))
                 (hedge_drain sh sched (n + 1) futs' (Some out))))"
  by pat_completeness auto

termination
  by (relation "measure (\<lambda>(sh, sched, n, futs, last). length futs)")
     (auto dest!: futs_next_Some(1) [OF sym])

declare hedge_drain.simps [simp del]

function run_delay_loop ::
  "('i, 'o) hedging_shared \<Rightarrow> 'o schedule \<Rightarrow> u32 \<Rightarrow> nat \<Rightarrow> telemetry_guard list \<Rightarrow> 'i \<Rightarrow> attempt \<Rightarrow> 'o option \<Rightarrow>
   ('o \<times> ('i, 'o) hedge_event list) panicking" where
  "run_delay_loop sh sched total_attempts n futs input attempt last_result =
     (case attempt_increment attempt total_attempts of
        None \<Rightarrow> hedge_drain sh sched n futs last_result
      | Some next_attempt \<Rightarrow>
          let delay = hs_delay_fn sh input next_attempt
          in case hedge_select futs (sched n) of
               (SO_Result (Some (out, guard)), futs') \<Rightarrow>
                 (case hedge_recovery_kind sh out (tg_attempt guard) of
                    None \<Rightarrow>
                      Inr (out, HE_Complete (tg_attempt guard) out #
                        telemetry_guard_drop (hs_telemetry sh) (disarm guard) @ drop_futs sh futs')
                  | Some kind \<Rightarrow>
                      let (futs'', input', evs) = launch_hedging_attempt sh futs' input next_attempt 0
                      in prepend_events
                           (HE_Complete (tg_attempt guard) out #
                            telemetry_guard_drop (hs_telemetry sh) (set_recovery_kind kind guard) @ evs)
                           (run_delay_loop sh sched total_attempts (n + 1) futs'' input' next_attempt (Some out)))
             | (SO_Result None, futs') \<Rightarrow> hedge_finish last_result
             | (SO_DelayExpired, futs') \<Rightarrow>
                 let (futs'', input', evs) = launch_hedging_attempt sh futs' input next_attempt delay
                 in prepend_events evs
                      (run_delay_loop sh sched total_attempts (n + 1) futs'' input' next_attempt last_result))"
  by pat_completeness auto

termination
  by (relation "measure (\<lambda>(sh, sched, tot, n, futs, input, attempt, last). unat tot - unat (at_index attempt))")
     (auto dest!: attempt_increment_less)

declare run_delay_loop.simps [simp del]

text \<open>
  \<open>bypass\<close> is the output of the inner service when the input cannot be cloned or hedging is disabled.
\<close>

definition run_hedging ::
  "('i, 'o) hedging_shared \<Rightarrow> 'o schedule \<Rightarrow> ('i \<Rightarrow> 'o) \<Rightarrow> 'i \<Rightarrow> ('o \<times> ('i, 'o) hedge_event list) panicking" where
  "run_hedging sh sched bypass input =
     (let total_attempts = saturating_add (ucast (hs_max_hedged_attempts sh)) 1;
          attempt = attempt_new 0 (total_attempts = 1)
      in case hs_clone_input sh input attempt of
           (input', None) \<Rightarrow>
             let launched = invoke_on_execute sh input' attempt 0
             in Inr (bypass launched, [HE_Launch attempt launched])
         | (input', Some first_cloned) \<Rightarrow>
             prepend_events [HE_Launch attempt (invoke_on_execute sh first_cloned attempt 0)]
               (run_delay_loop sh sched total_attempts 0 [telemetry_guard_new attempt 0] input' attempt None))"

definition hedging_execute ::
  "('i, 'o) hedging_shared \<Rightarrow> 'o schedule \<Rightarrow> ('i \<Rightarrow> 'o) \<Rightarrow> 'i \<Rightarrow> ('o \<times> ('i, 'o) hedge_event list) panicking" where
  "hedging_execute sh sched inner input =
     (if \<not> enable_if_call (hs_enable_if sh) input then Inr (inner input, []) else run_hedging sh sched inner input)"

section \<open>What a run reports\<close>

fun launches :: "('i, 'o) hedge_event list \<Rightarrow> attempt list" where
  "launches [] = []"
| "launches (HE_Launch a input # evs) = a # launches evs"
| "launches (ev # evs) = launches evs"

fun completions :: "('i, 'o) hedge_event list \<Rightarrow> (attempt \<times> 'o) list" where
  "completions [] = []"
| "completions (HE_Complete a out # evs) = (a, out) # completions evs"
| "completions (ev # evs) = completions evs"

fun reports :: "('i, 'o) hedge_event list \<Rightarrow> nat" where
  "reports [] = 0"
| "reports (HE_Log p q i l k d # evs) = Suc (reports evs)"
| "reports (ev # evs) = reports evs"

lemma launches_append [simp]: "launches (xs @ ys) = launches xs @ launches ys"
  by (induction xs rule: launches.induct) simp_all

lemma completions_append [simp]: "completions (xs @ ys) = completions xs @ completions ys"
  by (induction xs rule: completions.induct) simp_all

lemma reports_append [simp]: "reports (xs @ ys) = reports xs + reports ys"
  by (induction xs rule: reports.induct) simp_all

lemma telemetry_guard_drop_events [simp]:
  "launches (telemetry_guard_drop t g) = []" "completions (telemetry_guard_drop t g) = []"
  "th_logs_enabled t \<Longrightarrow> reports (telemetry_guard_drop t g) = (if tg_armed g then 1 else 0)"
  by (simp_all add: telemetry_guard_drop_def telemetry_guard_emit_def)

lemma guard_armed [simp]:
  "tg_armed (set_recovery_kind k g) = tg_armed g" "\<not> tg_armed (disarm g)" "tg_armed (telemetry_guard_new a d)"
  by (simp_all add: set_recovery_kind_def disarm_def telemetry_guard_new_def)

lemma drop_futs_events [simp]:
  "launches (drop_futs sh futs) = []" "completions (drop_futs sh futs) = []"
  "th_logs_enabled (hs_telemetry sh) \<Longrightarrow> list_all tg_armed futs \<Longrightarrow> reports (drop_futs sh futs) = length futs"
  by (induction futs) (simp_all add: drop_futs_def)

text \<open>
  The outcome of a run that starts with \<open>n\<close> attempts in flight: either the last completion is the
  first one that is accepted, and it is returned, or all attempts completed, none is accepted, and
  the last one is returned. Every attempt but an accepted one is reported once.
\<close>

definition all_recoverable :: "('i, 'o) hedging_shared \<Rightarrow> (attempt \<times> 'o) list \<Rightarrow> bool" where
  "all_recoverable sh cs \<longleftrightarrow> list_all (\<lambda>(a, out). hedge_recovery_kind sh out a \<noteq> None) cs"

definition hedge_accepted :: "('i, 'o) hedging_shared \<Rightarrow> nat \<Rightarrow> 'o \<Rightarrow> ('i, 'o) hedge_event list \<Rightarrow> bool" where
  "hedge_accepted sh n out evs \<longleftrightarrow>
     (\<exists>cs a. completions evs = cs @ [(a, out)] \<and> all_recoverable sh cs \<and> hedge_recovery_kind sh out a = None) \<and>
     reports evs + 1 = length (launches evs) + n"

definition hedge_exhausted ::
  "('i, 'o) hedging_shared \<Rightarrow> nat \<Rightarrow> 'o option \<Rightarrow> 'o \<Rightarrow> ('i, 'o) hedge_event list \<Rightarrow> bool" where
  "hedge_exhausted sh n last_result out evs \<longleftrightarrow>
     all_recoverable sh (completions evs) \<and> length (completions evs) = length (launches evs) + n \<and>
     reports evs = length (launches evs) + n \<and>
     last (last_result # map (\<lambda>(a, out). Some out) (completions evs)) = Some out"

lemma hedge_finish_ok:
  "last_result \<noteq> None \<Longrightarrow> \<exists>out. hedge_finish last_result = Inr (out, []) \<and> hedge_exhausted sh 0 last_result out []"
  by (auto simp: hedge_finish_def hedge_exhausted_def all_recoverable_def)

lemma hedge_accept_now:
  assumes "futs_next futs turn = (Some (out, g), futs')" "list_all tg_armed futs"
    "hedge_recovery_kind sh out (tg_attempt g) = None" "th_logs_enabled (hs_telemetry sh)"
  shows "hedge_accepted sh (length futs) out (HE_Complete (tg_attempt g) out #
    telemetry_guard_drop (hs_telemetry sh) (disarm g) @ drop_futs sh futs')"
proof -
  have "list_all tg_armed futs'" using futs_next_Some(3) [OF assms(1)] assms(2) by (auto simp: list_all_iff)
  then show ?thesis using assms(3,4) futs_next_Some(1) [OF assms(1)]
    by (auto simp: hedge_accepted_def all_recoverable_def)
qed

lemma prepend_events_Inr [simp]: "prepend_events evs (Inr (out, evs')) = Inr (out, evs @ evs')"
  by (simp add: prepend_events_def)

text \<open>A recoverable completion, possibly with a new launch, before a settled rest.\<close>

lemma hedge_settled_step:
  assumes "hedge_recovery_kind sh out0 a \<noteq> None" "completions evs0 = []" "reports evs0 = 1"
    "hedge_accepted sh m out evs \<or> hedge_exhausted sh m (Some out0) out evs" "m + 1 = n + length (launches evs0)"
  shows "hedge_accepted sh n out (HE_Complete a out0 # evs0 @ evs) \<or>
    hedge_exhausted sh n last_result out (HE_Complete a out0 # evs0 @ evs)"
  using assms(4)
proof
  assume acc: "hedge_accepted sh m out evs"
  then obtain cs b where "completions evs = cs @ [(b, out)]" "all_recoverable sh cs"
    "hedge_recovery_kind sh out b = None" by (auto simp: hedge_accepted_def)
  then have "completions (HE_Complete a out0 # evs0 @ evs) = ((a, out0) # cs) @ [(b, out)]"
    "all_recoverable sh ((a, out0) # cs)" "hedge_recovery_kind sh out b = None"
    using assms(1,2) by (simp_all add: all_recoverable_def)
  moreover have "reports (HE_Complete a out0 # evs0 @ evs) + 1 = length (launches (HE_Complete a out0 # evs0 @ evs)) + n"
    using acc assms(3,5) by (simp add: hedge_accepted_def)
  ultimately show ?thesis unfolding hedge_accepted_def by blast
next
  assume "hedge_exhausted sh m (Some out0) out evs"
  with assms(1-3,5) show ?thesis
    by (intro disjI2) (auto simp: hedge_exhausted_def all_recoverable_def)
qed

lemma hedge_drain_settles:
  assumes "list_all tg_armed futs" "futs \<noteq> [] \<or> last_result \<noteq> None" "th_logs_enabled (hs_telemetry sh)"
  shows "\<exists>out evs. hedge_drain sh sched n futs last_result = Inr (out, evs) \<and> launches evs = [] \<and>
    (hedge_accepted sh (length futs) out evs \<or> hedge_exhausted sh (length futs) last_result out evs)"
  using assms(1,2)
proof (induction "length futs" arbitrary: n futs last_result)
  case 0
  then show ?case
    using hedge_finish_ok [of last_result sh] by (simp add: hedge_drain.simps futs_next_def) force
next
  case (Suc k)
  then obtain out g futs' where nx: "futs_next futs (snd (sched n)) = (Some (out, g), futs')"
    by (cases futs) (auto simp: futs_next_def Let_def)
  note len = futs_next_Some(1) [OF nx] and eq = hedge_drain.simps [of sh sched n futs last_result]
  have armed: "list_all tg_armed futs'" "tg_armed g"
    using futs_next_Some(2,3) [OF nx] Suc.prems(1) by (auto simp: list_all_iff)
  show ?case
  proof (cases "hedge_recovery_kind sh out (tg_attempt g)")
    case None
    with hedge_accept_now [OF nx Suc.prems(1) None assms(3)] nx show ?thesis by (simp add: eq)
  next
    case (Some kind)
    from Suc.hyps(1) [of futs' "Some out" "n + 1"] Suc.hyps(2) len armed(1) obtain out' evs where
      rest: "hedge_drain sh sched (n + 1) futs' (Some out) = Inr (out', evs)" "launches evs = []"
        "hedge_accepted sh (length futs') out' evs \<or> hedge_exhausted sh (length futs') (Some out) out' evs" by auto
    show ?thesis
      using hedge_settled_step [of sh out "tg_attempt g"
          "telemetry_guard_drop (hs_telemetry sh) (set_recovery_kind kind g)", OF _ _ _ rest(3), of "length futs" last_result]
        Some nx rest(1,2) armed(2) assms(3) len by (simp add: eq)
  qed
qed

lemma launch_hedging_attempt_cases:
  assumes "launch_hedging_attempt sh futs input a d = (futs', input', evs)"
  shows "completions evs = [] \<and> reports evs = 0 \<and> length futs' = length futs + length (launches evs) \<and>
    length (launches evs) \<le> 1 \<and> (list_all tg_armed futs \<longrightarrow> list_all tg_armed futs')"
  using assms by (auto simp: launch_hedging_attempt_def split: prod.splits option.splits)

lemma hedge_select_cases:
  assumes "hedge_select futs turn = (so, futs')"
  shows "futs = [] \<and> so = SO_Result None \<or> futs \<noteq> [] \<and> so = SO_DelayExpired \<and> futs' = futs \<or>
    (\<exists>out g. so = SO_Result (Some (out, g)) \<and> futs_next futs (snd turn) = (Some (out, g), futs'))"
  using assms by (auto simp: hedge_select_def futs_next_def Let_def split: if_splits)

lemma run_delay_loop_settles:
  assumes "list_all tg_armed futs" "futs \<noteq> [] \<or> last_result \<noteq> None" "th_logs_enabled (hs_telemetry sh)"
  shows "\<exists>out evs. run_delay_loop sh sched tot n futs input a last_result = Inr (out, evs) \<and>
    length (launches evs) \<le> unat tot - (unat (at_index a) + 1) \<and>
    (hedge_accepted sh (length futs) out evs \<or> hedge_exhausted sh (length futs) last_result out evs)"
  using assms(1,2)
proof (induction "unat tot - unat (at_index a)" arbitrary: n futs input a last_result rule: less_induct)
  case less
  note eq = run_delay_loop.simps [of sh sched tot n futs input a last_result]
  show ?case
  proof (cases "attempt_increment a tot")
    case None
    then show ?thesis using hedge_drain_settles [OF less.prems assms(3), of sched n] by (auto simp: eq)
  next
    case (Some a')
    note inc = attempt_increment_Some(1,2) [OF Some]
    note IH = less.hyps [OF attempt_increment_less [OF Some]]
    obtain so futs1 where sel: "hedge_select futs (sched n) = (so, futs1)" by force
    consider (none) "futs = []" "so = SO_Result None" | (expired) "futs \<noteq> []" "so = SO_DelayExpired" "futs1 = futs"
      | (settled) out g where "so = SO_Result (Some (out, g))" "futs_next futs (snd (sched n)) = (Some (out, g), futs1)"
      using hedge_select_cases [OF sel] by blast
    then show ?thesis
    proof cases
      case none
      with sel(1) Some have "run_delay_loop sh sched tot n futs input a last_result = hedge_finish last_result"
        unfolding eq by simp
      with none(1) less.prems(2) hedge_finish_ok [of last_result sh] show ?thesis by force
    next
      case expired
      let ?d = "hs_delay_fn sh input a'"
      obtain futs2 input2 evs0 where l: "launch_hedging_attempt sh futs input a' ?d = (futs2, input2, evs0)"
        by (cases rule: prod_cases3)
      note lc = launch_hedging_attempt_cases [OF l]
      have "list_all tg_armed futs2" "futs2 \<noteq> []" using lc less.prems(1) expired(1) by auto
      from IH [OF this(1), of last_result "n + 1" input2] this(2) obtain out evs where
        rest: "run_delay_loop sh sched tot (n + 1) futs2 input2 a' last_result = Inr (out, evs)"
          "length (launches evs) \<le> unat tot - (unat (at_index a') + 1)"
          "hedge_accepted sh (length futs2) out evs \<or> hedge_exhausted sh (length futs2) last_result out evs" by auto
      have "hedge_accepted sh (length futs) out (evs0 @ evs) \<or> hedge_exhausted sh (length futs) last_result out (evs0 @ evs)"
        using rest(3) lc by (auto simp: hedge_accepted_def hedge_exhausted_def)
      moreover have "length (launches (evs0 @ evs)) \<le> unat tot - (unat (at_index a) + 1)"
        using rest(2) lc inc by (simp, linarith)
      ultimately show ?thesis using rest(1) expired sel Some l by (simp add: eq Let_def)
    next
      case settled
      have armed: "list_all tg_armed futs1" "tg_armed g"
        using futs_next_Some(2,3) [OF settled(2)] less.prems(1) by (auto simp: list_all_iff)
      show ?thesis
      proof (cases "hedge_recovery_kind sh out (tg_attempt g)")
        case None
        with hedge_accept_now [OF settled(2) less.prems(1) None assms(3)] settled sel Some show ?thesis
          by (simp add: eq Let_def)
      next
        case kind: (Some kind)
        obtain futs2 input2 evs0 where l: "launch_hedging_attempt sh futs1 input a' 0 = (futs2, input2, evs0)"
          by (cases rule: prod_cases3)
        note lc = launch_hedging_attempt_cases [OF l]
        have "list_all tg_armed futs2" using lc armed(1) by auto
        from IH [OF this, of "Some out" "n + 1" input2] obtain out' evs where
          rest: "run_delay_loop sh sched tot (n + 1) futs2 input2 a' (Some out) = Inr (out', evs)"
            "length (launches evs) \<le> unat tot - (unat (at_index a') + 1)"
            "hedge_accepted sh (length futs2) out' evs \<or> hedge_exhausted sh (length futs2) (Some out) out' evs" by auto
        let ?evs = "telemetry_guard_drop (hs_telemetry sh) (set_recovery_kind kind g) @ evs0"
        have "hedge_accepted sh (length futs) out' (HE_Complete (tg_attempt g) out # ?evs @ evs) \<or>
            hedge_exhausted sh (length futs) last_result out' (HE_Complete (tg_attempt g) out # ?evs @ evs)"
          using lc armed(2) assms(3) kind futs_next_Some(1) [OF settled(2)]
          by (intro hedge_settled_step [OF _ _ _ rest(3)]) simp_all
        moreover have "length (launches (HE_Complete (tg_attempt g) out # ?evs @ evs)) \<le>
            unat tot - (unat (at_index a) + 1)" using rest(2) lc inc by (simp, linarith)
        ultimately show ?thesis using rest(1) settled(1) sel Some l kind by (simp add: eq Let_def)
      qed
    qed
  qed
qed

section \<open>Properties\<close>

definition example_hedging :: "(nat, nat) hedging_shared" where
  "example_hedging = \<lparr>hs_max_hedged_attempts = 2, hs_delay_fn = (\<lambda>input a. 5),
     hs_clone_input = (\<lambda>input a. (input, Some input)),
     hs_should_recover = (\<lambda>out a. if out = 0 then ri_never else ri_retry), hs_on_execute = None,
     hs_handle_unavailable = False, hs_enable_if = EI_Enabled,
     hs_telemetry = example_telemetry\<lparr>th_logs_enabled := True\<rparr>\<rparr>"



end
