(* ===== verification/Rust_Str.thy ===== *)
theory Rust_Str
  imports Prelude
begin

text \<open>
  What the parsers of the repository use of Rust's strings. A \<open>&str\<close> is a \<open>string\<close>, the list of
  its UTF-8 bytes (an Isabelle \<open>char\<close> is one byte).

  \<^item> \<open>('e, 'a) result\<close> is the outcome of fallible code: \<open>Inl (Err e)\<close> for \<open>Err(e)\<close> and
    \<open>Inl (Panicked m)\<close> for a panic; \<open>try_bind\<close> is the \<open>?\<close> operator.
  \<^item> \<open>str_slice\<close> is \<open>&s[a..b]\<close>: it panics when the bounds are out of range or inside a character.
  \<^item> \<open>is_str\<close> is what the parsers rely on of UTF-8: no continuation byte at the start or directly
    after an ASCII byte. Every UTF-8 string has this property.
  \<^item> \<open>split_on\<close> is \<open>[u8]::split\<close> with one separator, \<open>join_with\<close> its inverse.
\<close>

section \<open>Fallible code\<close>

datatype 'e failure = Panicked string | Err 'e

type_synonym ('e, 'a) result = "'e failure + 'a"

definition try_bind :: "'e + 'a \<Rightarrow> ('a \<Rightarrow> 'e + 'b) \<Rightarrow> 'e + 'b" where
  "try_bind m f = (case m of Inl e \<Rightarrow> Inl e | Inr x \<Rightarrow> f x)"

fun panics :: "('e, 'a) result \<Rightarrow> bool" where
  "panics (Inl (Panicked m)) = True"
| "panics (Inl (Err e)) = False"
| "panics (Inr x) = False"

definition lift_panicking :: "'a panicking \<Rightarrow> ('e, 'a) result" where
  "lift_panicking m = (case m of Inl p \<Rightarrow> Inl (Panicked p) | Inr x \<Rightarrow> Inr x)"

named_theorems result_simps

lemma try_bind_simps [simp, result_simps]:
  "try_bind (Inl e) f = Inl e" "try_bind (Inr x) f = f x"
  by (simp_all add: try_bind_def)

lemma try_bind_eq_Inr [result_simps]:
  "try_bind m f = Inr y \<longleftrightarrow> (\<exists>x. m = Inr x \<and> f x = Inr y)"
  by (cases m) simp_all

lemma panics_try_bind [result_simps]:
  "panics (try_bind m f) \<longleftrightarrow> panics m \<or> (\<exists>x. m = Inr x \<and> panics (f x))"
proof (cases m)
  case (Inl e)
  thus ?thesis by (cases e) simp_all
qed simp

lemma lift_panicking_simps [simp, result_simps]:
  "lift_panicking (Inl p) = Inl (Panicked p)" "lift_panicking (Inr x) = Inr x"
  by (simp_all add: lift_panicking_def)

lemma try_bind_assoc: "try_bind (try_bind m f) g = try_bind m (\<lambda>x. try_bind (f x) g)"
  by (cases m) simp_all

section \<open>ASCII\<close>

abbreviation byte_in :: "nat \<Rightarrow> nat \<Rightarrow> char \<Rightarrow> bool" where
  "byte_in lo hi c \<equiv> lo \<le> of_char c \<and> of_char c \<le> hi"

definition is_ascii :: "char \<Rightarrow> bool" where
  "is_ascii c = byte_in 0 127 c"

definition is_ascii_alphabetic :: "char \<Rightarrow> bool" where
  "is_ascii_alphabetic c = (byte_in 65 90 c \<or> byte_in 97 122 c)"

definition is_ascii_digit :: "char \<Rightarrow> bool" where
  "is_ascii_digit c = byte_in 48 57 c"

definition is_ascii_alphanumeric :: "char \<Rightarrow> bool" where
  "is_ascii_alphanumeric c = (is_ascii_alphabetic c \<or> is_ascii_digit c)"

definition is_ascii_hexdigit :: "char \<Rightarrow> bool" where
  "is_ascii_hexdigit c = (is_ascii_digit c \<or> byte_in 65 70 c \<or> byte_in 97 102 c)"

lemmas ascii_defs =
  is_ascii_def is_ascii_alphabetic_def is_ascii_digit_def is_ascii_alphanumeric_def
  is_ascii_hexdigit_def

lemma is_ascii_classes [simp]:
  "is_ascii_alphabetic c \<Longrightarrow> is_ascii c"
  "is_ascii_digit c \<Longrightarrow> is_ascii c"
  "is_ascii_alphanumeric c \<Longrightarrow> is_ascii c"
  "is_ascii_hexdigit c \<Longrightarrow> is_ascii c"
  by (auto simp: ascii_defs)

section \<open>Character boundaries and slices\<close>

definition is_continuation :: "char \<Rightarrow> bool" where
  "is_continuation c = byte_in 128 191 c"

definition is_char_boundary :: "string \<Rightarrow> nat \<Rightarrow> bool" where
  "is_char_boundary s i = (i = 0 \<or> i = length s \<or> (i < length s \<and> \<not> is_continuation (s ! i)))"

definition str_slice :: "string \<Rightarrow> nat \<Rightarrow> nat \<Rightarrow> ('e, string) result" where
  "str_slice s a b =
     (if a \<le> b \<and> b \<le> length s \<and> is_char_boundary s a \<and> is_char_boundary s b
      then Inr (take (b - a) (drop a s)) else Inl (Panicked ''slice''))"

fun no_stray_continuation :: "bool \<Rightarrow> string \<Rightarrow> bool" where
  "no_stray_continuation after_ascii [] = True"
| "no_stray_continuation after_ascii (c # cs) =
     (\<not> (after_ascii \<and> is_continuation c) \<and> no_stray_continuation (is_ascii c) cs)"

definition is_str :: "string \<Rightarrow> bool" where
  "is_str s = no_stray_continuation True s"

lemma is_ascii_not_continuation [simp]: "is_ascii c \<Longrightarrow> \<not> is_continuation c"
  by (simp add: is_ascii_def is_continuation_def)

lemma no_stray_continuation_weaken: "no_stray_continuation b s \<Longrightarrow> no_stray_continuation False s"
  by (cases s) simp_all

lemma no_stray_continuation_append:
  "no_stray_continuation b (xs @ x # ys) \<longleftrightarrow>
     no_stray_continuation b (xs @ [x]) \<and> no_stray_continuation (is_ascii x) ys"
  by (induction xs arbitrary: b) simp_all

lemma is_str_ascii: "list_all is_ascii s \<Longrightarrow> no_stray_continuation b s"
  by (induction s arbitrary: b) simp_all

lemma is_str_Nil [simp]: "is_str []"
  by (simp add: is_str_def)

lemma no_stray_continuation_prefix:
  "no_stray_continuation b (xs @ ys) \<Longrightarrow> no_stray_continuation b xs"
  by (induction xs arbitrary: b) simp_all

lemma is_str_prefix: "is_str (xs @ ys) \<Longrightarrow> is_str xs"
  unfolding is_str_def by (rule no_stray_continuation_prefix)

lemma no_stray_continuation_suffix:
  "no_stray_continuation b (xs @ x # ys) \<Longrightarrow> is_ascii x \<Longrightarrow> is_str ys"
  using no_stray_continuation_append [of b xs x ys] by (simp add: is_str_def)

lemma is_str_suffix: "is_str (xs @ x # ys) \<Longrightarrow> is_ascii x \<Longrightarrow> is_str ys"
  unfolding is_str_def [of "xs @ x # ys"] by (rule no_stray_continuation_suffix)

lemma is_str_tail: "is_str (x # ys) \<Longrightarrow> is_ascii x \<Longrightarrow> is_str ys"
  using is_str_suffix [of "[]"] by simp

text \<open>A slice bounded by the ends of the string or by ASCII bytes never panics.\<close>

lemma boundary_at_ascii: "is_ascii x \<Longrightarrow> is_char_boundary (xs @ x # ys) (length xs)"
  by (simp add: is_char_boundary_def)

lemma boundary_after_ascii:
  assumes "is_str (xs @ x # ys)" "is_ascii x"
  shows "is_char_boundary (xs @ x # ys) (Suc (length xs))"
proof (cases ys)
  case (Cons y zs)
  have "is_str ys" using assms is_str_suffix by blast
  thus ?thesis using Cons by (simp add: is_char_boundary_def is_str_def nth_append)
qed (simp add: is_char_boundary_def)

lemma boundary_ends [simp]: "is_char_boundary s 0" "is_char_boundary s (length s)"
  by (simp_all add: is_char_boundary_def)

lemma str_slice_upto:
  "is_ascii x \<Longrightarrow> str_slice (xs @ x # ys) 0 (length xs) = Inr xs"
  by (simp add: str_slice_def boundary_at_ascii)

lemma str_slice_after:
  "is_str (xs @ x # ys) \<Longrightarrow> is_ascii x \<Longrightarrow>
     str_slice (xs @ x # ys) (Suc (length xs)) (Suc (length xs + length ys)) = Inr ys"
  using boundary_after_ascii [of xs x ys] boundary_ends(2) [of "xs @ x # ys"]
  by (simp add: str_slice_def)

lemma str_slice_tail:
  "is_str (x # ys) \<Longrightarrow> is_ascii x \<Longrightarrow> str_slice (x # ys) (Suc 0) (Suc (length ys)) = Inr ys"
  using str_slice_after [of "[]" x ys] by simp

lemma str_slice_all [simp]: "str_slice s 0 (length s) = Inr s"
  by (simp add: str_slice_def)

lemma str_slice_between:
  assumes "is_str (xs @ x # ys @ z # zs)" "is_ascii x" "is_ascii z"
  shows "str_slice (xs @ x # ys @ z # zs) (Suc (length xs)) (Suc (length xs) + length ys) = Inr ys"
proof -
  have "is_char_boundary (xs @ x # ys @ z # zs) (Suc (length xs))"
    using boundary_after_ascii [OF assms(1,2)] .
  moreover have "is_char_boundary (xs @ x # ys @ z # zs) (Suc (length xs) + length ys)"
    using boundary_at_ascii [OF assms(3), of "xs @ x # ys" zs] by simp
  ultimately show ?thesis by (simp add: str_slice_def)
qed

text \<open>A slice between two separators, or between a separator and an end of the string.\<close>

lemma str_slice_piece:
  assumes "is_str (pre @ cur @ post)" "is_ascii c"
    and "pre = [] \<or> (\<exists>pre'. pre = pre' @ [c])"
    and "post = [] \<or> (\<exists>post'. post = c # post')"
  shows "str_slice (pre @ cur @ post) (length pre) (length pre + length cur) = Inr cur"
proof -
  have "is_char_boundary (pre @ cur @ post) (length pre)"
    using assms(1-3) boundary_after_ascii [of _ c "cur @ post"] by auto
  moreover have "is_char_boundary (pre @ cur @ post) (length pre + length cur)"
    using assms(2,4) boundary_at_ascii [of c "pre @ cur"] boundary_ends(2) [of "pre @ cur"]
    by auto
  ultimately show ?thesis by (simp add: str_slice_def)
qed

section \<open>Splitting and joining at a separator\<close>

fun split_on :: "char \<Rightarrow> string \<Rightarrow> string list" where
  "split_on sep [] = [[]]"
| "split_on sep (c # cs) =
     (if c = sep then [] # split_on sep cs
      else (c # hd (split_on sep cs)) # tl (split_on sep cs))"

fun join_with :: "char \<Rightarrow> string list \<Rightarrow> string" where
  "join_with sep [] = []"
| "join_with sep [p] = p"
| "join_with sep (p # q # ps) = p @ sep # join_with sep (q # ps)"

lemma split_on_not_Nil [simp]: "split_on sep s \<noteq> []"
  by (induction s) simp_all

lemma length_split_on: "length (split_on sep s) = Suc (length (filter (\<lambda>c. c = sep) s))"
  by (induction s) simp_all

lemma join_with_Cons: "ps \<noteq> [] \<Longrightarrow> join_with sep (p # ps) = p @ sep # join_with sep ps"
  by (cases ps) simp_all

lemma join_with_consume: "join_with sep ((c # p) # ps) = c # join_with sep (p # ps)"
  by (cases ps) simp_all

lemma join_split_on [simp]: "join_with sep (split_on sep s) = s"
proof (induction s)
  case (Cons c cs)
  have "hd (split_on sep cs) # tl (split_on sep cs) = split_on sep cs" by simp
  thus ?case using Cons by (auto simp: join_with_Cons join_with_consume simp del: list.collapse)
qed simp

lemma sep_not_in_split_on: "p \<in> set (split_on sep s) \<Longrightarrow> sep \<notin> set p"
proof (induction s arbitrary: p)
  case (Cons c cs)
  thus ?case by (cases "split_on sep cs") (auto split: if_splits)
qed simp

lemma split_on_no_sep: "sep \<notin> set s \<Longrightarrow> split_on sep s = [s]"
  by (induction s) auto

lemma split_on_append: "sep \<notin> set p \<Longrightarrow> split_on sep (p @ sep # s) = p # split_on sep s"
  by (induction p) auto

lemma split_on_join:
  "ps \<noteq> [] \<Longrightarrow> \<forall>p \<in> set ps. sep \<notin> set p \<Longrightarrow> split_on sep (join_with sep ps) = ps"
  by (induction sep ps rule: join_with.induct) (simp_all add: split_on_no_sep split_on_append)

lemma list_all_split_on:
  "(\<forall>p \<in> set (split_on sep s). list_all P p) \<Longrightarrow> P sep \<Longrightarrow> list_all P s"
proof (induction s)
  case (Cons c cs)
  thus ?case by (cases "split_on sep cs") (auto split: if_splits)
qed simp

lemma join_with_append:
  "xs \<noteq> [] \<Longrightarrow> ys \<noteq> [] \<Longrightarrow> join_with sep (xs @ ys) = join_with sep xs @ sep # join_with sep ys"
  by (induction sep xs rule: join_with.induct) (simp_all add: join_with_Cons)

end
