(* ===== verification/Path_Template.thy ===== *)
theory Path_Template
  imports Rust_Str
begin

text \<open>
  The crate \<open>http_path_template\<close>: the parser and printer of \<open>google.api.http\<close> path templates
  (\<open>error.rs\<close>, \<open>grammar.rs\<close>, \<open>segment.rs\<close>, \<open>variable.rs\<close>, \<open>path_template.rs\<close>).

  The scanning loops are recursions over the remaining bytes with the loop's variables as
  arguments. Slices, the subtraction on \<open>depth\<close> and the two \<open>expect\<close>s can panic in the model as
  in the code. A brace depth is at most the length of the template, which fits \<open>usize\<close>, so depths
  and indices are naturals. The backtrace of an error is not modelled.

  The grammar the crate documents is \<open>wf_template\<close> and \<open>spells_template\<close>; the theorems show that the
  parser accepts exactly that grammar, never panics, and reads back what the printer writes.
\<close>

section \<open>Errors\<close>

datatype parse_error_kind =
    MissingLeadingSlash | EmptySegment | UnbalancedBraces | NestedVariable | EmptyFieldPath
  | InvalidFieldName | InvalidLiteral | RestNotLast | EmptyVerb | InvalidVerb | MultipleVerbs

fun describe :: "parse_error_kind \<Rightarrow> string" where
  "describe MissingLeadingSlash = ''template must begin with '/'' @ [CHR 0x27]"
| "describe EmptySegment = ''template contains an empty path segment''"
| "describe UnbalancedBraces = ''template contains unbalanced '{' or '}'' @ [CHR 0x27]"
| "describe NestedVariable = ''variable sub-templates may not contain nested variables''"
| "describe EmptyFieldPath = ''variable has an empty field path''"
| "describe InvalidFieldName = ''variable field path contains an invalid identifier''"
| "describe InvalidLiteral = ''literal contains an invalid character or percent escape''"
| "describe RestNotLast = [CHR 0x27] @ ''**' may only appear as the final segment''"
| "describe EmptyVerb = ''custom verb after ':' is empty''"
| "describe InvalidVerb = ''custom verb after ':' is not a valid path-template literal''"
| "describe MultipleVerbs = ''template contains more than one ':' verb separator''"

record parse_error =
  error_kind :: parse_error_kind

definition parse_error_new :: "parse_error_kind \<Rightarrow> parse_error" where
  "parse_error_new k = \<lparr>error_kind = k\<rparr>"

definition is_missing_leading_slash :: "parse_error \<Rightarrow> bool" where
  "is_missing_leading_slash e = (error_kind e = MissingLeadingSlash)"

definition is_empty_segment :: "parse_error \<Rightarrow> bool" where
  "is_empty_segment e = (error_kind e = EmptySegment)"

definition is_unbalanced_braces :: "parse_error \<Rightarrow> bool" where
  "is_unbalanced_braces e = (error_kind e = UnbalancedBraces)"

definition is_nested_variable :: "parse_error \<Rightarrow> bool" where
  "is_nested_variable e = (error_kind e = NestedVariable)"

definition is_empty_field_path :: "parse_error \<Rightarrow> bool" where
  "is_empty_field_path e = (error_kind e = EmptyFieldPath)"

definition is_invalid_field_name :: "parse_error \<Rightarrow> bool" where
  "is_invalid_field_name e = (error_kind e = InvalidFieldName)"

definition is_invalid_literal :: "parse_error \<Rightarrow> bool" where
  "is_invalid_literal e = (error_kind e = InvalidLiteral)"

definition is_rest_not_last :: "parse_error \<Rightarrow> bool" where
  "is_rest_not_last e = (error_kind e = RestNotLast)"

definition is_empty_verb :: "parse_error \<Rightarrow> bool" where
  "is_empty_verb e = (error_kind e = EmptyVerb)"

definition is_invalid_verb :: "parse_error \<Rightarrow> bool" where
  "is_invalid_verb e = (error_kind e = InvalidVerb)"

definition is_multiple_verbs :: "parse_error \<Rightarrow> bool" where
  "is_multiple_verbs e = (error_kind e = MultipleVerbs)"

definition parse_error_display :: "parse_error \<Rightarrow> string" where
  "parse_error_display e = describe (error_kind e)"

type_synonym 'a parsed = "(parse_error, 'a) result"

abbreviation parse_err :: "parse_error_kind \<Rightarrow> 'a parsed" where
  "parse_err k \<equiv> Inl (Err (parse_error_new k))"

section \<open>Grammar, variables, segments\<close>

record grammar =
  segment_affixes :: bool

definition grammar_new :: grammar where
  "grammar_new = \<lparr>segment_affixes = False\<rparr>"

definition with_segment_affixes :: "grammar \<Rightarrow> grammar" where
  "with_segment_affixes g = g\<lparr>segment_affixes := True\<rparr>"

record variable =
  var_field :: string
  var_sub :: string

definition variable_new :: "string \<Rightarrow> string \<Rightarrow> variable" where
  "variable_new f s = \<lparr>var_field = f, var_sub = s\<rparr>"

datatype segment =
    Literal string
  | Single
  | Rest
  | Variable variable
  | Affix string string string

record segment_iter =
  iter_rest :: "string option"
  iter_remaining :: nat

definition variable_segments :: "variable \<Rightarrow> segment_iter" where
  "variable_segments v =
     \<lparr>iter_rest = Some (var_sub v),
      iter_remaining = length (filter (\<lambda>b. b = CHR ''/'') (var_sub v)) + 1\<rparr>"

definition classify_segment :: "string \<Rightarrow> segment" where
  "classify_segment seg =
     (if seg = ''*'' then Single else if seg = ''**'' then Rest else Literal seg)"

text \<open>\<open>Iterator::position\<close> on bytes.\<close>

fun position :: "char \<Rightarrow> string \<Rightarrow> nat option" where
  "position c [] = None"
| "position c (b # bs) = (if b = c then Some 0 else map_option Suc (position c bs))"

definition segment_iter_next ::
  "segment_iter \<Rightarrow> ('e, segment option \<times> segment_iter) result" where
  "segment_iter_next it =
     (case iter_rest it of
        None \<Rightarrow> Inr (None, it)
      | Some rest \<Rightarrow>
          if iter_remaining it = 0 then Inl (Panicked ''attempt to subtract with overflow'')
          else case position CHR ''/'' rest of
            Some idx \<Rightarrow>
              try_bind (str_slice rest 0 idx) (\<lambda>seg.
              try_bind (str_slice rest (idx + 1) (length rest)) (\<lambda>after.
                Inr (Some (classify_segment seg),
                     \<lparr>iter_rest = Some after, iter_remaining = iter_remaining it - 1\<rparr>)))
          | None \<Rightarrow>
              Inr (Some (classify_segment rest),
                   \<lparr>iter_rest = None, iter_remaining = iter_remaining it - 1\<rparr>))"

definition segment_iter_len :: "segment_iter \<Rightarrow> nat" where
  "segment_iter_len it = iter_remaining it"

definition segment_iter_size_hint :: "segment_iter \<Rightarrow> nat \<times> nat option" where
  "segment_iter_size_hint it = (segment_iter_len it, Some (segment_iter_len it))"

section \<open>Literals and identifiers\<close>

definition is_valid_ident :: "string \<Rightarrow> bool" where
  "is_valid_ident ident =
     (case ident of
        [] \<Rightarrow> False
      | b # bs \<Rightarrow> (b = CHR ''_'' \<or> is_ascii_alphabetic b) \<and>
          list_all (\<lambda>b. b = CHR ''_'' \<or> is_ascii_alphanumeric b) bs)"

definition is_pchar :: "char \<Rightarrow> bool" where
  "is_pchar b = (is_ascii_alphanumeric b \<or> b \<in> set ''-._~!$&'()+,;=:@'')"

fun is_valid_literal_bytes :: "string \<Rightarrow> bool" where
  "is_valid_literal_bytes [] = True"
| "is_valid_literal_bytes (b # t) =
     (if b = CHR ''%'' then
        (case t of
           hi # lo # t' \<Rightarrow> is_ascii_hexdigit hi \<and> is_ascii_hexdigit lo \<and> is_valid_literal_bytes t'
         | _ \<Rightarrow> False)
      else is_pchar b \<and> is_valid_literal_bytes t)"

definition is_valid_literal :: "string \<Rightarrow> bool" where
  "is_valid_literal l = is_valid_literal_bytes l"

section \<open>Parsing one segment\<close>

text \<open>The loop over the sub-segments of a variable.\<close>

fun check_sub_segments :: "string list \<Rightarrow> unit parsed" where
  "check_sub_segments [] = Inr ()"
| "check_sub_segments (seg # segs) =
     (if seg = [] then parse_err EmptySegment
      else if CHR ''{'' \<in> set seg then parse_err NestedVariable
      else if seg \<noteq> ''*'' \<and> seg \<noteq> ''**'' \<and> \<not> is_valid_literal_bytes seg
      then parse_err InvalidLiteral
      else check_sub_segments segs)"

definition parse_variable :: "string \<Rightarrow> segment parsed" where
  "parse_variable inner =
     try_bind
       (case position CHR ''='' inner of
          Some idx \<Rightarrow>
            try_bind (str_slice inner 0 idx) (\<lambda>field_str.
            try_bind (str_slice inner (idx + 1) (length inner)) (\<lambda>sub_str.
              Inr (field_str, Some sub_str)))
        | None \<Rightarrow> Inr (inner, None))
       (\<lambda>(field_str, sub_str).
          if field_str = [] then parse_err EmptyFieldPath
          else if \<not> list_all is_valid_ident (split_on CHR ''.'' field_str)
          then parse_err InvalidFieldName
          else try_bind
            (case sub_str of
               None \<Rightarrow> Inr ''*''
             | Some sub \<Rightarrow>
                 if sub = [] then parse_err EmptySegment
                 else try_bind (check_sub_segments (split_on CHR ''/'' sub)) (\<lambda>_. Inr sub))
            (\<lambda>sub. Inr (Variable (variable_new field_str sub))))"

fun affix_scan :: "string \<Rightarrow> nat \<Rightarrow> nat option \<times> nat option \<times> nat \<Rightarrow> nat option \<times> nat option \<times> nat" where
  "affix_scan [] idx acc = acc"
| "affix_scan (b # bs) idx (first_open, first_close, braces) =
     affix_scan bs (idx + 1)
       (if b = CHR ''{'' then (if first_open = None then Some idx else first_open, first_close, braces + 1)
        else if b = CHR ''}'' then (first_open, if first_close = None then Some idx else first_close, braces + 1)
        else (first_open, first_close, braces))"

definition option_expect :: "'a option \<Rightarrow> string \<Rightarrow> ('e, 'a) result" where
  "option_expect opt msg = (case opt of Some x \<Rightarrow> Inr x | None \<Rightarrow> Inl (Panicked msg))"

definition parse_affix :: "string \<Rightarrow> segment parsed" where
  "parse_affix seg =
     (case affix_scan seg 0 (None, None, 0) of
        (first_open, first_close, braces) \<Rightarrow>
          if braces \<noteq> 2 then parse_err UnbalancedBraces
          else
            try_bind (option_expect first_open ''one '{' counted above'') (\<lambda>first_open.
            try_bind (option_expect first_close ''one '}' counted above'') (\<lambda>first_close.
            try_bind (str_slice seg 0 first_open) (\<lambda>prefix.
            try_bind (str_slice seg (first_open + 1) first_close) (\<lambda>field_str.
            try_bind (str_slice seg (first_close + 1) (length seg)) (\<lambda>suffix.
              if \<not> is_valid_literal prefix \<or> \<not> is_valid_literal suffix
              then parse_err InvalidLiteral
              else if field_str = [] then parse_err EmptyFieldPath
              else if \<not> list_all is_valid_ident (split_on CHR ''.'' field_str)
              then parse_err InvalidFieldName
              else Inr (Affix prefix field_str suffix)))))))"

definition parse_segment :: "string \<Rightarrow> bool \<Rightarrow> segment parsed" where
  "parse_segment seg extended =
     (if seg = ''*'' then Inr Single
      else if seg = ''**'' then Inr Rest
      else if seg \<noteq> [] \<and> hd seg = CHR ''{'' \<and> last seg = CHR ''}''
      then try_bind (str_slice seg 1 (length seg - 1)) parse_variable
      else if extended \<and> CHR ''{'' \<in> set seg then parse_affix seg
      else if \<not> is_valid_literal seg then parse_err InvalidLiteral
      else Inr (Literal seg))"

definition push_parsed_segment :: "segment list \<Rightarrow> string \<Rightarrow> bool \<Rightarrow> segment list parsed" where
  "push_parsed_segment out seg extended =
     (if seg = [] then parse_err EmptySegment
      else try_bind (parse_segment seg extended) (\<lambda>s. Inr (out @ [s])))"

section \<open>Parsing a template\<close>

fun split_and_parse_loop ::
  "string \<Rightarrow> bool \<Rightarrow> string \<Rightarrow> nat \<Rightarrow> nat \<Rightarrow> nat \<Rightarrow> segment list \<Rightarrow> segment list parsed" where
  "split_and_parse_loop body extended [] idx depth start out =
     (if depth \<noteq> 0 then parse_err UnbalancedBraces
      else try_bind (str_slice body start (length body)) (\<lambda>seg.
        push_parsed_segment out seg extended))"
| "split_and_parse_loop body extended (b # bs) idx depth start out =
     (if b = CHR ''{'' then split_and_parse_loop body extended bs (idx + 1) (depth + 1) start out
      else if b = CHR ''}'' then
        (if depth = 0 then Inl (Panicked ''attempt to subtract with overflow'')
         else split_and_parse_loop body extended bs (idx + 1) (depth - 1) start out)
      else if b = CHR ''/'' \<and> depth = 0 then
        try_bind (str_slice body start idx) (\<lambda>seg.
        try_bind (push_parsed_segment out seg extended) (\<lambda>out.
          split_and_parse_loop body extended bs (idx + 1) depth (idx + 1) out))
      else split_and_parse_loop body extended bs (idx + 1) depth start out)"

definition split_and_parse_segments :: "string \<Rightarrow> bool \<Rightarrow> segment list parsed" where
  "split_and_parse_segments body extended = split_and_parse_loop body extended body 0 0 0 []"

fun segment_count_loop :: "string \<Rightarrow> nat \<Rightarrow> nat \<Rightarrow> nat" where
  "segment_count_loop [] depth count = count"
| "segment_count_loop (b # bs) depth count =
     (if b = CHR ''{'' then segment_count_loop bs (depth + 1) count
      else if b = CHR ''}'' then segment_count_loop bs (depth - 1) count
      else if b = CHR ''/'' \<and> depth = 0 then segment_count_loop bs depth (count + 1)
      else segment_count_loop bs depth count)"

definition segment_count_hint :: "string \<Rightarrow> nat" where
  "segment_count_hint body = segment_count_loop body 0 1"

fun split_verb_loop :: "string \<Rightarrow> nat \<Rightarrow> nat \<Rightarrow> nat option \<Rightarrow> nat option parsed" where
  "split_verb_loop [] idx depth verb_at = Inr verb_at"
| "split_verb_loop (b # bs) idx depth verb_at =
     (if b = CHR ''{'' then split_verb_loop bs (idx + 1) (depth + 1) verb_at
      else if b = CHR ''}'' \<and> 0 < depth then split_verb_loop bs (idx + 1) (depth - 1) verb_at
      else if b = CHR ''}'' \<and> verb_at = None then parse_err UnbalancedBraces
      else if b = CHR '':'' \<and> depth = 0 then
        (if verb_at \<noteq> None then parse_err MultipleVerbs
         else split_verb_loop bs (idx + 1) depth (Some idx))
      else split_verb_loop bs (idx + 1) depth verb_at)"

definition split_verb :: "string \<Rightarrow> (string \<times> string option) parsed" where
  "split_verb template =
     try_bind (split_verb_loop template 0 0 None) (\<lambda>verb_at.
       case verb_at of
         Some idx \<Rightarrow>
           try_bind (str_slice template (idx + 1) (length template)) (\<lambda>verb.
             if verb = [] then parse_err EmptyVerb
             else if \<not> is_valid_literal verb then parse_err InvalidVerb
             else try_bind (str_slice template 0 idx) (\<lambda>body. Inr (body, Some verb)))
       | None \<Rightarrow> Inr (template, None))"

text \<open>The loop over the sub-segments of a variable in \<open>validate_rest_position\<close>.\<close>

function rest_in_variable :: "segment_iter \<Rightarrow> bool \<Rightarrow> bool parsed" where
  "rest_in_variable it seen_rest =
     (case segment_iter_next it of
        Inl e \<Rightarrow> Inl e
      | Inr (None, it') \<Rightarrow> Inr seen_rest
      | Inr (Some sub, it') \<Rightarrow>
          if seen_rest then parse_err RestNotLast
          else rest_in_variable it' (seen_rest \<or> sub = Rest))"
  by pat_completeness auto
termination
  by (relation "measure (\<lambda>(it, _). iter_remaining it)")
     (auto simp: segment_iter_next_def try_bind_eq_Inr split: option.splits if_splits)

declare rest_in_variable.simps [simp del]

fun validate_rest_loop :: "segment list \<Rightarrow> bool \<Rightarrow> unit parsed" where
  "validate_rest_loop [] seen_rest = Inr ()"
| "validate_rest_loop (seg # segs) seen_rest =
     (case seg of
        Rest \<Rightarrow> if seen_rest then parse_err RestNotLast else validate_rest_loop segs True
      | Variable var \<Rightarrow>
          try_bind (rest_in_variable (variable_segments var) seen_rest) (validate_rest_loop segs)
      | _ \<Rightarrow> if seen_rest then parse_err RestNotLast else validate_rest_loop segs seen_rest)"

definition validate_rest_position :: "segment list \<Rightarrow> unit parsed" where
  "validate_rest_position segs = validate_rest_loop segs False"

record path_template =
  template_segments :: "segment list"
  template_verb :: "string option"

definition parse_inner :: "string \<Rightarrow> grammar \<Rightarrow> path_template parsed" where
  "parse_inner template g =
     (if \<not> (case template of [] \<Rightarrow> False | b # _ \<Rightarrow> b = CHR ''/'')
      then parse_err MissingLeadingSlash
      else
        try_bind (split_verb template) (\<lambda>(body, verb).
        try_bind (str_slice body 1 (length body)) (\<lambda>rest.
        try_bind
          (if rest = [] then Inr [] else split_and_parse_segments rest (segment_affixes g))
          (\<lambda>segments.
        try_bind (validate_rest_position segments) (\<lambda>_.
          Inr \<lparr>template_segments = segments, template_verb = verb\<rparr>)))))"

definition parse_template :: "string \<Rightarrow> grammar \<Rightarrow> path_template parsed" where
  "parse_template template g = parse_inner template g"

section \<open>Printing\<close>

definition write_variable :: "variable \<Rightarrow> string" where
  "write_variable v =
     ''{'' @ var_field v @ (if var_sub v \<noteq> ''*'' then ''='' @ var_sub v else []) @ ''}''"

fun write_segment :: "segment \<Rightarrow> string" where
  "write_segment (Literal t) = t"
| "write_segment Single = ''*''"
| "write_segment Rest = ''**''"
| "write_segment (Variable v) = write_variable v"
| "write_segment (Affix p n s) = p @ ''{'' @ n @ ''}'' @ s"

fun write_segments :: "nat \<Rightarrow> segment list \<Rightarrow> string" where
  "write_segments idx [] = []"
| "write_segments idx (s # ss) =
     (if idx \<noteq> 0 then ''/'' else []) @ write_segment s @ write_segments (idx + 1) ss"

definition template_display :: "path_template \<Rightarrow> string" where
  "template_display t =
     ''/'' @ write_segments 0 (template_segments t) @
     (case template_verb t of Some verb \<Rightarrow> '':'' @ verb | None \<Rightarrow> [])"

section \<open>The documented grammar\<close>

definition valid_field :: "string \<Rightarrow> bool" where
  "valid_field f = list_all is_valid_ident (split_on CHR ''.'' f)"

definition valid_sub_segment :: "string \<Rightarrow> bool" where
  "valid_sub_segment s = (s \<noteq> [] \<and> (s = ''*'' \<or> s = ''**'' \<or> is_valid_literal_bytes s))"

definition valid_sub :: "string \<Rightarrow> bool" where
  "valid_sub s = list_all valid_sub_segment (split_on CHR ''/'' s)"

fun wf_segment :: "bool \<Rightarrow> segment \<Rightarrow> bool" where
  "wf_segment extended (Literal l) = (l \<noteq> [] \<and> is_valid_literal l \<and> CHR '':'' \<notin> set l)"
| "wf_segment extended Single = True"
| "wf_segment extended Rest = True"
| "wf_segment extended (Variable v) = (valid_field (var_field v) \<and> valid_sub (var_sub v))"
| "wf_segment extended (Affix p n s) =
     (extended \<and> (p \<noteq> [] \<or> s \<noteq> []) \<and> is_valid_literal p \<and> CHR '':'' \<notin> set p \<and>
      is_valid_literal s \<and> CHR '':'' \<notin> set s \<and> valid_field n)"

fun atoms :: "segment \<Rightarrow> segment list" where
  "atoms (Variable v) = map classify_segment (split_on CHR ''/'' (var_sub v))"
| "atoms seg = [seg]"

definition rest_last :: "segment list \<Rightarrow> bool" where
  "rest_last segs = (Rest \<notin> set (butlast (concat (map atoms segs))))"

definition wf_verb :: "string option \<Rightarrow> bool" where
  "wf_verb verb =
     (case verb of None \<Rightarrow> True | Some v \<Rightarrow> v \<noteq> [] \<and> is_valid_literal v \<and> CHR '':'' \<notin> set v)"

definition wf_template :: "grammar \<Rightarrow> path_template \<Rightarrow> bool" where
  "wf_template g t =
     (list_all (wf_segment (segment_affixes g)) (template_segments t) \<and>
      rest_last (template_segments t) \<and> wf_verb (template_verb t))"

text \<open>
  A segment has its printed spelling; a variable that captures one segment may also be spelled out
  with its sub-template.
\<close>

definition spells_segment :: "string \<Rightarrow> segment \<Rightarrow> bool" where
  "spells_segment p seg =
     (p = write_segment seg \<or>
      (case seg of
         Variable v \<Rightarrow> var_sub v = ''*'' \<and> p = ''{'' @ var_field v @ ''=*}''
       | _ \<Rightarrow> False))"

definition verb_text :: "string option \<Rightarrow> string" where
  "verb_text verb = (case verb of None \<Rightarrow> [] | Some v \<Rightarrow> '':'' @ v)"

definition spells_template :: "string \<Rightarrow> path_template \<Rightarrow> bool" where
  "spells_template s t =
     (\<exists>ps. list_all2 spells_segment ps (template_segments t) \<and>
        s = ''/'' @ join_with CHR ''/'' ps @ verb_text (template_verb t))"

section \<open>Characters of literals and fields\<close>

lemma position_None: "position c s = None \<longleftrightarrow> c \<notin> set s"
  by (induction s) auto

lemma position_append: "c \<notin> set xs \<Longrightarrow> position c (xs @ c # ys) = Some (length xs)"
  by (induction xs) auto

lemma position_Some: "position c s = Some i \<Longrightarrow> \<exists>xs ys. s = xs @ c # ys \<and> c \<notin> set xs \<and> i = length xs"
proof (induction s arbitrary: i)
  case (Cons b bs)
  show ?case
  proof (cases "b = c")
    case True
    thus ?thesis using Cons.prems by (intro exI [of _ "[]"] exI [of _ bs]) simp
  next
    case False
    then obtain j where "position c bs = Some j" "i = Suc j" using Cons.prems by auto
    thus ?thesis using Cons.IH [of j] False by (metis append_Cons length_Cons set_ConsD)
  qed
qed simp

lemma hexdigit_pchar: "is_ascii_hexdigit c \<Longrightarrow> is_pchar c"
  by (auto simp: is_pchar_def ascii_defs)

lemma valid_literal_chars:
  "is_valid_literal_bytes l \<Longrightarrow> c \<in> set l \<Longrightarrow> is_pchar c \<or> c = CHR ''%''"
  by (induction l rule: is_valid_literal_bytes.induct)
     (auto simp: hexdigit_pchar split: if_splits list.splits)

lemma pchar_ascii: "is_pchar c \<Longrightarrow> is_ascii c"
  by (auto simp: is_pchar_def ascii_defs)

lemma not_pchar [simp]:
  "\<not> is_pchar CHR ''{''" "\<not> is_pchar CHR ''}''" "\<not> is_pchar CHR ''/''" "\<not> is_pchar CHR ''*''"
  by (simp_all add: is_pchar_def ascii_defs)

lemma valid_literal_not_in:
  assumes "is_valid_literal_bytes l"
  shows "CHR ''{'' \<notin> set l" "CHR ''}'' \<notin> set l" "CHR ''/'' \<notin> set l" "CHR ''*'' \<notin> set l"
  using valid_literal_chars [OF assms] not_pchar by (fastforce)+

lemma valid_literal_ascii: "is_valid_literal_bytes l \<Longrightarrow> list_all is_ascii l"
  using valid_literal_chars pchar_ascii by (fastforce simp: list_all_iff is_ascii_def)

definition is_field_char :: "char \<Rightarrow> bool" where
  "is_field_char c = (is_ascii_alphanumeric c \<or> c = CHR ''_'' \<or> c = CHR ''.'')"

lemma valid_ident_chars: "is_valid_ident i \<Longrightarrow> list_all is_field_char i"
  by (cases i) (auto simp: is_valid_ident_def list_all_iff is_field_char_def is_ascii_alphanumeric_def)

lemma valid_field_chars: "valid_field f \<Longrightarrow> list_all is_field_char f"
  unfolding valid_field_def
  by (rule list_all_split_on [where sep = "CHR ''.''"])
     (auto simp: valid_ident_chars is_field_char_def list_all_iff [of is_valid_ident])

lemma not_field_char [simp]:
  "\<not> is_field_char CHR ''{''" "\<not> is_field_char CHR ''}''" "\<not> is_field_char CHR ''/''"
  "\<not> is_field_char CHR ''=''" "\<not> is_field_char CHR '':''"
  by (simp_all add: is_field_char_def ascii_defs)

lemma field_char_ascii: "is_field_char c \<Longrightarrow> is_ascii c"
  by (auto simp: is_field_char_def is_ascii_def [of "CHR ''_''"] is_ascii_def [of "CHR ''.''"])

lemma valid_field_not_in:
  assumes "valid_field f"
  shows "CHR ''{'' \<notin> set f" "CHR ''}'' \<notin> set f" "CHR ''/'' \<notin> set f" "CHR ''='' \<notin> set f"
    "CHR '':'' \<notin> set f"
  using valid_field_chars [OF assms] by (auto simp: list_all_iff)

lemma valid_field_ascii: "valid_field f \<Longrightarrow> list_all is_ascii f"
  using valid_field_chars field_char_ascii by (auto simp: list_all_iff)

lemma valid_field_nonempty: "valid_field f \<Longrightarrow> f \<noteq> []"
  by (auto simp: valid_field_def is_valid_ident_def)

lemma valid_sub_segment_not_in:
  "valid_sub_segment s \<Longrightarrow> CHR ''{'' \<notin> set s" "valid_sub_segment s \<Longrightarrow> CHR ''}'' \<notin> set s"
  using valid_literal_not_in(1,2) by (auto simp: valid_sub_segment_def)

lemma valid_sub_segment_ascii: "valid_sub_segment s \<Longrightarrow> list_all is_ascii s"
  using valid_literal_ascii by (auto simp: valid_sub_segment_def is_ascii_def)

lemma valid_sub_facts:
  assumes "valid_sub s"
  shows "CHR ''{'' \<notin> set s" "CHR ''}'' \<notin> set s" "list_all is_ascii s" "s \<noteq> []"
proof -
  have all: "p \<in> set (split_on CHR ''/'' s) \<Longrightarrow> valid_sub_segment p" for p
    using assms by (auto simp: valid_sub_def list_all_iff)
  have "list_all (\<lambda>c. c \<noteq> CHR ''{'' \<and> c \<noteq> CHR ''}'' \<and> is_ascii c) p"
    if "p \<in> set (split_on CHR ''/'' s)" for p
    using all [OF that] valid_sub_segment_not_in [of p] valid_sub_segment_ascii [of p]
    by (auto simp: list_all_iff)
  hence "list_all (\<lambda>c. c \<noteq> CHR ''{'' \<and> c \<noteq> CHR ''}'' \<and> is_ascii c) s"
    by (intro list_all_split_on [where sep = "CHR ''/''"]) (simp_all add: is_ascii_def)
  thus "CHR ''{'' \<notin> set s" "CHR ''}'' \<notin> set s" "list_all is_ascii s"
    by (auto simp: list_all_iff)
  show "s \<noteq> []" using all by (auto simp: valid_sub_segment_def)
qed

lemma ascii_literals [simp]:
  "is_ascii CHR ''{''" "is_ascii CHR ''}''" "is_ascii CHR ''/''" "is_ascii CHR '':''"
  "is_ascii CHR ''=''" "is_ascii CHR ''*''"
  by (simp_all add: is_ascii_def)

section \<open>Brace depth\<close>

text \<open>
  The brace depth after a string, or \<open>None\<close> if a first_close brace has no first_open one or a separator
  occurs outside braces.
\<close>

fun flat :: "char set \<Rightarrow> nat \<Rightarrow> string \<Rightarrow> nat option" where
  "flat S d [] = Some d"
| "flat S d (b # bs) =
     (if b = CHR ''{'' then flat S (d + 1) bs
      else if b = CHR ''}'' then (if d = 0 then None else flat S (d - 1) bs)
      else if d = 0 \<and> b \<in> S then None
      else flat S d bs)"

lemma flat_append: "flat S d (xs @ ys) = Option.bind (flat S d xs) (\<lambda>d'. flat S d' ys)"
  by (induction xs arbitrary: d) auto

lemma flat_mono: "flat T d xs = Some d' \<Longrightarrow> S \<subseteq> T \<Longrightarrow> flat S d xs = Some d'"
  by (induction xs arbitrary: d) (auto split: if_splits)

lemma flat_union:
  "flat S d xs = Some d' \<Longrightarrow> flat T d xs = Some d' \<Longrightarrow> flat (S \<union> T) d xs = Some d'"
  by (induction xs arbitrary: d) (auto split: if_splits)

lemma flat_no_braces:
  "CHR ''{'' \<notin> set xs \<Longrightarrow> CHR ''}'' \<notin> set xs \<Longrightarrow>
     flat S d xs = (if d = 0 \<and> set xs \<inter> S \<noteq> {} then None else Some d)"
  by (induction xs) (auto split: if_splits)

lemma flat_braced:
  assumes "CHR ''{'' \<notin> set xs" "CHR ''}'' \<notin> set xs"
  shows "flat S d (CHR ''{'' # xs @ CHR ''}'' # ys) = flat S d ys"
  using flat_no_braces [OF assms, of S "Suc d"] by (simp add: flat_append)

lemma flat_valid_literal:
  "is_valid_literal_bytes l \<Longrightarrow> flat S d l = (if d = 0 \<and> set l \<inter> S \<noteq> {} then None else Some d)"
  by (rule flat_no_braces) (simp_all add: valid_literal_not_in)

section \<open>Parsing one segment: exactness and safety\<close>

lemma check_sub_segments_Inr:
  "check_sub_segments segs = Inr u \<longleftrightarrow> list_all valid_sub_segment segs"
  by (induction segs rule: check_sub_segments.induct)
     (auto simp: valid_sub_segment_def dest: valid_literal_not_in)

lemma check_sub_segments_safe: "\<not> panics (check_sub_segments segs)"
  by (induction segs rule: check_sub_segments.induct) simp_all

lemma parse_variable_split:
  assumes "is_str inner"
  shows "CHR ''='' \<notin> set inner \<and>
      parse_variable inner =
        (if valid_field inner then Inr (Variable (variable_new inner ''*''))
         else if inner = [] then parse_err EmptyFieldPath else parse_err InvalidFieldName)
    \<or> (\<exists>f sub. inner = f @ CHR ''='' # sub \<and> CHR ''='' \<notin> set f \<and>
      parse_variable inner =
        (if f = [] then parse_err EmptyFieldPath
         else if \<not> valid_field f then parse_err InvalidFieldName
         else if sub = [] then parse_err EmptySegment
         else try_bind (check_sub_segments (split_on CHR ''/'' sub))
           (\<lambda>_. Inr (Variable (variable_new f sub)))))"
proof (cases "position CHR ''='' inner")
  case None
  hence "parse_variable inner =
        (if valid_field inner then Inr (Variable (variable_new inner ''*''))
         else if inner = [] then parse_err EmptyFieldPath else parse_err InvalidFieldName)"
    using valid_field_nonempty [of inner] by (simp add: parse_variable_def valid_field_def)
  thus ?thesis using None unfolding position_None by blast
next
  case (Some i)
  then obtain f sub where split: "inner = f @ CHR ''='' # sub" "CHR ''='' \<notin> set f" "i = length f"
    using position_Some by blast
  have "(str_slice inner 0 i :: string parsed) = Inr f"
      "(str_slice inner (Suc i) (length inner) :: string parsed) = Inr sub"
    using assms by (simp_all add: split str_slice_upto str_slice_after)
  hence "parse_variable inner =
        (if f = [] then parse_err EmptyFieldPath
         else if \<not> valid_field f then parse_err InvalidFieldName
         else if sub = [] then parse_err EmptySegment
         else try_bind (check_sub_segments (split_on CHR ''/'' sub))
           (\<lambda>_. Inr (Variable (variable_new f sub))))"
    unfolding parse_variable_def Some by (simp add: valid_field_def try_bind_assoc)
  thus ?thesis using split(1,2) by blast
qed

lemma parse_variable_safe: "is_str inner \<Longrightarrow> \<not> panics (parse_variable inner)"
  using parse_variable_split [of inner] check_sub_segments_safe
  by (auto simp: panics_try_bind split: if_splits)

lemma parse_variable_Inr:
  assumes "is_str inner"
  shows "parse_variable inner = Inr x \<longleftrightarrow>
    (\<exists>f sub. x = Variable (variable_new f sub) \<and> valid_field f \<and> valid_sub sub \<and>
       (inner = f @ CHR ''='' # sub \<or> inner = f \<and> sub = ''*''))"
  (is "_ \<longleftrightarrow> ?R")
proof
  assume ok: "parse_variable inner = Inr x"
  have star: "valid_sub ''*''" by (simp add: valid_sub_def valid_sub_segment_def)
  from parse_variable_split [OF assms] show ?R
  proof (elim disjE exE conjE)
    fix f sub
    assume i: "inner = f @ CHR ''='' # sub" and "parse_variable inner =
        (if f = [] then parse_err EmptyFieldPath
         else if \<not> valid_field f then parse_err InvalidFieldName
         else if sub = [] then parse_err EmptySegment
         else try_bind (check_sub_segments (split_on CHR ''/'' sub))
           (\<lambda>_. Inr (Variable (variable_new f sub))))"
    hence "x = Variable (variable_new f sub)" "valid_field f" "valid_sub sub"
      using ok by (simp_all add: try_bind_eq_Inr check_sub_segments_Inr valid_sub_def split: if_splits)
    thus ?R using i by blast
  qed (use ok star in \<open>simp split: if_splits; blast\<close>)
next
  assume ?R
  then obtain f sub where R: "x = Variable (variable_new f sub)" "valid_field f" "valid_sub sub"
      "inner = f @ CHR ''='' # sub \<or> inner = f \<and> sub = ''*''"
    by blast
  note notin = valid_field_not_in(4) [OF R(2)]
  from R(4) show "parse_variable inner = Inr x"
  proof
    assume i: "inner = f @ CHR ''='' # sub"
    have slices: "(str_slice inner 0 (length f) :: string parsed) = Inr f"
        "(str_slice inner (Suc (length f)) (length inner) :: string parsed) = Inr sub"
      using assms by (simp_all add: i str_slice_upto str_slice_after)
    have "check_sub_segments (split_on CHR ''/'' sub) = Inr ()"
      using R(3) by (simp add: check_sub_segments_Inr valid_sub_def)
    thus ?thesis using i R(1,2) valid_field_nonempty [OF R(2)] valid_sub_facts(4) [OF R(3)] slices
        position_append [OF notin, of sub]
      by (simp add: parse_variable_def valid_field_def)
  next
    assume i: "inner = f \<and> sub = ''*''"
    hence "position CHR ''='' inner = None" using notin by (simp add: position_None)
    thus ?thesis using i R(1,2) valid_field_nonempty [OF R(2)]
      by (simp add: parse_variable_def valid_field_def)
  qed
qed

text \<open>The scan of an affix segment with its braces in order.\<close>

lemma affix_scan_no_braces:
  "CHR ''{'' \<notin> set xs \<Longrightarrow> CHR ''}'' \<notin> set xs \<Longrightarrow>
     affix_scan (xs @ ys) i acc = affix_scan ys (i + length xs) acc"
  by (induction xs arbitrary: i; cases acc) auto

lemma affix_scan_count:
  "snd (snd (affix_scan xs i (first_open, first_close, n))) =
     n + length (filter (\<lambda>c. c = CHR ''{'' \<or> c = CHR ''}'') xs)"
  by (induction xs arbitrary: i first_open first_close n) auto

lemma flat_two_braces:
  assumes "flat S 0 xs = Some 0"
    and "length (filter (\<lambda>c. c = CHR ''{'' \<or> c = CHR ''}'') xs) = 2"
  obtains p f s where "xs = p @ CHR ''{'' # f @ CHR ''}'' # s"
    "CHR ''{'' \<notin> set (p @ f @ s)" "CHR ''}'' \<notin> set (p @ f @ s)"
proof -
  let ?P = "\<lambda>c. c = CHR ''{'' \<or> c = CHR ''}''"
  obtain b1 rest where f1: "filter ?P xs = b1 # rest" "length rest = 1"
    using assms(2) by (cases "filter ?P xs") auto
  obtain p xs' where x1: "xs = p @ b1 # xs'" "\<forall>c \<in> set p. \<not> ?P c" "?P b1" "rest = filter ?P xs'"
    using filter_eq_ConsD [OF f1(1)] by blast
  obtain b2 where f2: "filter ?P xs' = [b2]" using f1(2) x1(4) by (cases "filter ?P xs'") auto
  obtain f s where x2: "xs' = f @ b2 # s" "\<forall>c \<in> set f. \<not> ?P c" "?P b2" "[] = filter ?P s"
    using filter_eq_ConsD [OF f2] by blast
  have "\<forall>c \<in> set s. \<not> ?P c" using x2(4) [symmetric] unfolding filter_empty_conv .
  hence "c \<notin> set p \<and> c \<notin> set f \<and> c \<notin> set s" if "?P c" for c
    using bspec [OF x1(2), of c] bspec [OF x2(2), of c] bspec [of "set s" _ c] that by metis
  hence nob: "CHR ''{'' \<notin> set (p @ f @ s)" "CHR ''}'' \<notin> set (p @ f @ s)"
    by simp_all
  have p: "flat S 0 p = Some 0"
    using assms(1) x1(1) nob flat_no_braces [of p S 0]
    by (auto simp: flat_append split: if_splits)
  have b1: "b1 = CHR ''{''" using assms(1) x1(1,3) p by (auto simp: flat_append)
  have "flat S (Suc 0) f = Some (Suc 0)" using nob flat_no_braces [of f S "Suc 0"] by simp
  hence "flat S (Suc 0) (b2 # s) = Some 0"
    using assms(1) x1(1) x2(1) b1 p by (simp add: flat_append)
  moreover have "flat S 2 s = Some 2" using nob flat_no_braces [of s S 2] by simp
  ultimately have "b2 = CHR ''}''" using x2(3) by (auto simp: numeral_2_eq_2)
  thus ?thesis using that [of p f s] x1(1) x2(1) b1 nob by simp
qed

lemma affix_scan_eval:
  assumes "CHR ''{'' \<notin> set (p @ f @ s)" "CHR ''}'' \<notin> set (p @ f @ s)"
  shows "affix_scan (p @ CHR ''{'' # f @ CHR ''}'' # s) 0 (None, None, 0) =
     (Some (length p), Some (length p + 1 + length f), 2)"
  using assms affix_scan_no_braces [of p "CHR ''{'' # f @ CHR ''}'' # s" 0]
    affix_scan_no_braces [of f "CHR ''}'' # s"] affix_scan_no_braces [of s "[]"]
  by simp

lemma parse_affix_eval:
  assumes "is_str (p @ CHR ''{'' # f @ CHR ''}'' # s)"
    and "CHR ''{'' \<notin> set (p @ f @ s)" "CHR ''}'' \<notin> set (p @ f @ s)"
  shows "parse_affix (p @ CHR ''{'' # f @ CHR ''}'' # s) =
     (if \<not> is_valid_literal p \<or> \<not> is_valid_literal s then parse_err InvalidLiteral
      else if f = [] then parse_err EmptyFieldPath
      else if \<not> valid_field f then parse_err InvalidFieldName
      else Inr (Affix p f s))"
proof -
  define x where "x = p @ CHR ''{'' # f @ CHR ''}'' # s"
  have "(str_slice x 0 (length p) :: string parsed) = Inr p" by (simp add: str_slice_upto x_def)
  moreover have "(str_slice x (Suc (length p)) (Suc (length p + length f)) :: string parsed) = Inr f"
    using str_slice_between [OF assms(1)] by (simp add: x_def)
  moreover have "(str_slice x (Suc (Suc (length p + length f))) (length x) :: string parsed) = Inr s"
    using str_slice_after [of "p @ CHR ''{'' # f" "CHR ''}''" s] assms(1)
    by (simp add: x_def add.assoc)
  moreover have "affix_scan x 0 (None, None, 0) = (Some (length p), Some (length p + 1 + length f), 2)"
    unfolding x_def by (rule affix_scan_eval [OF assms(2,3)])
  ultimately have "parse_affix x =
     (if \<not> is_valid_literal p \<or> \<not> is_valid_literal s then parse_err InvalidLiteral
      else if f = [] then parse_err EmptyFieldPath
      else if \<not> valid_field f then parse_err InvalidFieldName
      else Inr (Affix p f s))"
    unfolding parse_affix_def by (simp add: option_expect_def valid_field_def)
  thus ?thesis by (simp add: x_def)
qed

lemma parse_affix_Inr:
  assumes "is_str seg" "flat S 0 seg = Some 0"
  shows "parse_affix seg = Inr x \<longleftrightarrow>
    (\<exists>p f s. x = Affix p f s \<and> seg = p @ CHR ''{'' # f @ CHR ''}'' # s \<and>
       is_valid_literal p \<and> is_valid_literal s \<and> valid_field f)"
  (is "_ \<longleftrightarrow> ?R")
proof
  assume ok: "parse_affix seg = Inr x"
  hence "length (filter (\<lambda>c. c = CHR ''{'' \<or> c = CHR ''}'') seg) = 2"
    using affix_scan_count [of seg 0 None None 0]
    by (auto simp: parse_affix_def split: prod.splits if_splits)
  then obtain p f s where seg: "seg = p @ CHR ''{'' # f @ CHR ''}'' # s"
    "CHR ''{'' \<notin> set (p @ f @ s)" "CHR ''}'' \<notin> set (p @ f @ s)"
    using flat_two_braces assms(2) by blast
  have "parse_affix (p @ CHR ''{'' # f @ CHR ''}'' # s) = Inr x" using ok seg(1) by simp
  hence "x = Affix p f s \<and> is_valid_literal p \<and> is_valid_literal s \<and> valid_field f"
    using parse_affix_eval [OF _ seg(2,3)] assms(1) seg(1) by (simp split: if_splits)
  thus ?R using seg(1) by blast
next
  assume ?R
  then obtain p f s where R: "x = Affix p f s" "seg = p @ CHR ''{'' # f @ CHR ''}'' # s"
       "is_valid_literal p" "is_valid_literal s" "valid_field f"
    by blast
  have "CHR ''{'' \<notin> set (p @ f @ s)" "CHR ''}'' \<notin> set (p @ f @ s)"
    using R(3-5) valid_literal_not_in [of p] valid_literal_not_in [of s] valid_field_not_in [of f]
    by (simp_all add: is_valid_literal_def)
  thus "parse_affix seg = Inr x"
    using parse_affix_eval [of p f s] R assms(1) valid_field_nonempty by simp
qed

lemma parse_affix_safe:
  assumes "is_str seg" "flat S 0 seg = Some 0"
  shows "\<not> panics (parse_affix seg)"
proof (cases "length (filter (\<lambda>c. c = CHR ''{'' \<or> c = CHR ''}'') seg) = 2")
  case True
  then obtain p f s where "seg = p @ CHR ''{'' # f @ CHR ''}'' # s"
    "CHR ''{'' \<notin> set (p @ f @ s)" "CHR ''}'' \<notin> set (p @ f @ s)"
    using flat_two_braces assms(2) by blast
  thus ?thesis using parse_affix_eval [of p f s] assms(1) by simp
next
  case False
  hence "snd (snd (affix_scan seg 0 (None, None, 0))) \<noteq> 2" by (simp add: affix_scan_count)
  thus ?thesis by (auto simp: parse_affix_def split: prod.splits)
qed

text \<open>The slice between the braces of a segment that is one variable.\<close>

lemma braced_cases:
  assumes "seg \<noteq> []" "hd seg = CHR ''{''" "last seg = CHR ''}''"
  obtains inner where "seg = CHR ''{'' # inner @ [CHR ''}'']"
proof -
  obtain xs where seg: "seg = CHR ''{'' # xs" using assms(1,2) by (cases seg) auto
  hence "xs \<noteq> []" using assms(3) by auto
  hence "xs = butlast xs @ [CHR ''}'']" using append_butlast_last_id assms(3) seg
    by (metis last_ConsR)
  thus ?thesis using that seg by simp
qed

lemma str_slice_braced:
  "is_str (CHR ''{'' # inner @ [CHR ''}'']) \<Longrightarrow>
     str_slice (CHR ''{'' # inner @ [CHR ''}'']) (Suc 0) (Suc (length inner)) = Inr inner"
  using str_slice_between [of "[]" "CHR ''{''" inner "CHR ''}''" "[]"] by simp

lemma is_str_braced: "is_str (CHR ''{'' # inner @ [CHR ''}'']) \<Longrightarrow> is_str inner"
  using is_str_tail is_str_prefix ascii_literals(1) by blast

lemma parse_segment_braced:
  "is_str (CHR ''{'' # inner @ [CHR ''}'']) \<Longrightarrow>
     parse_segment (CHR ''{'' # inner @ [CHR ''}'']) extended = parse_variable inner"
  by (simp add: parse_segment_def str_slice_braced)

lemma parse_segment_safe:
  assumes "is_str seg" "flat S 0 seg = Some 0"
  shows "\<not> panics (parse_segment seg extended)"
proof (cases "seg \<noteq> [] \<and> hd seg = CHR ''{'' \<and> last seg = CHR ''}''")
  case True
  then obtain inner where "seg = CHR ''{'' # inner @ [CHR ''}'']" using braced_cases by blast
  thus ?thesis
    using assms(1) parse_segment_braced parse_variable_safe is_str_braced by metis
next
  case False
  thus ?thesis using parse_affix_safe [OF assms] by (auto simp: parse_segment_def)
qed

lemma spells_variable_iff:
  "spells_segment p (Variable v) \<longleftrightarrow>
     (\<exists>inner. p = CHR ''{'' # inner @ [CHR ''}''] \<and>
        (inner = var_field v @ CHR ''='' # var_sub v \<or> inner = var_field v \<and> var_sub v = ''*''))"
  by (auto simp: spells_segment_def write_variable_def)

lemma spells_simps [simp]:
  "spells_segment p (Literal l) \<longleftrightarrow> p = l"
  "spells_segment p Single \<longleftrightarrow> p = ''*''"
  "spells_segment p Rest \<longleftrightarrow> p = ''**''"
  "spells_segment p (Affix a n s) \<longleftrightarrow> p = a @ CHR ''{'' # n @ CHR ''}'' # s"
  by (simp_all add: spells_segment_def)

lemma write_segment_spells: "spells_segment (write_segment seg) seg"
  by (simp add: spells_segment_def)

lemma variable_new_sel [simp]:
  "var_field (variable_new f s) = f" "var_sub (variable_new f s) = s"
  "variable_new (var_field v) (var_sub v) = v"
  by (simp_all add: variable_new_def)

lemma parse_segment_sound:
  assumes "is_str seg" "flat {CHR '':''} 0 seg = Some 0" "seg \<noteq> []"
    and "parse_segment seg extended = Inr x"
  shows "wf_segment extended x \<and> spells_segment seg x"
proof (cases "hd seg = CHR ''{'' \<and> last seg = CHR ''}''")
  case True
  then obtain inner where seg: "seg = CHR ''{'' # inner @ [CHR ''}'']"
    using braced_cases assms(3) by blast
  hence "parse_variable inner = Inr x" using assms(1,4) parse_segment_braced by simp
  thus ?thesis using parse_variable_Inr [of inner x] is_str_braced seg assms(1)
    by (auto simp: spells_variable_iff)
next
  case unbraced: False
  show ?thesis
  proof (cases "seg = ''*'' \<or> seg = ''**''")
    case True
    thus ?thesis using assms(4) by (auto simp: parse_segment_def)
  next
    case plain: False
    show ?thesis
    proof (cases "extended \<and> CHR ''{'' \<in> set seg")
      case True
      hence "parse_affix seg = Inr x"
        using plain unbraced assms(4) by (auto simp: parse_segment_def split: if_splits)
      then obtain p f s where R: "x = Affix p f s" "seg = p @ CHR ''{'' # f @ CHR ''}'' # s"
         "is_valid_literal p" "is_valid_literal s" "valid_field f"
        using parse_affix_Inr [OF assms(1,2)] by blast
      have "flat {CHR '':''} 0 p = Some 0 \<and> flat {CHR '':''} 0 s = Some 0"
        using assms(2) R(2-4) flat_valid_literal [of p _ 0] flat_valid_literal [of s _ 0]
          flat_braced [of f "{CHR '':''}" 0 s] valid_field_not_in [OF R(5)]
        by (auto simp: flat_append is_valid_literal_def split: if_splits)
      hence "CHR '':'' \<notin> set p \<and> CHR '':'' \<notin> set s"
        using R(3,4) by (auto simp: flat_valid_literal is_valid_literal_def split: if_splits)
      moreover have "p \<noteq> [] \<or> s \<noteq> []" using R(2) unbraced by auto
      ultimately show ?thesis using R True by simp
    next
      case False
      hence "x = Literal seg \<and> is_valid_literal seg"
        using plain unbraced assms(4) by (auto simp: parse_segment_def split: if_splits)
      moreover from this have "CHR '':'' \<notin> set seg"
        using assms(2) by (auto simp: flat_valid_literal is_valid_literal_def split: if_splits)
      ultimately show ?thesis using assms(3) by simp
    qed
  qed
qed

lemma parse_segment_complete:
  assumes "is_str seg" "flat S 0 seg = Some 0" "wf_segment extended x" "spells_segment seg x"
  shows "parse_segment seg extended = Inr x"
proof (cases x)
  case (Literal l)
  hence "CHR ''{'' \<notin> set seg" "CHR ''*'' \<notin> set seg" "seg = l" "l \<noteq> []"
    using assms(3,4) valid_literal_not_in by (auto simp: is_valid_literal_def)
  moreover from this have "hd seg \<noteq> CHR ''{''" by (metis hd_in_set)
  ultimately show ?thesis using Literal assms(3) by (auto simp: parse_segment_def)
next
  case (Variable v)
  then obtain inner where seg: "seg = CHR ''{'' # inner @ [CHR ''}'']"
      "inner = var_field v @ CHR ''='' # var_sub v \<or> inner = var_field v \<and> var_sub v = ''*''"
    using assms(4) spells_variable_iff by blast
  have "x = Variable (variable_new (var_field v) (var_sub v))" "valid_field (var_field v)"
      "valid_sub (var_sub v)"
    using Variable assms(3) by simp_all
  hence "parse_variable inner = Inr x"
    using parse_variable_Inr [of inner x] seg assms(1) is_str_braced by blast
  thus ?thesis using parse_segment_braced seg(1) assms(1) by simp
next
  case (Affix p f s)
  hence seg: "seg = p @ CHR ''{'' # f @ CHR ''}'' # s" using assms(4) by simp
  have "CHR ''{'' \<notin> set p" "CHR ''}'' \<notin> set s" "p \<noteq> [] \<or> s \<noteq> []" extended
    using assms(3) Affix valid_literal_not_in by (auto simp: is_valid_literal_def)
  hence "\<not> (hd seg = CHR ''{'' \<and> last seg = CHR ''}'')" "seg \<noteq> ''*''" "seg \<noteq> ''**''"
    unfolding seg by (cases p; use last_in_set [of s] in auto)+
  hence "parse_segment seg extended = parse_affix seg"
    using seg \<open>extended\<close> by (auto simp: parse_segment_def)
  thus ?thesis using parse_affix_Inr [OF assms(1,2), of x] Affix assms(3) seg by auto
qed (use assms(4) in \<open>simp_all add: parse_segment_def\<close>)

lemma spelled_flat:
  assumes "wf_segment extended x" "spells_segment p x"
  shows "flat {CHR ''/'', CHR '':''} 0 p = Some 0 \<and> list_all is_ascii p \<and> p \<noteq> []"
proof (cases x)
  case (Variable v)
  then obtain inner where p: "p = CHR ''{'' # inner @ [CHR ''}'']"
      "inner = var_field v @ CHR ''='' # var_sub v \<or> inner = var_field v \<and> var_sub v = ''*''"
    using assms(2) spells_variable_iff by blast
  have "CHR ''{'' \<notin> set inner" "CHR ''}'' \<notin> set inner" "list_all is_ascii inner"
    using p(2) assms(1) Variable valid_field_not_in [of "var_field v"] valid_field_ascii
      valid_sub_facts [of "var_sub v"] by auto
  thus ?thesis using flat_braced [of inner _ 0 "[]"] p(1) by simp
next
  case (Affix a f s)
  hence wf: "is_valid_literal_bytes a" "is_valid_literal_bytes s" "valid_field f"
    "CHR '':'' \<notin> set a" "CHR '':'' \<notin> set s"
    using assms(1) by (simp_all add: is_valid_literal_def)
  have "flat {CHR ''/'', CHR '':''} 0 a = Some 0" "flat {CHR ''/'', CHR '':''} 0 s = Some 0"
    using wf valid_literal_not_in(3) by (auto simp: flat_valid_literal)
  thus ?thesis using assms(2) Affix wf valid_field_not_in [of f] flat_braced [of f _ 0 s]
      valid_literal_ascii valid_field_ascii
    by (simp add: flat_append)
next
  case (Literal l)
  thus ?thesis using assms valid_literal_not_in(3) valid_literal_ascii
    by (auto simp: is_valid_literal_def flat_valid_literal)
qed (use assms(2) in simp_all)

section \<open>The verb\<close>

lemma split_verb_loop_skip:
  "flat {CHR '':''} d xs = Some d' \<Longrightarrow>
     split_verb_loop (xs @ ys) i d None = split_verb_loop ys (i + length xs) d' None"
  by (induction xs arbitrary: i d) (auto split: if_splits)

lemma split_verb_loop_keep:
  "split_verb_loop xs i d (Some k) = Inr r \<Longrightarrow> r = Some k"
  by (induction xs i d "Some k" rule: split_verb_loop.induct) (auto split: if_splits)

lemma split_verb_loop_None:
  "split_verb_loop xs i d None = Inr None \<Longrightarrow> \<exists>d'. flat {CHR '':''} d xs = Some d'"
  by (induction xs i d "None :: nat option" rule: split_verb_loop.induct) (auto split: if_splits dest: split_verb_loop_keep)

lemma split_verb_loop_literal:
  "is_valid_literal_bytes xs \<Longrightarrow>
     split_verb_loop xs i 0 (Some k) = (if CHR '':'' \<in> set xs then parse_err MultipleVerbs else Inr (Some k))"
proof -
  have "CHR ''{'' \<notin> set xs \<Longrightarrow> CHR ''}'' \<notin> set xs \<Longrightarrow> split_verb_loop xs i 0 (Some k) =
    (if CHR '':'' \<in> set xs then parse_err MultipleVerbs else Inr (Some k))"
    by (induction xs arbitrary: i) auto
  thus "is_valid_literal_bytes xs \<Longrightarrow> split_verb_loop xs i 0 (Some k) =
    (if CHR '':'' \<in> set xs then parse_err MultipleVerbs else Inr (Some k))"
    using valid_literal_not_in by blast
qed

lemma split_verb_loop_Some:
  "split_verb_loop xs i d None = Inr (Some k) \<Longrightarrow>
     \<exists>ys zs. xs = ys @ CHR '':'' # zs \<and> k = i + length ys \<and> flat {CHR '':''} d ys = Some 0 \<and>
       split_verb_loop zs (Suc k) 0 (Some k) = Inr (Some k)"
proof (induction xs arbitrary: i d)
  case (Cons b bs)
  show ?case
  proof (cases "b = CHR '':'' \<and> d = 0")
    case True
    thus ?thesis using Cons.prems split_verb_loop_keep
      by (intro exI [of _ "[]"] exI [of _ bs]) force
  next
    case False
    then obtain e where e: "split_verb_loop bs (Suc i) e None = Inr (Some k)"
        "\<And>ys. flat {CHR '':''} d (b # ys) = flat {CHR '':''} e ys"
      using Cons.prems by (fastforce split: if_splits)
    then obtain ys zs where "bs = ys @ CHR '':'' # zs" "k = Suc i + length ys"
        "flat {CHR '':''} e ys = Some 0" "split_verb_loop zs (Suc k) 0 (Some k) = Inr (Some k)"
      using Cons.IH by blast
    thus ?thesis using e(2) by (intro exI [of _ "b # ys"] exI [of _ zs]) simp
  qed
qed simp

lemma split_verb_loop_safe: "\<not> panics (split_verb_loop xs i d v)"
  by (induction xs i d v rule: split_verb_loop.induct) simp_all

lemma split_verb_eval:
  "is_str (body @ CHR '':'' # v) \<Longrightarrow>
     split_verb_loop (body @ CHR '':'' # v) 0 0 None = Inr (Some (length body)) \<Longrightarrow>
     split_verb (body @ CHR '':'' # v) =
       (if v = [] then parse_err EmptyVerb
        else if \<not> is_valid_literal v then parse_err InvalidVerb
        else Inr (body, Some v))"
  by (simp add: split_verb_def str_slice_upto str_slice_after)

lemma split_verb_cases:
  assumes "is_str s"
  obtains (err) e where "split_verb s = parse_err e"
  | (none) d where "split_verb s = Inr (s, None)" "flat {CHR '':''} 0 s = Some d"
  | (some) body v where "split_verb s = Inr (body, Some v)" "s = body @ CHR '':'' # v"
      "flat {CHR '':''} 0 body = Some 0" "wf_verb (Some v)"
proof (cases "split_verb_loop s 0 0 None")
  case (Inl e)
  have "\<not> panics (split_verb_loop s 0 0 None)" by (rule split_verb_loop_safe)
  then obtain k where "e = Err k" using Inl by (cases e) auto
  thus ?thesis using Inl err [of "error_kind k"] by (simp add: split_verb_def parse_error_new_def)
next
  case (Inr r)
  show ?thesis
  proof (cases r)
    case None
    thus ?thesis using Inr none split_verb_loop_None [of s 0 0] by (auto simp: split_verb_def)
  next
    case (Some k)
    then obtain body v where sv: "s = body @ CHR '':'' # v" "k = length body"
        "flat {CHR '':''} 0 body = Some 0" "split_verb_loop v (Suc k) 0 (Some k) = Inr (Some k)"
      using Inr split_verb_loop_Some [of s 0 0 k] by auto
    hence eval: "split_verb s = (if v = [] then parse_err EmptyVerb
        else if \<not> is_valid_literal v then parse_err InvalidVerb else Inr (body, Some v))"
      using split_verb_eval [of body v] assms Inr Some by simp
    show ?thesis
    proof (cases "v \<noteq> [] \<and> is_valid_literal v")
      case True
      moreover from this have "CHR '':'' \<notin> set v"
        using sv(4) split_verb_loop_literal by (force simp: is_valid_literal_def)
      ultimately show ?thesis using some eval sv by (simp add: wf_verb_def)
    next
      case False
      thus ?thesis using err eval by (auto split: if_splits)
    qed
  qed
qed

section \<open>Splitting into segments\<close>

fun top_pieces :: "nat \<Rightarrow> string \<Rightarrow> string list" where
  "top_pieces d [] = [[]]"
| "top_pieces d (b # bs) =
     (if b = CHR ''/'' \<and> d = 0 then [] # top_pieces 0 bs
      else let ps = top_pieces (if b = CHR ''{'' then d + 1 else if b = CHR ''}'' then d - 1 else d) bs
           in (b # hd ps) # tl ps)"

fun push_all :: "bool \<Rightarrow> segment list \<Rightarrow> string list \<Rightarrow> segment list parsed" where
  "push_all extended out [] = Inr out"
| "push_all extended out (p # ps) =
     try_bind (push_parsed_segment out p extended) (\<lambda>out. push_all extended out ps)"

lemma top_pieces_not_Nil [simp]: "top_pieces d xs \<noteq> []"
  by (cases xs) (simp_all add: Let_def)

lemma join_top_pieces: "join_with CHR ''/'' (top_pieces d xs) = xs"
proof (induction xs arbitrary: d)
  case (Cons b bs)
  show ?case using Cons.IH by (simp add: Let_def join_with_Cons join_with_consume)
qed simp

lemma top_pieces_single: "flat {CHR ''/''} d p = Some d' \<Longrightarrow> top_pieces d p = [p]"
  by (induction p arbitrary: d) (auto split: if_splits)

lemma top_pieces_append:
  "flat {CHR ''/''} d p = Some 0 \<Longrightarrow> top_pieces d (p @ CHR ''/'' # xs) = p # top_pieces 0 xs"
  by (induction p arbitrary: d) (auto split: if_splits)

lemma top_pieces_join:
  "ps \<noteq> [] \<Longrightarrow> \<forall>p \<in> set ps. flat {CHR ''/''} 0 p = Some 0 \<Longrightarrow>
     top_pieces 0 (join_with CHR ''/'' ps) = ps"
  by (induction "CHR ''/''" ps rule: join_with.induct)
     (simp_all add: top_pieces_single top_pieces_append)

lemma flat_join:
  "\<forall>p \<in> set ps. flat S 0 p = Some 0 \<Longrightarrow> c \<notin> S \<Longrightarrow> c \<noteq> CHR ''{'' \<Longrightarrow> c \<noteq> CHR ''}'' \<Longrightarrow>
     flat S 0 (join_with c ps) = Some 0"
  by (induction c ps rule: join_with.induct) (simp_all add: flat_append)

lemma top_pieces_flat:
  assumes "flat S d xs = Some d'"
  shows "flat (insert CHR ''/'' S) d (hd (top_pieces d xs)) =
           Some (if tl (top_pieces d xs) = [] then d' else 0)"
    and "\<forall>p \<in> set (butlast (tl (top_pieces d xs))). flat (insert CHR ''/'' S) 0 p = Some 0"
    and "tl (top_pieces d xs) \<noteq> [] \<Longrightarrow>
           flat (insert CHR ''/'' S) 0 (last (tl (top_pieces d xs))) = Some d'"
proof -
  let ?f = "flat (insert CHR ''/'' S)"
  have "?f d (hd (top_pieces d xs)) = Some (if tl (top_pieces d xs) = [] then d' else 0) \<and>
    (\<forall>p \<in> set (butlast (tl (top_pieces d xs))). ?f 0 p = Some 0) \<and>
    (tl (top_pieces d xs) \<noteq> [] \<longrightarrow> ?f 0 (last (tl (top_pieces d xs))) = Some d')"
    using assms
  proof (induction xs arbitrary: d)
    case (Cons b bs)
    show ?case
    proof (cases "b = CHR ''/'' \<and> d = 0")
      case True
      hence IH: "?f 0 (hd (top_pieces 0 bs)) = Some (if tl (top_pieces 0 bs) = [] then d' else 0)"
          "\<forall>p \<in> set (butlast (tl (top_pieces 0 bs))). ?f 0 p = Some 0"
          "tl (top_pieces 0 bs) \<noteq> [] \<longrightarrow> ?f 0 (last (tl (top_pieces 0 bs))) = Some d'"
        using Cons.IH [of 0] Cons.prems by (auto split: if_splits)
      show ?thesis
      proof (cases "top_pieces 0 bs")
        case (Cons q qs)
        thus ?thesis using IH True by auto
      qed simp
    next
      case False
      thus ?thesis using Cons.IH Cons.prems by (auto simp: Let_def split: if_splits)
    qed
  qed simp
  thus "?f d (hd (top_pieces d xs)) = Some (if tl (top_pieces d xs) = [] then d' else 0)"
    "\<forall>p \<in> set (butlast (tl (top_pieces d xs))). ?f 0 p = Some 0"
    "tl (top_pieces d xs) \<noteq> [] \<Longrightarrow> ?f 0 (last (tl (top_pieces d xs))) = Some d'"
    by blast+
qed

lemma top_pieces_flat_all:
  assumes "flat S 0 xs = Some 0" "p \<in> set (top_pieces 0 xs)"
  shows "flat (insert CHR ''/'' S) 0 p = Some 0"
proof -
  obtain q qs where ps: "top_pieces 0 xs = q # qs" by (cases "top_pieces 0 xs") simp_all
  show ?thesis
  proof (cases "qs = []")
    case False
    hence "set qs = insert (last qs) (set (butlast qs))"
      by (metis append_butlast_last_id list.simps(15) rotate1.simps(2) set_rotate1)
    thus ?thesis using top_pieces_flat [OF assms(1)] ps assms(2) False by auto
  qed (use top_pieces_flat(1) [OF assms(1)] ps assms(2) in simp)
qed

lemma top_pieces_flat_butlast:
  assumes "flat S 0 xs = Some d" "p \<in> set (butlast (top_pieces 0 xs))"
  shows "flat (insert CHR ''/'' S) 0 p = Some 0"
proof -
  obtain q qs where ps: "top_pieces 0 xs = q # qs" by (cases "top_pieces 0 xs") simp_all
  thus ?thesis using top_pieces_flat [OF assms(1)] assms(2) by (auto split: if_splits)
qed

lemma top_pieces_str:
  "no_stray_continuation b xs \<Longrightarrow> no_stray_continuation b (hd (top_pieces d xs)) \<and>
     (\<forall>p \<in> set (tl (top_pieces d xs)). is_str p)"
proof (induction xs arbitrary: b d)
  case (Cons x xs)
  show ?case
  proof (cases "x = CHR ''/'' \<and> d = 0")
    case True
    hence "no_stray_continuation True xs" using Cons.prems by simp
    hence "no_stray_continuation True (hd (top_pieces 0 xs))"
        "\<forall>p \<in> set (tl (top_pieces 0 xs)). is_str p"
      using Cons.IH by blast+
    hence "\<forall>p \<in> set (top_pieces 0 xs). is_str p"
      by (cases "top_pieces 0 xs") (simp_all add: is_str_def)
    thus ?thesis using True by simp
  next
    case False
    then obtain e where "top_pieces d (x # xs) = (x # hd (top_pieces e xs)) # tl (top_pieces e xs)"
      by (auto simp: Let_def)
    thus ?thesis using Cons.IH [of "is_ascii x" e] Cons.prems by simp
  qed
qed simp

lemma top_pieces_is_str: "is_str xs \<Longrightarrow> p \<in> set (top_pieces d xs) \<Longrightarrow> is_str p"
  using top_pieces_str [of True xs d] unfolding is_str_def
  by (cases "top_pieces d xs") (auto simp: is_str_def)

lemma push_all_Inr:
  "push_all extended out ps = Inr r \<longleftrightarrow>
     (\<exists>segs. r = out @ segs \<and>
        list_all2 (\<lambda>p x. p \<noteq> [] \<and> parse_segment p extended = Inr x) ps segs)"
proof (induction ps arbitrary: out)
  case (Cons p ps)
  show ?case
    by (auto simp: try_bind_eq_Inr push_parsed_segment_def Cons.IH list_all2_Cons1 split: if_splits)
qed auto

lemma push_all_safe:
  "\<forall>p \<in> set ps. is_str p \<and> flat {} 0 p = Some 0 \<Longrightarrow> \<not> panics (push_all extended out ps)"
  by (induction ps arbitrary: out)
     (auto simp: panics_try_bind push_parsed_segment_def dest: parse_segment_safe)

lemma split_and_parse_loop_pieces:
  assumes "is_str body" "body = pre @ cur @ xs" "pre = [] \<or> (\<exists>pre'. pre = pre' @ [CHR ''/''])"
    and "flat {} d xs = Some d'"
    and "ps = (cur @ hd (top_pieces d xs)) # tl (top_pieces d xs)"
  shows "split_and_parse_loop body extended xs (length pre + length cur) d (length pre) out =
     (if d' = 0 then push_all extended out ps
      else try_bind (push_all extended out (butlast ps)) (\<lambda>_. parse_err UnbalancedBraces))"
  using assms(2-5)
proof (induction xs arbitrary: pre cur d out ps)
  case Nil
  have "(str_slice body (length pre) (length body) :: string parsed) = Inr cur"
    using str_slice_piece [of pre cur "[]" "CHR ''/''"] Nil(1,2) assms(1) by simp
  thus ?case using Nil(3,4) by (simp add: try_bind_def split: sum.splits)
next
  case (Cons b bs)
  have go: "split_and_parse_loop body extended bs (Suc (length pre + length cur)) e (length pre) out =
     (if d' = 0 then push_all extended out ps
      else try_bind (push_all extended out (butlast ps)) (\<lambda>_. parse_err UnbalancedBraces))"
    if "flat {} e bs = Some d'"
      "top_pieces d (b # bs) = (b # hd (top_pieces e bs)) # tl (top_pieces e bs)" for e
    using Cons.IH [of pre "cur @ [b]" e ps out] Cons.prems(1,2,4) that by simp
  show ?case
  proof (cases "b = CHR ''/'' \<and> d = 0")
    case True
    have slice: "(str_slice body (length pre) (length pre + length cur) :: string parsed) = Inr cur"
      using str_slice_piece [of pre cur "b # bs" "CHR ''/''"] Cons.prems(1,2) assms(1) True by simp
    let ?qs = "top_pieces 0 bs"
    have IH: "split_and_parse_loop body extended bs (Suc (length pre + length cur)) 0
        (Suc (length pre + length cur)) out' =
      (if d' = 0 then push_all extended out' ?qs
       else try_bind (push_all extended out' (butlast ?qs)) (\<lambda>_. parse_err UnbalancedBraces))"
      for out'
      using Cons.IH [of "pre @ cur @ [CHR ''/'']" "[]" 0 ?qs out'] Cons.prems(1,3) True by simp
    have "ps = cur # ?qs" using Cons.prems(4) True by simp
    thus ?thesis using True slice IH by (cases "push_parsed_segment out cur extended") simp_all
  next
    case False
    show ?thesis using Cons.prems(3) False go
      by (auto simp: Let_def split: if_splits)
  qed
qed

lemma split_and_parse_segments_pieces:
  assumes "is_str body" "flat {} 0 body = Some d"
  shows "split_and_parse_segments body extended =
     (if d = 0 then push_all extended [] (top_pieces 0 body)
      else try_bind (push_all extended [] (butlast (top_pieces 0 body)))
        (\<lambda>_. parse_err UnbalancedBraces))"
  using split_and_parse_loop_pieces [of body "[]" "[]" body 0 d] assms
  by (simp add: split_and_parse_segments_def)

lemma split_and_parse_segments_safe:
  assumes "is_str body" "flat {} 0 body = Some d"
  shows "\<not> panics (split_and_parse_segments body extended)"
proof (cases "d = 0")
  case True
  hence "\<forall>p \<in> set (top_pieces 0 body). is_str p \<and> flat {} 0 p = Some 0"
    using assms top_pieces_is_str top_pieces_flat_all flat_mono by blast
  thus ?thesis using split_and_parse_segments_pieces [OF assms] push_all_safe True by simp
next
  case False
  have "\<forall>p \<in> set (butlast (top_pieces 0 body)). is_str p \<and> flat {} 0 p = Some 0"
    using top_pieces_is_str [OF assms(1) in_set_butlastD]
      flat_mono [OF top_pieces_flat_butlast [OF assms(2)], of _ "{}"] by simp
  thus ?thesis using split_and_parse_segments_pieces [OF assms] push_all_safe False
    by (simp add: panics_try_bind)
qed

lemma split_and_parse_segments_Inr:
  assumes "is_str body" "flat {CHR '':''} 0 body = Some d"
  shows "split_and_parse_segments body extended = Inr segs \<longleftrightarrow>
     list_all2 (\<lambda>p x. wf_segment extended x \<and> spells_segment p x) (top_pieces 0 body) segs \<and> d = 0"
proof -
  have flat: "flat {} 0 body = Some d" using assms(2) flat_mono by blast
  show ?thesis
  proof (cases "d = 0")
    case True
    have "(p \<noteq> [] \<and> parse_segment p extended = Inr x) \<longleftrightarrow>
        (wf_segment extended x \<and> spells_segment p x)"
      if "p \<in> set (top_pieces 0 body)" for p x
    proof -
      have p: "is_str p" "flat {CHR '':''} 0 p = Some 0"
        using that assms True top_pieces_is_str top_pieces_flat_all flat_mono by blast+
      show ?thesis using parse_segment_sound [OF p] parse_segment_complete [OF p] spelled_flat by blast
    qed
    hence "list_all2 (\<lambda>p x. p \<noteq> [] \<and> parse_segment p extended = Inr x) (top_pieces 0 body) segs =
       list_all2 (\<lambda>p x. wf_segment extended x \<and> spells_segment p x) (top_pieces 0 body) segs"
      by (intro list.rel_cong_simp) (simp_all add: simp_implies_def)
    thus ?thesis using split_and_parse_segments_pieces [OF assms(1) flat] True
      by (simp add: push_all_Inr)
  next
    case False
    thus ?thesis using split_and_parse_segments_pieces [OF assms(1) flat]
      by (simp add: try_bind_eq_Inr)
  qed
qed

text \<open>The capacity reserved for the segments is the number of pieces, so pushing never reallocates.\<close>

lemma segment_count_loop_pieces:
  "segment_count_loop xs d n + 1 = n + length (top_pieces d xs)"
proof (induction xs arbitrary: d n)
  case (Cons b bs)
  have "length (tl (top_pieces e bs)) + 1 = length (top_pieces e bs)" for e
    by (cases "top_pieces e bs") simp_all
  thus ?case using Cons.IH by (simp add: Let_def)
qed simp

lemma segment_count_hint_exact: "segment_count_hint body = length (top_pieces 0 body)"
  using segment_count_loop_pieces [of body 0 1] by (simp add: segment_count_hint_def)

section \<open>The position of the rest wildcard\<close>

fun check_rest :: "segment list \<Rightarrow> bool \<Rightarrow> bool parsed" where
  "check_rest [] seen_rest = Inr seen_rest"
| "check_rest (a # as) seen_rest =
     (if seen_rest then parse_err RestNotLast else check_rest as (a = Rest))"

lemma check_rest_append: "check_rest (xs @ ys) seen = try_bind (check_rest xs seen) (check_rest ys)"
  by (induction xs arbitrary: seen) simp_all

lemma check_rest_Inr:
  "(\<exists>r. check_rest xs seen = Inr r) \<longleftrightarrow> (if seen then xs = [] else Rest \<notin> set (butlast xs))"
  by (induction xs arbitrary: seen) auto

lemma check_rest_safe: "\<not> panics (check_rest xs seen)"
  by (induction xs arbitrary: seen) simp_all

lemma check_rest_error: "check_rest xs seen = Inl e \<Longrightarrow> e = Err (parse_error_new RestNotLast)"
  by (induction xs arbitrary: seen) (auto split: if_splits)

lemma segment_iter_next_split:
  "is_str (p @ CHR ''/'' # q) \<Longrightarrow> CHR ''/'' \<notin> set p \<Longrightarrow> n \<noteq> 0 \<Longrightarrow>
     segment_iter_next \<lparr>iter_rest = Some (p @ CHR ''/'' # q), iter_remaining = n\<rparr> =
       Inr (Some (classify_segment p), \<lparr>iter_rest = Some q, iter_remaining = n - 1\<rparr>)"
  by (simp add: segment_iter_next_def position_append str_slice_upto str_slice_after)

lemma segment_iter_next_last:
  "CHR ''/'' \<notin> set p \<Longrightarrow> n \<noteq> 0 \<Longrightarrow>
     segment_iter_next \<lparr>iter_rest = Some p, iter_remaining = n\<rparr> =
       Inr (Some (classify_segment p), \<lparr>iter_rest = None, iter_remaining = n - 1\<rparr>)"
  by (simp add: segment_iter_next_def position_None [THEN iffD2])

lemma rest_in_variable_eval:
  "is_str s \<Longrightarrow> n = length (split_on CHR ''/'' s) \<Longrightarrow>
     rest_in_variable \<lparr>iter_rest = Some s, iter_remaining = n\<rparr> seen =
       check_rest (map classify_segment (split_on CHR ''/'' s)) seen"
proof (induction "length s" arbitrary: s n seen rule: less_induct)
  case less
  have n: "n \<noteq> 0" using less.prems(2) by simp
  have last: "rest_in_variable \<lparr>iter_rest = None, iter_remaining = m\<rparr> b = Inr b" for m b
    by (simp add: rest_in_variable.simps segment_iter_next_def)
  show ?case
  proof (cases "CHR ''/'' \<in> set s")
    case True
    then obtain p q where s: "s = p @ CHR ''/'' # q" "CHR ''/'' \<notin> set p"
      by (meson split_list_first)
    hence split: "split_on CHR ''/'' s = p # split_on CHR ''/'' q" by (simp add: split_on_append)
    moreover have "rest_in_variable \<lparr>iter_rest = Some q, iter_remaining = n - 1\<rparr> b =
        check_rest (map classify_segment (split_on CHR ''/'' q)) b" for b
      using less.hyps [of q "n - 1"] less.prems s split is_str_suffix by simp
    ultimately show ?thesis
      using n less.prems(1) s(2) unfolding s(1)
      by (simp add: rest_in_variable.simps [of "\<lparr>iter_rest = Some (p @ CHR ''/'' # q), iter_remaining = n\<rparr>"]
          segment_iter_next_split)
  next
    case False
    hence "position CHR ''/'' s = None" "split_on CHR ''/'' s = [s]"
      by (simp_all add: position_None split_on_no_sep)
    thus ?thesis using n last
      by (simp add: rest_in_variable.simps [of "\<lparr>iter_rest = Some s, iter_remaining = n\<rparr>"]
          segment_iter_next_def)
  qed
qed

lemma validate_rest_loop_eval:
  "list_all (wf_segment extended) segs \<Longrightarrow>
     validate_rest_loop segs seen = try_bind (check_rest (concat (map atoms segs)) seen) (\<lambda>_. Inr ())"
proof (induction segs arbitrary: seen)
  case (Cons seg segs)
  have IH: "validate_rest_loop segs b =
      try_bind (check_rest (concat (map atoms segs)) b) (\<lambda>_. Inr ())" for b
    using Cons by simp
  show ?case
  proof (cases seg)
    case (Variable v)
    hence "is_str (var_sub v)"
      using Cons.prems valid_sub_facts(3) is_str_ascii by (simp add: is_str_def)
    hence "rest_in_variable (variable_segments v) seen = check_rest (atoms seg) seen"
      using rest_in_variable_eval Variable by (simp add: variable_segments_def length_split_on)
    thus ?thesis using Variable
      by (cases "check_rest (atoms seg) seen") (simp_all add: check_rest_append IH)
  qed (simp_all add: IH)
qed simp

lemma validate_rest_position_eval:
  assumes "list_all (wf_segment extended) segs"
  shows "validate_rest_position segs = (if rest_last segs then Inr () else parse_err RestNotLast)"
proof (cases "check_rest (concat (map atoms segs)) False")
  case (Inl e)
  hence "\<not> rest_last segs"
    using check_rest_Inr [of "concat (map atoms segs)" False] by (simp add: rest_last_def)
  thus ?thesis using Inl check_rest_error validate_rest_loop_eval [OF assms]
    by (fastforce simp: validate_rest_position_def)
next
  case (Inr r)
  hence "rest_last segs"
    using check_rest_Inr [of "concat (map atoms segs)" False] by (simp add: rest_last_def)
  thus ?thesis using Inr validate_rest_loop_eval [OF assms] by (simp add: validate_rest_position_def)
qed

section \<open>The whole parser\<close>

lemma list_all2_wf_spells:
  "list_all2 (\<lambda>p x. wf_segment extended x \<and> spells_segment p x) ps segs \<longleftrightarrow>
     list_all (wf_segment extended) segs \<and> list_all2 spells_segment ps segs"
  by (induction ps segs rule: list_induct2') auto

definition parse_body :: "string \<Rightarrow> bool \<Rightarrow> segment list parsed" where
  "parse_body rest extended =
     (if rest = [] then Inr [] else split_and_parse_segments rest extended)"

lemma parse_body_Inr:
  assumes "is_str rest" "flat {CHR '':''} 0 rest = Some d"
  shows "parse_body rest extended = Inr segs \<longleftrightarrow> d = 0 \<and> list_all (wf_segment extended) segs \<and>
     (\<exists>ps. list_all2 spells_segment ps segs \<and> rest = join_with CHR ''/'' ps)"
proof (cases "rest = []")
  case True
  have "join_with CHR ''/'' ps \<noteq> []"
    if "list_all2 spells_segment ps (x # xs)" "wf_segment extended x" for ps x xs
    using that spelled_flat by (cases ps rule: remdups_adj.cases) auto
  hence "segs = []" if "list_all2 spells_segment ps segs" "list_all (wf_segment extended) segs"
      "join_with CHR ''/'' ps = []" for ps
    using that by (cases segs) auto
  hence "segs = [] \<longleftrightarrow> list_all (wf_segment extended) segs \<and>
      (\<exists>ps. list_all2 spells_segment ps segs \<and> [] = join_with CHR ''/'' ps)"
    by (metis join_with.simps(1) list.pred_inject(1) list_all2_Nil)
  thus ?thesis using True assms(2) by (auto simp: parse_body_def)
next
  case False
  have pieces: "ps = top_pieces 0 rest"
    if "list_all2 spells_segment ps segs" "list_all (wf_segment extended) segs"
      "rest = join_with CHR ''/'' ps" for ps
  proof -
    have "list_all2 (\<lambda>p x. wf_segment extended x \<and> spells_segment p x) ps segs"
      using that(1,2) list_all2_wf_spells by blast
    hence "\<forall>p \<in> set ps. flat {CHR ''/'', CHR '':''} 0 p = Some 0"
      using spelled_flat by (fastforce simp: list_all2_conv_all_nth in_set_conv_nth)
    hence "\<forall>p \<in> set ps. flat {CHR ''/''} 0 p = Some 0" using flat_mono by blast
    moreover have "ps \<noteq> []" using that(3) False by auto
    ultimately show ?thesis using top_pieces_join [of ps] that(3) by simp
  qed
  show ?thesis using split_and_parse_segments_Inr [OF assms] False pieces join_top_pieces [of 0 rest]
    by (auto simp: parse_body_def list_all2_wf_spells)
qed

lemma parse_body_safe: "is_str rest \<Longrightarrow> flat {} 0 rest = Some d \<Longrightarrow> \<not> panics (parse_body rest extended)"
  using split_and_parse_segments_safe by (simp add: parse_body_def)

lemma parse_template_eval:
  "parse_template (CHR ''/'' # u) g =
     try_bind (split_verb (CHR ''/'' # u)) (\<lambda>(body, verb).
     try_bind (str_slice body 1 (length body)) (\<lambda>rest.
     try_bind (parse_body rest (segment_affixes g)) (\<lambda>segs.
     try_bind (validate_rest_position segs) (\<lambda>_.
       Inr \<lparr>template_segments = segs, template_verb = verb\<rparr>))))"
  by (simp add: parse_template_def parse_inner_def parse_body_def)

lemma parse_template_no_slash:
  "s = [] \<or> hd s \<noteq> CHR ''/'' \<Longrightarrow> parse_template s g = parse_err MissingLeadingSlash"
  by (cases s) (auto simp: parse_template_def parse_inner_def)

lemma split_verb_body:
  assumes "is_str (CHR ''/'' # u)" "split_verb (CHR ''/'' # u) = Inr (body, verb)"
  obtains rest d where "body = CHR ''/'' # rest" "CHR ''/'' # u = body @ verb_text verb" "wf_verb verb"
    "is_str rest" "flat {CHR '':''} 0 rest = Some d" "verb \<noteq> None \<Longrightarrow> d = 0"
    "(str_slice body 1 (length body) :: string parsed) = Inr rest"
proof -
  have "\<exists>d. CHR ''/'' # u = body @ verb_text verb \<and> wf_verb verb \<and>
      flat {CHR '':''} 0 body = Some d \<and> (verb \<noteq> None \<longrightarrow> d = 0)"
    using assms by (cases rule: split_verb_cases [of "CHR ''/'' # u", case_names str err none some])
      (auto simp: verb_text_def wf_verb_def)
  then obtain d where d: "CHR ''/'' # u = body @ verb_text verb" "wf_verb verb"
      "flat {CHR '':''} 0 body = Some d" "verb \<noteq> None \<Longrightarrow> d = 0"
    by blast
  obtain rest where body: "body = CHR ''/'' # rest"
    using d(1) by (cases body) (auto simp: verb_text_def split: option.splits)
  have str: "is_str body" using assms(1) d(1) is_str_prefix by metis
  show ?thesis
    using that [OF body d(1,2)] d(3,4) body is_str_tail [of "CHR ''/''" rest] str
      str_slice_tail [of "CHR ''/''" rest] by simp
qed

lemma split_verb_complete:
  assumes "is_str (body @ verb_text verb)" "flat {CHR '':''} 0 body = Some 0" "wf_verb verb"
  shows "split_verb (body @ verb_text verb) = Inr (body, verb)"
proof (cases verb)
  case None
  thus ?thesis using split_verb_loop_skip [OF assms(2), of "[]" 0]
    by (simp add: split_verb_def verb_text_def)
next
  case (Some v)
  hence "split_verb_loop (body @ CHR '':'' # v) 0 0 None = Inr (Some (length body))"
    using split_verb_loop_skip [OF assms(2), of "CHR '':'' # v" 0] assms(3)
      split_verb_loop_literal [of v "Suc (length body)" "length body"]
    by (simp add: wf_verb_def is_valid_literal_def)
  thus ?thesis using split_verb_eval [of body v] assms(1,3) Some
    by (simp add: verb_text_def wf_verb_def)
qed

lemma spells_template_ascii:
  assumes "wf_template g t" "spells_template s t"
  obtains ps where "list_all2 spells_segment ps (template_segments t)"
    "s = CHR ''/'' # join_with CHR ''/'' ps @ verb_text (template_verb t)"
    "flat {CHR '':''} 0 (join_with CHR ''/'' ps) = Some 0" "list_all is_ascii s"
proof -
  obtain ps where ps: "list_all2 spells_segment ps (template_segments t)"
    "s = CHR ''/'' # join_with CHR ''/'' ps @ verb_text (template_verb t)"
    using assms(2) by (auto simp: spells_template_def)
  have "list_all2 (\<lambda>p x. wf_segment (segment_affixes g) x \<and> spells_segment p x) ps (template_segments t)"
    using ps(1) assms(1) by (simp add: list_all2_wf_spells wf_template_def)
  hence all: "\<forall>p \<in> set ps. flat {CHR ''/'', CHR '':''} 0 p = Some 0 \<and> list_all is_ascii p"
    using spelled_flat by (fastforce simp: list_all2_conv_all_nth in_set_conv_nth)
  hence "\<forall>p \<in> set ps. flat {CHR '':''} 0 p = Some 0" using flat_mono by blast
  hence "flat {CHR '':''} 0 (join_with CHR ''/'' ps) = Some 0" by (rule flat_join) simp_all
  moreover have "list_all is_ascii (join_with c ps)" if "is_ascii c" for c
    using all that by (induction c ps rule: join_with.induct) simp_all
  moreover have "list_all is_ascii (verb_text (template_verb t))"
    using assms(1) valid_literal_ascii
    by (auto simp: wf_template_def wf_verb_def verb_text_def is_valid_literal_def split: option.splits)
  ultimately show ?thesis using that ps by simp
qed

lemma parse_template_complete:
  assumes "wf_template g t" "spells_template s t"
  shows "parse_template s g = Inr t"
proof -
  obtain ps where ps: "list_all2 spells_segment ps (template_segments t)"
    "s = CHR ''/'' # join_with CHR ''/'' ps @ verb_text (template_verb t)"
    "flat {CHR '':''} 0 (join_with CHR ''/'' ps) = Some 0" "list_all is_ascii s"
    using spells_template_ascii [OF assms] .
  let ?rest = "join_with CHR ''/'' ps"
  have str: "is_str s" "is_str (CHR ''/'' # ?rest)" "is_str ?rest"
    using ps(2,4) is_str_ascii by (simp_all add: is_str_def)
  have "split_verb s = Inr (CHR ''/'' # ?rest, template_verb t)"
    using split_verb_complete [of "CHR ''/'' # ?rest" "template_verb t"] str(1) ps(2,3) assms(1)
    by (simp add: wf_template_def)
  moreover have "parse_body ?rest (segment_affixes g) = Inr (template_segments t)"
    using parse_body_Inr [OF str(3) ps(3)] ps(1) assms(1) by (auto simp: wf_template_def)
  moreover have "validate_rest_position (template_segments t) = Inr ()"
    using assms(1) validate_rest_position_eval [of "segment_affixes g"] by (simp add: wf_template_def)
  moreover have "(str_slice (CHR ''/'' # ?rest) (Suc 0) (Suc (length ?rest)) :: string parsed) =
      Inr ?rest"
    using str_slice_tail [OF str(2)] by simp
  ultimately show ?thesis using ps(2) by (simp add: parse_template_eval)
qed

lemma parse_template_sound:
  assumes "is_str s" "parse_template s g = Inr t"
  shows "wf_template g t \<and> spells_template s t"
proof (cases "s = [] \<or> hd s \<noteq> CHR ''/''")
  case False
  then obtain u where s: "s = CHR ''/'' # u" by (cases s) auto
  obtain body verb where sv: "split_verb s = Inr (body, verb)"
    using assms(2) s parse_template_eval by (auto simp: try_bind_eq_Inr)
  obtain rest d where r: "body = CHR ''/'' # rest" "s = body @ verb_text verb" "wf_verb verb"
    "is_str rest" "flat {CHR '':''} 0 rest = Some d"
    "(str_slice body 1 (length body) :: string parsed) = Inr rest"
    using split_verb_body assms(1) sv unfolding s by metis
  obtain segs where segs: "parse_body rest (segment_affixes g) = Inr segs"
      "validate_rest_position segs = Inr ()" "t = \<lparr>template_segments = segs, template_verb = verb\<rparr>"
    using assms(2) s sv r(6) parse_template_eval by (auto simp: try_bind_eq_Inr)
  obtain ps where "list_all (wf_segment (segment_affixes g)) segs"
      "list_all2 spells_segment ps segs" "rest = join_with CHR ''/'' ps"
    using segs(1) parse_body_Inr [OF r(4,5)] by blast
  moreover from this have "rest_last segs"
    using segs(2) validate_rest_position_eval by (metis Inl_Inr_False)
  ultimately show ?thesis using segs(3) r(1-3)
    by (auto simp: wf_template_def spells_template_def)
qed (use assms(2) parse_template_no_slash in simp)

lemma write_segments_join:
  "write_segments idx segs =
     (if idx \<noteq> 0 \<and> segs \<noteq> [] then ''/'' else []) @ join_with CHR ''/'' (map write_segment segs)"
proof (induction segs arbitrary: idx)
  case (Cons x segs)
  show ?case using Cons.IH [of "Suc idx"] by (cases segs) simp_all
qed simp

lemma template_display_join:
  "template_display t =
     CHR ''/'' # join_with CHR ''/'' (map write_segment (template_segments t)) @ verb_text (template_verb t)"
  by (simp add: template_display_def write_segments_join verb_text_def split: option.splits)

lemma template_display_spells: "spells_template (template_display t) t"
  unfolding spells_template_def template_display_join
  by (rule exI [of _ "map write_segment (template_segments t)"])
     (simp add: list_all2_conv_all_nth write_segment_spells)

section \<open>Properties\<close>

text \<open>
  C27. The parser accepts exactly the documented grammar: on every string, parsing succeeds with a
  template if and only if that template is well formed (valid literals, field paths and
  sub-templates, \<open>**\<close> only as the last atom of the flattened template, a valid verb, affixes only in
  the extended grammar) and the string spells it.
\<close>

theorem parse_template_exact:
  assumes "is_str s"
  shows "parse_template s g = Inr t \<longleftrightarrow> wf_template g t \<and> spells_template s t"
  using parse_template_sound [OF assms] parse_template_complete by blast

theorem parse_template_exact_witness:
  "wf_template grammar_new
     \<lparr>template_segments = [Literal ''a'', Variable (variable_new ''b.c'' ''x/**'')],
      template_verb = Some ''go''\<rparr>"
proof -
  have "is_str ''/a/{b.c=x/**}:go''" by code_simp
  moreover have "parse_template ''/a/{b.c=x/**}:go'' grammar_new =
      Inr \<lparr>template_segments = [Literal ''a'', Variable (variable_new ''b.c'' ''x/**'')],
        template_verb = Some ''go''\<rparr>"
    by code_simp
  ultimately show ?thesis using parse_template_exact by blast
qed

lemma parse_template_safe:
  assumes "is_str s"
  shows "\<not> panics (parse_template s g)"
proof (cases "s = [] \<or> hd s \<noteq> CHR ''/''")
  case False
  then obtain u where s: "s = CHR ''/'' # u" by (cases s) auto
  show ?thesis
  proof (cases "split_verb s")
    case (Inl e)
    have "\<exists>k. split_verb s = parse_err k"
      by (rule split_verb_cases [OF assms]) (use Inl in auto)
    thus ?thesis using s by (auto simp: parse_template_eval)
  next
    case (Inr bv)
    then obtain body verb where sv: "split_verb s = Inr (body, verb)" by (cases bv) auto
    obtain rest d where r: "is_str rest" "flat {CHR '':''} 0 rest = Some d"
      "(str_slice body 1 (length body) :: string parsed) = Inr rest"
      using split_verb_body assms sv unfolding s by metis
    have "\<not> panics (parse_body rest (segment_affixes g))"
      using parse_body_safe [OF r(1)] flat_mono [OF r(2)] by blast
    moreover have "\<not> panics (validate_rest_position segs)"
      if "parse_body rest (segment_affixes g) = Inr segs" for segs
    proof -
      have "list_all (wf_segment (segment_affixes g)) segs"
        using that parse_body_Inr [OF r(1,2)] by blast
      thus ?thesis by (simp add: validate_rest_position_eval)
    qed
    ultimately show ?thesis using s sv r(3) by (auto simp: parse_template_eval panics_try_bind)
  qed
qed (use parse_template_no_slash in simp)

text \<open>
  C28. Parsing never panics: on every string no slice is out of range or inside a character, no brace
  depth underflows, no iterator runs past its end and both \<open>expect\<close>s succeed.
\<close>

theorem parse_template_never_panics:
  assumes "is_str s"
  shows "\<not> panics (parse_template s g)"
  by (rule parse_template_safe [OF assms])

theorem parse_template_never_panics_witness:
  "\<not> panics (parse_template (''/x-{a'' @ [CHR 0xC3, CHR 0xA9] @ ''}/{b'')
     (with_segment_affixes grammar_new))"
  by (rule parse_template_never_panics) code_simp

lemma spelled_out_star:
  assumes "spells_segment p x" "p \<noteq> write_segment x"
  shows "\<exists>a b. p = a @ ''=*}'' @ b"
proof (cases x)
  case (Variable v)
  hence "p = (''{'' @ var_field v) @ ''=*}'' @ []"
    using assms by (simp add: spells_segment_def)
  thus ?thesis by blast
qed (use assms in simp_all)

lemma join_with_infix:
  "p \<in> set ps \<Longrightarrow> p = a @ m @ b \<Longrightarrow> \<exists>a' b'. join_with c ps = a' @ m @ b'"
proof (induction c ps rule: join_with.induct)
  case (3 c q r ps)
  show ?case
  proof (cases "p = q")
    case True
    thus ?thesis using 3(3)
      by (intro exI [of _ a] exI [of _ "b @ c # join_with c (r # ps)"]) simp
  next
    case False
    then obtain a' b' where "join_with c (r # ps) = a' @ m @ b'" using 3 by auto
    thus ?thesis by (intro exI [of _ "q @ c # a'"] exI [of _ b']) simp
  qed
qed auto

text \<open>
  C33. Printing and parsing are inverse: a parsed template prints to a string that parses to the same
  template, and the printed string is the input itself unless the input spells out \<open>=*}\<close>, which is
  printed in its short form.
\<close>

theorem template_display_roundtrip:
  assumes "is_str s" "parse_template s g = Inr t"
  shows "parse_template (template_display t) g = Inr t \<and>
    (template_display t = s \<or> (\<exists>a b. s = a @ ''=*}'' @ b))"
proof
  have wf: "wf_template g t" "spells_template s t" using parse_template_sound [OF assms] by simp_all
  thus "parse_template (template_display t) g = Inr t"
    using parse_template_complete template_display_spells by blast
  obtain ps where ps: "list_all2 spells_segment ps (template_segments t)"
      "s = CHR ''/'' # join_with CHR ''/'' ps @ verb_text (template_verb t)"
    using wf(2) by (auto simp: spells_template_def)
  show "template_display t = s \<or> (\<exists>a b. s = a @ ''=*}'' @ b)"
  proof (cases "ps = map write_segment (template_segments t)")
    case False
    then obtain i where i: "i < length ps" "ps ! i \<noteq> write_segment (template_segments t ! i)"
      using list_all2_lengthD [OF ps(1)] by (auto simp: list_eq_iff_nth_eq)
    then obtain a b where ab: "ps ! i = a @ ''=*}'' @ b"
      using spelled_out_star ps(1) by (meson list_all2_nthD)
    then obtain a' b' where "join_with CHR ''/'' ps = a' @ ''=*}'' @ b'"
      using join_with_infix [OF nth_mem [OF i(1)] ab, of "CHR ''/''"] by blast
    hence "s = (CHR ''/'' # a') @ ''=*}'' @ (b' @ verb_text (template_verb t))" using ps(2) by simp
    thus ?thesis by blast
  qed (use ps(2) template_display_join in simp)
qed

theorem template_display_roundtrip_witness:
  "template_display \<lparr>template_segments = [Variable (variable_new ''a'' ''*''), Affix ''v'' ''n'' ''.x''],
     template_verb = None\<rparr> = ''/{a}/v{n}.x''"
proof -
  let ?t = "\<lparr>template_segments = [Variable (variable_new ''a'' ''*''), Affix ''v'' ''n'' ''.x''],
     template_verb = None\<rparr>"
  have "is_str ''/{a}/v{n}.x''" by code_simp
  moreover have "parse_template ''/{a}/v{n}.x'' (with_segment_affixes grammar_new) = Inr ?t"
    by code_simp
  ultimately have "template_display ?t = ''/{a}/v{n}.x'' \<or> (\<exists>a b. ''/{a}/v{n}.x'' = a @ ''=*}'' @ b)"
    using template_display_roundtrip by blast
  moreover have "CHR ''='' \<notin> set ''/{a}/v{n}.x''" by simp
  hence "''/{a}/v{n}.x'' \<noteq> a @ ''=*}'' @ b" for a b
    by (metis append_Cons in_set_conv_decomp)
  ultimately show ?thesis by blast
qed

lemma wf_segment_strict:
  "wf_segment False x \<longleftrightarrow> wf_segment True x \<and> (\<forall>p n s. x \<noteq> Affix p n s)"
  by (cases x) simp_all

text \<open>
  C35. The extended grammar is conservative: the strict grammar accepts a string with a result exactly
  if the extended grammar accepts it with the same result and the result has no affix segment.
\<close>

theorem strict_grammar_conservative:
  assumes "is_str s"
  shows "parse_template s grammar_new = Inr t \<longleftrightarrow>
    parse_template s (with_segment_affixes grammar_new) = Inr t \<and>
    (\<forall>p n q. Affix p n q \<notin> set (template_segments t))"
proof -
  have "wf_template grammar_new t \<longleftrightarrow> wf_template (with_segment_affixes grammar_new) t \<and>
      (\<forall>p n q. Affix p n q \<notin> set (template_segments t))"
    by (auto simp: wf_template_def grammar_new_def with_segment_affixes_def list_all_iff
        wf_segment_strict)
  thus ?thesis
    using parse_template_sound [OF assms] parse_template_complete by blast
qed

theorem strict_grammar_conservative_witness:
  "parse_template ''/a/{b}'' (with_segment_affixes grammar_new) =
     Inr \<lparr>template_segments = [Literal ''a'', Variable (variable_new ''b'' ''*'')], template_verb = None\<rparr>"
proof -
  have "is_str ''/a/{b}''" by code_simp
  moreover have "parse_template ''/a/{b}'' grammar_new =
     Inr \<lparr>template_segments = [Literal ''a'', Variable (variable_new ''b'' ''*'')], template_verb = None\<rparr>"
    by code_simp
  ultimately show ?thesis using strict_grammar_conservative by blast
qed

end
