(* ===== verification/Router_Scan.thy ===== *)
theory Router_Scan
  imports Rust_Str
begin

text \<open>
  Request paths of the crate \<open>routerama\<close> (\<open>codegen_helpers/scan.rs\<close>, \<open>codegen_helpers/scanned_path.rs\<close>):
  splitting off a custom verb, the segment scanner in its scalar, SSE2 and NEON versions, and the
  ranges read back from a scan.

  The offset buffers are lists of naturals. A vector load is the list of its sixteen bytes; the
  result of a comparison followed by a move-mask is the word with one bit (SSE2) or one nibble
  (NEON) per byte. Reads through \<open>get_unchecked\<close> are \<open>Panicked\<close> where they would be undefined
  behaviour, so safety theorems cover them.
\<close>

unbundle bit_operations_syntax

section \<open>The custom verb\<close>

datatype invalid_path = InvalidPath

type_synonym 'a resolved = "(invalid_path, 'a) result"

text \<open>\<open>Iterator::rposition\<close> on bytes.\<close>

fun rposition :: "(char \<Rightarrow> bool) \<Rightarrow> string \<Rightarrow> nat option" where
  "rposition P [] = None"
| "rposition P (b # bs) =
     (case rposition P bs of Some i \<Rightarrow> Some (Suc i) | None \<Rightarrow> if P b then Some 0 else None)"

definition path_split_verb :: "string \<Rightarrow> (string \<times> string option) resolved" where
  "path_split_verb path =
     (case rposition (\<lambda>b. b = CHR '':'' \<or> b = CHR ''/'' \<or> b = CHR ''?'' \<or> b = CHR ''#'') path of
        Some colon \<Rightarrow>
          if path ! colon \<noteq> CHR '':'' then Inr (path, None)
          else try_bind (str_slice path (colon + 1) (length path)) (\<lambda>verb.
            if verb = [] then Inr (path, None)
            else try_bind (str_slice path 0 colon) (\<lambda>body. Inr (body, Some verb)))
      | None \<Rightarrow> Inr (path, None))"

section \<open>Scanning segments\<close>

record scan_result =
  scan_count :: nat
  scan_valid :: bool

text \<open>The local variables of a scan: the two buffers, the count, the start of the segment, validity.\<close>

record scanner =
  sc_starts :: "nat list"
  sc_ends :: "nat list"
  sc_count :: nat
  sc_start :: nat
  sc_valid :: bool

definition scanner_init :: "nat list \<Rightarrow> nat list \<Rightarrow> scanner" where
  "scanner_init starts ends =
     \<lparr>sc_starts = starts, sc_ends = ends, sc_count = 0, sc_start = 0, sc_valid = True\<rparr>"

definition scanner_cap :: "scanner \<Rightarrow> nat" where
  "scanner_cap sc = min (length (sc_starts sc)) (length (sc_ends sc))"

definition store_range :: "nat \<Rightarrow> nat \<Rightarrow> scanner \<Rightarrow> scanner" where
  "store_range base idx sc =
     (if sc_count sc < scanner_cap sc
      then sc\<lparr>sc_starts := (sc_starts sc)[sc_count sc := base + sc_start sc],
              sc_ends := (sc_ends sc)[sc_count sc := base + idx]\<rparr>
      else sc)"

definition end_segment :: "nat \<Rightarrow> nat \<Rightarrow> scanner \<Rightarrow> scanner" where
  "end_segment base idx sc =
     (store_range base idx sc)\<lparr>sc_count := sc_count sc + 1, sc_start := idx + 1\<rparr>"

abbreviation is_forbidden :: "char \<Rightarrow> bool" where
  "is_forbidden b \<equiv> b = CHR ''?'' \<or> b = CHR ''#''"

fun scan_bytes :: "nat \<Rightarrow> string \<Rightarrow> nat \<Rightarrow> scanner \<Rightarrow> scanner" where
  "scan_bytes base [] idx sc = sc"
| "scan_bytes base (b # bs) idx sc =
     scan_bytes base bs (idx + 1)
       (if b = CHR ''/'' then end_segment base idx sc
        else if is_forbidden b then sc\<lparr>sc_valid := False\<rparr>
        else sc)"

definition strip_slash :: "string \<Rightarrow> string" where
  "strip_slash body = (case body of [] \<Rightarrow> body | b # bs \<Rightarrow> if b = CHR ''/'' then bs else body)"

definition finish_scan :: "nat \<Rightarrow> nat \<Rightarrow> scanner \<Rightarrow> scan_result \<times> nat list \<times> nat list" where
  "finish_scan base n sc =
     (let sc' = store_range base n sc
      in (\<lparr>scan_count = sc_count sc' + 1, scan_valid = sc_valid sc'\<rparr>, sc_starts sc', sc_ends sc'))"

definition scan_segments_scalar ::
  "string \<Rightarrow> nat list \<Rightarrow> nat list \<Rightarrow> scan_result \<times> nat list \<times> nat list" where
  "scan_segments_scalar body starts ends =
     (let rest = strip_slash body
      in if rest = [] then (\<lparr>scan_count = 0, scan_valid = True\<rparr>, starts, ends)
         else let base = length body - length rest
              in finish_scan base (length rest)
                   (scan_bytes base rest 0 (scanner_init starts ends)))"

subsection \<open>SSE2\<close>

text \<open>\<open>_mm_movemask_epi8\<close> of a comparison: bit \<open>j\<close> is set if the predicate holds of byte \<open>j\<close>.\<close>

definition movemask :: "(char \<Rightarrow> bool) \<Rightarrow> string \<Rightarrow> u32" where
  "movemask P chunk = horner_sum of_bool 2 (map P chunk)"

definition trailing_zeros :: "'a::len word \<Rightarrow> nat" where
  "trailing_zeros m = length (takeWhile (\<lambda>j. \<not> bit m j) [0..<LENGTH('a)])"

definition vector_load :: "string \<Rightarrow> nat \<Rightarrow> string" where
  "vector_load bytes i = take 16 (drop i bytes)"

lemma unat_and_less: "(m :: 'a::len word) \<noteq> 0 \<Longrightarrow> unat (m AND (m - 1)) < unat m"
proof -
  assume "m \<noteq> 0"
  hence "unat (m - 1) < unat m" by (simp add: unat_minus_one unat_gt_0)
  moreover have "m AND (m - 1) \<le> m - 1"
    by (simp add: word_le_def unsigned_and_eq AND_upper2)
  ultimately show ?thesis by (simp add: word_le_nat_alt)
qed

function sse2_mask_loop :: "nat \<Rightarrow> nat \<Rightarrow> u32 \<Rightarrow> scanner \<Rightarrow> scanner" where
  "sse2_mask_loop base at_byte m sc =
     (if m \<noteq> 0
      then sse2_mask_loop base at_byte (m AND (m - 1))
             (end_segment base (at_byte + trailing_zeros m) sc)
      else sc)"
  by pat_completeness auto
termination
  by (relation "measure (\<lambda>(_, _, m, _). unat m)") (simp_all add: unat_and_less)


declare sse2_mask_loop.simps [simp del]

text \<open>The loop over whole vectors.\<close>

function sse2_blocks :: "nat \<Rightarrow> string \<Rightarrow> nat \<Rightarrow> scanner \<Rightarrow> nat \<times> scanner" where
  "sse2_blocks base bytes i sc =
     (if i + 16 \<le> length bytes
      then let chunk = vector_load bytes i;
               sc = sc\<lparr>sc_valid := sc_valid sc \<and> movemask is_forbidden chunk = 0\<rparr>
           in sse2_blocks base bytes (i + 16)
                (sse2_mask_loop base i (movemask (\<lambda>b. b = CHR ''/'') chunk) sc)
      else (i, sc))"
  by pat_completeness auto
termination
  by (relation "measure (\<lambda>(_, bytes, i, _). length bytes - i)") auto

declare sse2_blocks.simps [simp del]

definition sse2_tail :: "nat \<Rightarrow> string \<Rightarrow> nat \<Rightarrow> scanner \<Rightarrow> scanner" where
  "sse2_tail base bytes i sc =
     (if i < length bytes
      then if 16 \<le> length bytes
        then let load_at = length bytes - 16;
                 chunk = vector_load bytes load_at;
                 sc = sc\<lparr>sc_valid := sc_valid sc \<and> movemask is_forbidden chunk = 0\<rparr>;
                 raw = movemask (\<lambda>b. b = CHR ''/'') chunk;
                 skip = i - load_at
             in sse2_mask_loop base load_at (raw AND NOT (push_bit skip 1 - 1)) sc
        else scan_bytes base (drop i bytes) i sc
      else sc)"

definition scan_segments_sse2 ::
  "string \<Rightarrow> nat list \<Rightarrow> nat list \<Rightarrow> scan_result \<times> nat list \<times> nat list" where
  "scan_segments_sse2 body starts ends =
     (let rest = strip_slash body
      in if rest = [] then (\<lparr>scan_count = 0, scan_valid = True\<rparr>, starts, ends)
         else let base = length body - length rest;
                  (i, sc) = sse2_blocks base rest 0 (scanner_init starts ends)
              in finish_scan base (length rest) (sse2_tail base rest i sc))"

subsection \<open>NEON\<close>

text \<open>
  \<open>vceqq_u8\<close> yields \<open>0xFF\<close> or \<open>0x00\<close> per byte; \<open>vshrn_n_u16::<4>\<close> reads the bytes as little-endian
  pairs, shifts each pair right by four and keeps its low byte; the eight bytes are one \<open>u64\<close>.
\<close>

definition vceqq :: "(char \<Rightarrow> bool) \<Rightarrow> string \<Rightarrow> u8 list" where
  "vceqq P chunk = map (\<lambda>b. if P b then 0xFF else 0) chunk"

fun vshrn4 :: "u8 list \<Rightarrow> u8 list" where
  "vshrn4 (lo # hi # lanes) =
     ucast (drop_bit 4 (push_bit 8 (ucast hi) OR ucast lo :: 16 word)) # vshrn4 lanes"
| "vshrn4 _ = []"

definition lane_u64 :: "u8 list \<Rightarrow> u64" where
  "lane_u64 bs = foldr (\<lambda>b acc. push_bit 8 acc OR ucast b) bs 0"

definition nibble_mask :: "(char \<Rightarrow> bool) \<Rightarrow> string \<Rightarrow> u64" where
  "nibble_mask P chunk = lane_u64 (vshrn4 (vceqq P chunk))"

lemma unat_clear_less:
  assumes "(m :: 'a::len word) AND k \<noteq> m"
  shows "unat (m AND k) < unat m"
proof -
  have "m AND k \<le> m" by (simp add: word_le_def unsigned_and_eq AND_upper1)
  thus ?thesis using assms by (simp add: word_le_nat_alt word_unat_eq_iff)
qed

text \<open>The lowest set bit.\<close>

lemma trailing_zeros_bit:
  assumes "(m :: 'a::len word) \<noteq> 0"
  shows "trailing_zeros m < LENGTH('a)" "bit m (trailing_zeros m)"
    "\<And>j. j < trailing_zeros m \<Longrightarrow> \<not> bit m j"
proof -
  let ?P = "\<lambda>j. \<not> bit m j" and ?L = "[0..<LENGTH('a)]"
  have "\<exists>j < LENGTH('a). bit m j" using assms by (metis bit_eqI bit_imp_le_length bit_0_eq bot_apply bot_bool_def)
  hence "takeWhile ?P ?L \<noteq> ?L" by (metis atLeastLessThan_iff set_takeWhileD set_upt zero_le)
  hence less: "trailing_zeros m < length ?L"
    unfolding trailing_zeros_def
    by (metis length_takeWhile_le nat_less_le takeWhile_eq_take take_all_iff order_refl)
  thus "trailing_zeros m < LENGTH('a)" by simp
  have "\<not> ?P (?L ! trailing_zeros m)"
    using less nth_length_takeWhile [of ?P ?L] unfolding trailing_zeros_def by blast
  thus "bit m (trailing_zeros m)" using less by simp
  show "\<not> bit m j" if "j < trailing_zeros m" for j
  proof -
    have "?L ! j \<in> set (takeWhile ?P ?L)"
      using that unfolding trailing_zeros_def by (metis nth_mem takeWhile_nth)
    thus ?thesis using that less by (auto dest: set_takeWhileD)
  qed
qed

function neon_mask_loop :: "nat \<Rightarrow> nat \<Rightarrow> u64 \<Rightarrow> scanner \<Rightarrow> scanner" where
  "neon_mask_loop base at_byte m sc =
     (if m \<noteq> 0
      then let tz = trailing_zeros m
           in neon_mask_loop base at_byte (m AND NOT (push_bit tz 0xF))
                (end_segment base (at_byte + drop_bit 2 tz) sc)
      else sc)"
  by pat_completeness auto
termination
proof (relation "measure (\<lambda>(_, _, m, _). unat m)")
  fix base at_byte :: nat and m :: u64 and sc :: scanner and tz
  assume m: "m \<noteq> 0" and tz: "tz = trailing_zeros m"
  have "\<not> bit (m AND NOT (push_bit tz 0xF)) tz"
    using trailing_zeros_bit(1) [OF m] tz
    by (simp add: bit_and_iff bit_not_iff bit_push_bit_iff bit_numeral_rec)
  hence "m AND NOT (push_bit tz 0xF) \<noteq> m" using trailing_zeros_bit(2) [OF m] tz by metis
  thus "((base, at_byte, m AND NOT (push_bit tz 0xF), end_segment base (at_byte + drop_bit 2 tz) sc),
      base, at_byte, m, sc) \<in> measure (\<lambda>(_, _, m, _). unat m)"
    by (simp add: unat_clear_less)
qed simp

declare neon_mask_loop.simps [simp del]

function neon_blocks :: "nat \<Rightarrow> string \<Rightarrow> nat \<Rightarrow> scanner \<Rightarrow> nat \<times> scanner" where
  "neon_blocks base bytes i sc =
     (if i + 16 \<le> length bytes
      then let chunk = vector_load bytes i;
               sc = sc\<lparr>sc_valid := sc_valid sc \<and> nibble_mask is_forbidden chunk = 0\<rparr>
           in neon_blocks base bytes (i + 16)
                (neon_mask_loop base i (nibble_mask (\<lambda>b. b = CHR ''/'') chunk) sc)
      else (i, sc))"
  by pat_completeness auto
termination
  by (relation "measure (\<lambda>(_, bytes, i, _). length bytes - i)") auto

declare neon_blocks.simps [simp del]

definition neon_tail :: "nat \<Rightarrow> string \<Rightarrow> nat \<Rightarrow> scanner \<Rightarrow> scanner" where
  "neon_tail base bytes i sc =
     (if i < length bytes
      then if 16 \<le> length bytes
        then let load_at = length bytes - 16;
                 chunk = vector_load bytes load_at;
                 sc = sc\<lparr>sc_valid := sc_valid sc \<and> nibble_mask is_forbidden chunk = 0\<rparr>;
                 raw = nibble_mask (\<lambda>b. b = CHR ''/'') chunk;
                 skip_nibbles = (i - load_at) * 4
             in neon_mask_loop base load_at (raw AND NOT (push_bit skip_nibbles 1 - 1)) sc
        else scan_bytes base (drop i bytes) i sc
      else sc)"

definition scan_segments_neon ::
  "string \<Rightarrow> nat list \<Rightarrow> nat list \<Rightarrow> scan_result \<times> nat list \<times> nat list" where
  "scan_segments_neon body starts ends =
     (let rest = strip_slash body
      in if rest = [] then (\<lparr>scan_count = 0, scan_valid = True\<rparr>, starts, ends)
         else let base = length body - length rest;
                  (i, sc) = neon_blocks base rest 0 (scanner_init starts ends)
              in finish_scan base (length rest) (neon_tail base rest i sc))"

text \<open>Which version a build uses.\<close>

datatype target_arch = X86_64 | Aarch64 | Other_arch

fun scan_segments_checked ::
  "target_arch \<Rightarrow> string \<Rightarrow> nat list \<Rightarrow> nat list \<Rightarrow> scan_result \<times> nat list \<times> nat list" where
  "scan_segments_checked X86_64 = scan_segments_sse2"
| "scan_segments_checked Aarch64 = scan_segments_neon"
| "scan_segments_checked Other_arch = scan_segments_scalar"

section \<open>The vector scanners are the scalar scanner\<close>

fun slashes :: "nat \<Rightarrow> string \<Rightarrow> nat list" where
  "slashes idx [] = []"
| "slashes idx (b # bs) = (if b = CHR ''/'' then [idx] else []) @ slashes (idx + 1) bs"

lemma end_segment_valid [simp]:
  "end_segment base j (sc\<lparr>sc_valid := v\<rparr>) = (end_segment base j sc)\<lparr>sc_valid := v\<rparr>"
  "sc_valid (end_segment base j sc) = sc_valid sc"
  by (simp_all add: end_segment_def store_range_def scanner_cap_def)

lemma fold_end_segment_valid [simp]:
  "fold (end_segment base) js (sc\<lparr>sc_valid := v\<rparr>) = (fold (end_segment base) js sc)\<lparr>sc_valid := v\<rparr>"
  "sc_valid (fold (end_segment base) js sc) = sc_valid sc"
  by (induction js arbitrary: sc) simp_all

lemma scan_bytes_fold:
  "scan_bytes base bs idx sc =
     (fold (end_segment base) (slashes idx bs) sc)
       \<lparr>sc_valid := sc_valid sc \<and> (\<forall>b \<in> set bs. \<not> is_forbidden b)\<rparr>"
  by (induction bs arbitrary: idx sc) simp_all

lemma scan_bytes_append:
  "scan_bytes base (xs @ ys) idx sc = scan_bytes base ys (idx + length xs) (scan_bytes base xs idx sc)"
  by (induction xs arbitrary: idx sc) simp_all

lemma slashes_filter:
  "slashes idx bs = map ((+) idx) (filter (\<lambda>j. bs ! j = CHR ''/'') [0..<length bs])"
proof (induction bs arbitrary: idx)
  case (Cons b bs)
  have "[0..<length (b # bs)] = 0 # map Suc [0..<length bs]"
    by (metis length_Cons map_Suc_upt upt_conv_Cons zero_less_Suc)
  thus ?case using Cons.IH [of "Suc idx"] by (simp add: filter_map o_def)
qed simp

subsection \<open>Walking the bits of a mask\<close>

lemma filter_upt_first:
  assumes "t < n" "P t" "\<And>j. j < t \<Longrightarrow> \<not> P j"
  shows "filter P [0..<n] = t # filter (\<lambda>j. P j \<and> j \<noteq> t) [0..<n]"
proof -
  have "[0..<n] = [0..<t] @ t # [Suc t..<n]"
    using assms(1) by (metis le_add1 upt_add_eq_append upt_conv_Cons le_add_diff_inverse less_imp_le add_0)
  moreover have "filter P [0..<t] = []" "filter (\<lambda>j. P j \<and> j \<noteq> t) [0..<t] = []"
    using assms(3) by (simp_all add: filter_empty_conv)
  moreover have "filter (\<lambda>j. P j \<and> j \<noteq> t) [Suc t..<n] = filter P [Suc t..<n]"
    by (rule filter_cong) auto
  ultimately show ?thesis using assms(2) by simp
qed

lemma bit_clear_lowest:
  assumes "(m :: 'a::len word) \<noteq> 0"
  shows "bit (m AND (m - 1)) j \<longleftrightarrow> bit m j \<and> j \<noteq> trailing_zeros m"
proof -
  define t where "t = trailing_zeros m"
  define y where "y = unat m div 2 ^ t"
  have low: "take_bit t (unat m) = 0"
    using trailing_zeros_bit(3) [OF assms] unfolding t_def
    by (intro bit_eqI) (auto simp: bit_take_bit_iff bit_unsigned_iff)
  hence m: "unat m = 2 ^ t * y"
    unfolding y_def take_bit_eq_mod by (metis add_0_right mult_div_mod_eq)
  have "bit (unat m) t"
    using trailing_zeros_bit(1,2) [OF assms] by (simp add: t_def bit_unsigned_iff)
  hence "odd y" by (simp add: y_def bit_iff_odd)
  hence "0 < y" by (cases y) auto
  hence "(2 ^ t * y - 1) div 2 ^ t = y - 1"
  proof (intro div_nat_eqI)
    show "2 ^ t * (y - 1) \<le> 2 ^ t * y - 1"
    proof -
      obtain z where "y = Suc z" using \<open>0 < y\<close> by (cases y) auto
      moreover have "(1::nat) \<le> 2 ^ t" by simp
      ultimately show ?thesis by (simp only: diff_Suc_1 mult_Suc_right)
    qed
    show "2 ^ t * y - 1 < 2 ^ t * Suc (y - 1)" using \<open>0 < y\<close> by simp
  qed
  moreover have pred: "unat (m - 1) = unat m - 1" using assms by (simp add: unat_minus_one)
  ultimately have above: "unat (m - 1) div 2 ^ t = y - 1" using m by simp
  have shift: "bit (unat w) (t + i) \<longleftrightarrow> bit (unat w div 2 ^ t) i" for w :: "'a word" and i
    by (simp add: bit_iff_odd power_add div_mult2_eq)
  show ?thesis
  proof (cases "j < t")
    case True
    thus ?thesis using trailing_zeros_bit(3) [OF assms] by (simp add: t_def bit_and_iff)
  next
    case False
    then obtain i where j: "j = t + i" by (metis le_add_diff_inverse linorder_not_less)
    have "bit (y - 1) i \<longleftrightarrow> bit y i \<and> i \<noteq> 0"
    proof -
      obtain k where "y = 2 * k + 1" using \<open>odd y\<close> by (rule oddE)
      thus ?thesis by (cases i) (simp_all add: bit_0 bit_Suc)
    qed
    hence "bit (unat (m - 1)) j \<longleftrightarrow> bit (unat m) j \<and> i \<noteq> 0"
      using shift [of "m - 1" i] shift [of m i] above j by (simp add: y_def)
    hence "bit (m - 1) j \<longleftrightarrow> bit m j \<and> i \<noteq> 0" if "j < LENGTH('a)"
      using that by (simp add: bit_unsigned_iff)
    thus ?thesis using j bit_imp_le_length [of m j] unfolding t_def [symmetric] by (auto simp: bit_and_iff)
  qed
qed

lemma sse2_mask_loop_fold:
  "sse2_mask_loop base i m sc = fold (end_segment base) (map ((+) i) (filter (bit m) [0..<32])) sc"
proof (induction base i m sc rule: sse2_mask_loop.induct)
  case (1 base i m sc)
  show ?case
  proof (cases "m = 0")
    case False
    let ?m' = "m AND (m - 1)"
    have "filter (bit m) [0..<32] =
        trailing_zeros m # filter (\<lambda>j. bit m j \<and> j \<noteq> trailing_zeros m) [0..<32]"
      using trailing_zeros_bit [OF False] by (intro filter_upt_first) simp_all
    also have "(\<lambda>j. bit m j \<and> j \<noteq> trailing_zeros m) = bit ?m'"
      using bit_clear_lowest [OF False] by auto
    finally show ?thesis using 1 [OF False] False by (simp add: sse2_mask_loop.simps [of base i m sc])
  qed (simp add: sse2_mask_loop.simps)
qed

lemma bit_movemask:
  "length chunk \<le> 32 \<Longrightarrow> bit (movemask P chunk) j \<longleftrightarrow> j < length chunk \<and> P (chunk ! j)"
  by (auto simp: movemask_def bit_horner_sum_bit_word_iff)

lemma movemask_0: "length chunk \<le> 32 \<Longrightarrow> movemask P chunk = 0 \<longleftrightarrow> (\<forall>b \<in> set chunk. \<not> P b)"
  by (auto simp: bit_eq_iff bit_movemask all_set_conv_all_nth)

lemma filter_upt_extend:
  "\<forall>j. P j \<longrightarrow> j < n \<Longrightarrow> n \<le> k \<Longrightarrow> filter P [0..<k] = filter P [0..<n]"
  by (metis (mono_tags, lifting) add_0 append_Nil2 atLeastLessThan_iff filter_append filter_empty_conv
      le_add_diff_inverse linorder_not_less set_upt upt_add_eq_append zero_le)

lemma sse2_mask_loop_slashes:
  assumes "length chunk \<le> 32"
  shows "sse2_mask_loop base i (movemask (\<lambda>b. b = CHR ''/'') chunk) sc =
    fold (end_segment base) (slashes i chunk) sc"
proof -
  have "filter (bit (movemask (\<lambda>b. b = CHR ''/'') chunk)) [0..<32] =
      filter (\<lambda>j. chunk ! j = CHR ''/'') [0..<length chunk]"
    using filter_upt_extend [of "bit (movemask (\<lambda>b. b = CHR ''/'') chunk)" "length chunk" 32] assms
    by (auto simp: bit_movemask intro: filter_cong)
  thus ?thesis by (simp add: sse2_mask_loop_fold slashes_filter)
qed

lemma slashes_append: "slashes i (xs @ ys) = slashes i xs @ slashes (i + length xs) ys"
  by (induction xs arbitrary: i) simp_all

lemma fold_end_segment_scan:
  "(fold (end_segment base) (slashes i chunk) sc)
     \<lparr>sc_valid := sc_valid sc \<and> (\<forall>b \<in> set chunk. \<not> is_forbidden b)\<rparr> = scan_bytes base chunk i sc"
  by (simp add: scan_bytes_fold)

lemma length_vector_load: "i + 16 \<le> length bytes \<Longrightarrow> length (vector_load bytes i) = 16"
  by (simp add: vector_load_def)

lemma drop_vector_load: "i + 16 \<le> length bytes \<Longrightarrow> drop i bytes = vector_load bytes i @ drop (i + 16) bytes"
  by (metis add.commute append_take_drop_id drop_drop vector_load_def)

text \<open>
  Both vector versions are a loop over blocks and a tail, given by the loop over a mask and the mask
  of a chunk. What they rely on of these is the interface below.
\<close>

locale vector_scanner =
  fixes mask_loop :: "nat \<Rightarrow> nat \<Rightarrow> 'a::len word \<Rightarrow> scanner \<Rightarrow> scanner"
    and vmask :: "(char \<Rightarrow> bool) \<Rightarrow> string \<Rightarrow> 'a word"
    and scale :: nat
  assumes mask_0: "length chunk = 16 \<Longrightarrow> vmask P chunk = 0 \<longleftrightarrow> (\<forall>b \<in> set chunk. \<not> P b)"
    and mask_slashes: "length chunk = 16 \<Longrightarrow> k < 16 \<Longrightarrow>
      mask_loop base i (vmask (\<lambda>b. b = CHR ''/'') chunk AND NOT (push_bit (k * scale) 1 - 1)) sc =
        fold (end_segment base) (slashes (i + k) (drop k chunk)) sc"
begin

lemma mask_slashes_all:
  "length chunk = 16 \<Longrightarrow> mask_loop base i (vmask (\<lambda>b. b = CHR ''/'') chunk) sc =
     fold (end_segment base) (slashes i chunk) sc"
  using mask_slashes [of chunk 0 base i sc] by simp

lemma block_step:
  assumes "length chunk = 16"
  shows "mask_loop base i (vmask (\<lambda>b. b = CHR ''/'') chunk)
      (sc\<lparr>sc_valid := sc_valid sc \<and> vmask is_forbidden chunk = 0\<rparr>) = scan_bytes base chunk i sc"
  using mask_0 [OF assms, of is_forbidden]
  by (simp add: mask_slashes_all [OF assms] flip: fold_end_segment_scan)

lemma tail_step:
  assumes "16 \<le> length bytes" "i < length bytes" "length bytes - 16 \<le> i"
    and "sc_valid sc \<Longrightarrow> \<forall>b \<in> set (take i bytes). \<not> is_forbidden b"
    and "load_at = length bytes - 16" "chunk = vector_load bytes load_at"
  shows "mask_loop base load_at
      (vmask (\<lambda>b. b = CHR ''/'') chunk AND NOT (push_bit ((i - load_at) * scale) 1 - 1))
      (sc\<lparr>sc_valid := sc_valid sc \<and> vmask is_forbidden chunk = 0\<rparr>) =
    scan_bytes base (drop i bytes) i sc"
proof -
  have chunk: "chunk = drop load_at bytes" "length chunk = 16"
    using assms(1,5,6) by (simp_all add: vector_load_def)
  have rest: "drop (i - load_at) chunk = drop i bytes" "load_at + (i - load_at) = i" "i - load_at < 16"
    using assms(1-3,5) chunk(1) by simp_all
  have "(\<forall>b \<in> set chunk. \<not> is_forbidden b) \<longleftrightarrow> (\<forall>b \<in> set (drop i bytes). \<not> is_forbidden b)"
    if "sc_valid sc"
  proof -
    have "chunk = take (i - load_at) chunk @ drop i bytes"
      using rest(1) by (metis append_take_drop_id)
    moreover have "set (take (i - load_at) chunk) \<subseteq> set (take i bytes)"
      using chunk(1) rest(2) by (metis drop_take set_drop_subset add_diff_cancel_left')
    ultimately show ?thesis using assms(4) [OF that] by (metis Un_iff set_append subsetD)
  qed
  hence valid: "(sc_valid sc \<and> vmask is_forbidden chunk = 0) \<longleftrightarrow>
      (sc_valid sc \<and> (\<forall>b \<in> set (drop i bytes). \<not> is_forbidden b))"
    using mask_0 [OF chunk(2), of is_forbidden] by blast
  show ?thesis
    unfolding valid mask_slashes [OF chunk(2) rest(3)] rest(1,2) by (simp add: scan_bytes_fold)
qed

end
lemma slashes_from:
  assumes "k \<le> length chunk"
  shows "map ((+) i) (filter (\<lambda>j. k \<le> j \<and> chunk ! j = CHR ''/'') [0..<length chunk]) =
    slashes (i + k) (drop k chunk)"
proof -
  let ?P = "\<lambda>j. k \<le> j \<and> chunk ! j = CHR ''/''"
  have "[0..<length chunk] = [0..<k] @ map (\<lambda>j. j + k) [0..<length chunk - k]"
    using assms upt_add_eq_append [of 0 k "length chunk - k"] by (simp add: map_add_upt)
  moreover have "filter ?P [0..<k] = []" by (simp add: filter_empty_conv)
  moreover have "filter (?P \<circ> (\<lambda>j. j + k)) [0..<length chunk - k] =
      filter (\<lambda>j. drop k chunk ! j = CHR ''/'') [0..<length chunk - k]"
    using assms by (intro filter_cong) (simp_all add: add.commute)
  ultimately show ?thesis
    by (simp add: slashes_filter filter_map o_def add.assoc add.commute [of _ k])
qed

lemma bit_skip: "bit (NOT (push_bit k 1 - 1) :: 'a::len word) j \<longleftrightarrow> j < LENGTH('a) \<and> k \<le> j"
  by (auto simp: bit_not_iff bit_mask_iff simp flip: mask_eq_exp_minus_1 simp: push_bit_eq_mult)

lemma bit_skip_exp: "bit (NOT (2 ^ k - 1) :: 'a::len word) j \<longleftrightarrow> j < LENGTH('a) \<and> k \<le> j"
  using bit_skip [of k j] by (simp add: push_bit_eq_mult)

interpretation sse2: vector_scanner sse2_mask_loop movemask 1
proof
  fix chunk :: string and P :: "char \<Rightarrow> bool"
  assume "length chunk = 16"
  thus "movemask P chunk = 0 \<longleftrightarrow> (\<forall>b \<in> set chunk. \<not> P b)" by (simp add: movemask_0)
next
  fix chunk :: string and k base i :: nat and sc
  assume len: "length chunk = 16" and k: "k < 16"
  define m where "m = movemask (\<lambda>b. b = CHR ''/'') chunk AND NOT (push_bit (k * 1) 1 - 1)"
  have bits: "bit m = (\<lambda>j. j < 16 \<and> k \<le> j \<and> chunk ! j = CHR ''/'')"
    using len by (auto simp: m_def bit_and_iff bit_skip_exp bit_movemask fun_eq_iff)
  have "filter (bit m) [0..<32] = filter (bit m) [0..<16]"
    by (rule filter_upt_extend) (simp_all add: bits)
  also have "\<dots> = filter (\<lambda>j. k \<le> j \<and> chunk ! j = CHR ''/'') [0..<16]"
    unfolding bits by (rule filter_cong) auto
  finally show "sse2_mask_loop base i
      (movemask (\<lambda>b. b = CHR ''/'') chunk AND NOT (push_bit (k * 1) 1 - 1)) sc =
      fold (end_segment base) (slashes (i + k) (drop k chunk)) sc"
    using slashes_from [of k chunk i] len k unfolding m_def [symmetric]
    by (simp add: sse2_mask_loop_fold)
qed

subsection \<open>Nibbles\<close>

lemma bit_lane_u64:
  "length bs \<le> 8 \<Longrightarrow> bit (lane_u64 bs) j \<longleftrightarrow> j div 8 < length bs \<and> bit (bs ! (j div 8)) (j mod 8)"
proof (induction bs arbitrary: j)
  case (Cons b bs)
  show ?case
  proof (cases "j < 8")
    case True
    thus ?thesis by (simp add: lane_u64_def bit_or_iff bit_push_bit_iff bit_ucast_iff)
  next
    case False
    then obtain i where j: "j = i + 8" by (metis add.commute le_add_diff_inverse linorder_not_less)
    have "bit (lane_u64 (b # bs)) j \<longleftrightarrow> j < 64 \<and> bit (lane_u64 bs) i"
      using bit_imp_le_length [of b j] j
      by (auto simp: lane_u64_def bit_or_iff bit_push_bit_iff bit_ucast_iff)
    moreover have "i div 8 < length bs \<Longrightarrow> j < 64" using j Cons.prems by simp
    ultimately show ?thesis using Cons j by auto
  qed
qed (simp add: lane_u64_def)

lemma length_vshrn4: "length (vshrn4 xs) = length xs div 2"
  by (induction xs rule: vshrn4.induct) simp_all

lemma bit_vshrn4:
  "a < length xs div 2 \<Longrightarrow> r < 8 \<Longrightarrow>
     bit (vshrn4 xs ! a) r \<longleftrightarrow> (if r < 4 then bit (xs ! (2 * a)) (r + 4) else bit (xs ! (2 * a + 1)) (r - 4))"
proof (induction xs arbitrary: a rule: vshrn4.induct)
  case (1 lo hi lanes)
  show ?case
  proof (cases a)
    case 0
    thus ?thesis using 1(3) bit_imp_le_length [of lo "r + 4"]
      by (auto simp: bit_ucast_iff bit_drop_bit_eq bit_or_iff bit_push_bit_iff add.commute [of r])
  next
    case (Suc a')
    thus ?thesis using 1 by simp
  qed
qed auto

lemma bit_vceqq: "j < length chunk \<Longrightarrow> r < 8 \<Longrightarrow> bit (vceqq P chunk ! j) r \<longleftrightarrow> P (chunk ! j)"
proof -
  have "(0xFF :: u8) = mask 8" by (simp add: mask_eq_exp_minus_1)
  hence "bit (0xFF :: u8) r = bit (mask 8 :: u8) r" by (simp only:)
  hence "bit (0xFF :: u8) r \<longleftrightarrow> r < 8" by (simp only: bit_mask_iff) auto
  thus "j < length chunk \<Longrightarrow> r < 8 \<Longrightarrow> bit (vceqq P chunk ! j) r \<longleftrightarrow> P (chunk ! j)"
    by (simp add: vceqq_def)
qed

lemma bit_nibble_mask:
  assumes "length chunk = 16"
  shows "bit (nibble_mask P chunk) j \<longleftrightarrow> j < 64 \<and> P (chunk ! (j div 4))"
proof -
  let ?xs = "vceqq P chunk"
  have len: "length ?xs = 16" "length (vshrn4 ?xs) = 8"
    using assms by (simp_all add: vceqq_def length_vshrn4)
  have "bit (nibble_mask P chunk) j \<longleftrightarrow> j < 64 \<and> bit (vshrn4 ?xs ! (j div 8)) (j mod 8)"
    using len(2) by (auto simp: nibble_mask_def bit_lane_u64)
  moreover have "bit (vshrn4 ?xs ! (j div 8)) (j mod 8) \<longleftrightarrow> P (chunk ! (j div 4))" if "j < 64"
  proof (cases "j mod 8 < 4")
    case True
    hence "j div 4 = 2 * (j div 8)" by presburger
    thus ?thesis using that True len assms by (simp add: bit_vshrn4 bit_vceqq)
  next
    case False
    hence "j div 4 = 2 * (j div 8) + 1" by presburger
    thus ?thesis using that False len assms by (simp add: bit_vshrn4 bit_vceqq)
  qed
  ultimately show ?thesis by blast
qed

lemma neon_mask_loop_fold:
  "(\<And>j. bit m j \<longleftrightarrow> j < 64 \<and> Q (j div 4)) \<Longrightarrow>
     neon_mask_loop base i m sc = fold (end_segment base) (map ((+) i) (filter Q [0..<16])) sc"
proof (induction base i m sc arbitrary: Q rule: neon_mask_loop.induct)
  case (1 base i m sc)
  show ?case
  proof (cases "m = 0")
    case True
    have "\<not> Q q" if "q < 16" for q using 1(2) [of "4 * q"] that True by simp
    hence "filter Q [0..<16] = []" by (simp add: filter_empty_conv)
    thus ?thesis using True by (simp add: neon_mask_loop.simps)
  next
    case False
    define tz where "tz = trailing_zeros m"
    define q where "q = tz div 4"
    note low = trailing_zeros_bit [OF False, folded tz_def]
    have Q: "Q q" "q < 16" using low(1,2) 1(2) [of tz] by (simp_all add: q_def)
    have "bit m (4 * q)" using 1(2) [of "4 * q"] Q by simp
    hence tz: "tz = 4 * q" using low(3) [of "4 * q"] unfolding q_def by fastforce
    have least: "\<not> Q j" if "j < q" for j using low(3) [of "4 * j"] 1(2) [of "4 * j"] that tz Q(2) by simp
    have "bit (push_bit tz 0xF :: u64) j \<longleftrightarrow> j div 4 = q" if "j < 64" for j
    proof -
      have "(0xF :: u64) = mask 4" by (simp add: mask_eq_exp_minus_1)
      hence "push_bit tz (0xF :: u64) = push_bit tz (mask 4)" by (simp only:)
      hence "bit (push_bit tz (0xF :: u64)) j \<longleftrightarrow> tz \<le> j \<and> j - tz < 4"
        using that by (simp only: bit_push_bit_iff bit_mask_iff) auto
      thus ?thesis using tz by auto
    qed
    hence "bit (m AND NOT (push_bit tz 0xF)) j \<longleftrightarrow> j < 64 \<and> (Q (j div 4) \<and> j div 4 \<noteq> q)" for j
      using 1(2) [of j] by (auto simp: bit_and_iff bit_not_iff)
    hence "neon_mask_loop base i (m AND NOT (push_bit tz 0xF)) (end_segment base (i + drop_bit 2 tz) sc) =
        fold (end_segment base) (map ((+) i) (filter (\<lambda>j. Q j \<and> j \<noteq> q) [0..<16]))
          (end_segment base (i + drop_bit 2 tz) sc)"
      using 1(1) [OF False tz_def, of "\<lambda>j. Q j \<and> j \<noteq> q"] by blast
    moreover have "drop_bit 2 tz = q" by (simp add: q_def drop_bit_eq_div)
    moreover have "filter Q [0..<16] = q # filter (\<lambda>j. Q j \<and> j \<noteq> q) [0..<16]"
      using Q least by (intro filter_upt_first)
    ultimately show ?thesis
      using False by (simp add: neon_mask_loop.simps [of base i m sc] Let_def tz_def [symmetric])
  qed
qed

interpretation neon: vector_scanner neon_mask_loop nibble_mask 4
proof
  fix chunk :: string and P :: "char \<Rightarrow> bool"
  assume len: "length chunk = 16"
  have "nibble_mask P chunk = 0 \<longleftrightarrow> (\<forall>j < 64. \<not> P (chunk ! (j div 4)))"
    using bit_nibble_mask [OF len] by (simp add: bit_eq_iff)
  also have "\<dots> \<longleftrightarrow> (\<forall>q < 16. \<not> P (chunk ! q))"
  proof (intro iffI allI impI)
    fix q :: nat
    assume all: "\<forall>j < 64. \<not> P (chunk ! (j div 4))" and "q < 16"
    thus "\<not> P (chunk ! q)" using spec [OF all, of "4 * q"] by simp
  qed (simp add: less_mult_imp_div_less)
  finally show "nibble_mask P chunk = 0 \<longleftrightarrow> (\<forall>b \<in> set chunk. \<not> P b)"
    using len by (auto simp: all_set_conv_all_nth)
next
  fix chunk :: string and k base i :: nat and sc
  assume len: "length chunk = 16" and k: "k < 16"
  let ?m = "nibble_mask (\<lambda>b. b = CHR ''/'') chunk AND NOT (push_bit (k * 4) 1 - 1)"
  have "bit ?m j \<longleftrightarrow> j < 64 \<and> (k \<le> j div 4 \<and> chunk ! (j div 4) = CHR ''/'')" for j
    using bit_nibble_mask [OF len] by (auto simp: bit_and_iff bit_skip_exp)
  hence "neon_mask_loop base i ?m sc =
      fold (end_segment base) (map ((+) i) (filter (\<lambda>j. k \<le> j \<and> chunk ! j = CHR ''/'') [0..<16])) sc"
    by (rule neon_mask_loop_fold)
  thus "neon_mask_loop base i ?m sc = fold (end_segment base) (slashes (i + k) (drop k chunk)) sc"
    using slashes_from [of k chunk i] len k by simp
qed

subsection \<open>Whole scans\<close>

locale segment_scanner = vector_scanner mask_loop vmask scale
  for mask_loop :: "nat \<Rightarrow> nat \<Rightarrow> 'a::len word \<Rightarrow> scanner \<Rightarrow> scanner"
    and vmask :: "(char \<Rightarrow> bool) \<Rightarrow> string \<Rightarrow> 'a word"
    and scale :: nat +
  fixes blocks :: "nat \<Rightarrow> string \<Rightarrow> nat \<Rightarrow> scanner \<Rightarrow> nat \<times> scanner"
    and tail :: "nat \<Rightarrow> string \<Rightarrow> nat \<Rightarrow> scanner \<Rightarrow> scanner"
    and scan_segments :: "string \<Rightarrow> nat list \<Rightarrow> nat list \<Rightarrow> scan_result \<times> nat list \<times> nat list"
  assumes blocks_unfold: "blocks base bytes i sc =
     (if i + 16 \<le> length bytes
      then let chunk = vector_load bytes i;
               sc = sc\<lparr>sc_valid := sc_valid sc \<and> vmask is_forbidden chunk = 0\<rparr>
           in blocks base bytes (i + 16) (mask_loop base i (vmask (\<lambda>b. b = CHR ''/'') chunk) sc)
      else (i, sc))"
    and tail_unfold: "tail base bytes i sc =
     (if i < length bytes
      then if 16 \<le> length bytes
        then let load_at = length bytes - 16;
                 chunk = vector_load bytes load_at;
                 sc = sc\<lparr>sc_valid := sc_valid sc \<and> vmask is_forbidden chunk = 0\<rparr>;
                 raw = vmask (\<lambda>b. b = CHR ''/'') chunk
             in mask_loop base load_at (raw AND NOT (push_bit ((i - load_at) * scale) 1 - 1)) sc
        else scan_bytes base (drop i bytes) i sc
      else sc)"
    and scan_unfold: "scan_segments body starts ends =
     (let rest = strip_slash body
      in if rest = [] then (\<lparr>scan_count = 0, scan_valid = True\<rparr>, starts, ends)
         else let base = length body - length rest;
                  (i, sc) = blocks base rest 0 (scanner_init starts ends)
              in finish_scan base (length rest) (tail base rest i sc))"
begin

text \<open>The block loop stops at the last whole vector, in the state of the scalar scan.\<close>

lemma blocks_scan:
  "i \<le> length bytes \<Longrightarrow> blocks base bytes i sc = (i', sc') \<Longrightarrow>
     i \<le> i' \<and> i' \<le> length bytes \<and> length bytes < i' + 16 \<and>
     sc' = scan_bytes base (take (i' - i) (drop i bytes)) i sc"
proof (induction "length bytes - i" arbitrary: i sc rule: less_induct)
  case less
  show ?case
  proof (cases "i + 16 \<le> length bytes")
    case True
    let ?chunk = "vector_load bytes i"
    have "blocks base bytes (i + 16) (scan_bytes base ?chunk i sc) = (i', sc')"
      using less(3) True block_step [OF length_vector_load [OF True]]
      by (simp add: blocks_unfold [of base bytes i sc] Let_def)
    hence IH: "i + 16 \<le> i'" "i' \<le> length bytes" "length bytes < i' + 16"
        "sc' = scan_bytes base (take (i' - (i + 16)) (drop (i + 16) bytes)) (i + 16)
           (scan_bytes base ?chunk i sc)"
      using less(1) [of "i + 16" "scan_bytes base ?chunk i sc"] True by simp_all
    have "take (i' - i) (drop i bytes) = ?chunk @ take (i' - (i + 16)) (drop (i + 16) bytes)"
      using IH(1) True drop_vector_load [OF True] length_vector_load [OF True] by simp
    thus ?thesis using IH length_vector_load [OF True] by (simp add: scan_bytes_append)
  next
    case False
    thus ?thesis using less(2,3) by (simp add: blocks_unfold [of base bytes i sc])
  qed
qed

lemma tail_scan:
  assumes "i \<le> length bytes" "length bytes < i + 16"
    and "sc_valid sc \<Longrightarrow> \<forall>b \<in> set (take i bytes). \<not> is_forbidden b"
  shows "tail base bytes i sc = scan_bytes base (drop i bytes) i sc"
proof (cases "i < length bytes \<and> 16 \<le> length bytes")
  case True
  thus ?thesis using tail_step [OF _ _ _ assms(3) refl refl, where base = base] assms(2)
    by (simp add: tail_unfold Let_def)
next
  case False
  thus ?thesis using assms(1) by (auto simp: tail_unfold)
qed

lemma scan_segments_is_scalar: "scan_segments body starts ends = scan_segments_scalar body starts ends"
proof -
  define rest where "rest = strip_slash body"
  define base where "base = length body - length rest"
  obtain i sc where b: "blocks base rest 0 (scanner_init starts ends) = (i, sc)"
    by (cases "blocks base rest 0 (scanner_init starts ends)") auto
  have i: "i \<le> length rest" "length rest < i + 16"
      "sc = scan_bytes base (take i rest) 0 (scanner_init starts ends)"
    using blocks_scan [OF _ b] by simp_all
  have "sc_valid sc \<Longrightarrow> \<forall>b \<in> set (take i rest). \<not> is_forbidden b"
    unfolding i(3) scan_bytes_fold by simp
  hence "tail base rest i sc = scan_bytes base (drop i rest) i sc" using tail_scan [OF i(1,2)] by simp
  also have "\<dots> = scan_bytes base rest 0 (scanner_init starts ends)"
    using scan_bytes_append [of base "take i rest" "drop i rest" 0] i by simp
  finally show ?thesis
    using b unfolding base_def rest_def by (simp add: scan_unfold scan_segments_scalar_def Let_def)
qed

end

interpretation sse2_scan: segment_scanner sse2_mask_loop movemask 1 sse2_blocks sse2_tail scan_segments_sse2
proof
  show "sse2_blocks base bytes i sc =
     (if i + 16 \<le> length bytes
      then let chunk = vector_load bytes i;
               sc = sc\<lparr>sc_valid := sc_valid sc \<and> movemask is_forbidden chunk = 0\<rparr>
           in sse2_blocks base bytes (i + 16)
                (sse2_mask_loop base i (movemask (\<lambda>b. b = CHR ''/'') chunk) sc)
      else (i, sc))" for base bytes i sc
    by (rule sse2_blocks.simps)
qed (simp_all add: sse2_tail_def scan_segments_sse2_def Let_def)

interpretation neon_scan: segment_scanner neon_mask_loop nibble_mask 4 neon_blocks neon_tail scan_segments_neon
proof
  show "neon_blocks base bytes i sc =
     (if i + 16 \<le> length bytes
      then let chunk = vector_load bytes i;
               sc = sc\<lparr>sc_valid := sc_valid sc \<and> nibble_mask is_forbidden chunk = 0\<rparr>
           in neon_blocks base bytes (i + 16)
                (neon_mask_loop base i (nibble_mask (\<lambda>b. b = CHR ''/'') chunk) sc)
      else (i, sc))" for base bytes i sc
    by (rule neon_blocks.simps)
qed (simp_all add: neon_tail_def scan_segments_neon_def Let_def)

lemma scan_segments_checked_scalar: "scan_segments_checked arch = scan_segments_scalar"
  by (cases arch) (auto simp: fun_eq_iff sse2_scan.scan_segments_is_scalar neon_scan.scan_segments_is_scalar)

text \<open>
  C34. The vector scanners agree with the scalar one: on every target the scan of a path writes the
  same offsets and returns the same count and validity as the byte-by-byte loop, whatever the
  length of the path and the capacity of the buffers.
\<close>

theorem vector_scans_agree:
  "scan_segments_checked arch body starts ends = scan_segments_scalar body starts ends"
  by (simp add: scan_segments_checked_scalar)

end
