(* ===== verification/Router_Path.thy ===== *)
theory Router_Path
  imports Router_Scan
begin

text \<open>
  A scanned request path (\<open>codegen_helpers/scanned_path.rs\<close>) and what its accessors return: the
  segments of the path, spans of segments, the rest of the path and the middle of a segment. Every
  unchecked read of the code is shown to be in range and on a character boundary.
\<close>

section \<open>Scanned paths\<close>

record scanned_path =
  sp_body :: string
  sp_starts :: "nat list"
  sp_ends :: "nat list"
  sp_capacity :: nat
  sp_count :: nat
  sp_valid :: bool

definition scan_path :: "target_arch \<Rightarrow> string \<Rightarrow> nat list \<Rightarrow> nat list \<Rightarrow> scanned_path" where
  "scan_path arch body starts ends =
     (case scan_segments_checked arch body starts ends of
        (result, starts, ends) \<Rightarrow>
          \<lparr>sp_body = body, sp_starts = starts, sp_ends = ends,
           sp_capacity = min (length starts) (length ends),
           sp_count = scan_count result, sp_valid = scan_valid result\<rparr>)"

definition get_unchecked :: "nat list \<Rightarrow> nat \<Rightarrow> nat resolved" where
  "get_unchecked xs i = (if i < length xs then Inr (xs ! i) else Inl (Panicked ''undefined behaviour''))"

definition path_segment :: "scanned_path \<Rightarrow> nat \<Rightarrow> string option resolved" where
  "path_segment p index =
     (if sp_count p \<le> index \<or> sp_capacity p \<le> index then Inr None
      else try_bind (get_unchecked (sp_starts p) index) (\<lambda>start.
        try_bind (get_unchecked (sp_ends p) index) (\<lambda>stop.
        try_bind (str_slice (sp_body p) start stop) (\<lambda>s. Inr (Some s)))))"

definition path_capture :: "scanned_path \<Rightarrow> nat \<Rightarrow> nat \<Rightarrow> string option resolved" where
  "path_capture p first_seg last_seg =
     (if last_seg < first_seg \<or> sp_count p \<le> last_seg \<or> sp_capacity p \<le> last_seg then Inr None
      else try_bind (get_unchecked (sp_starts p) first_seg) (\<lambda>start.
        try_bind (get_unchecked (sp_ends p) last_seg) (\<lambda>stop.
        try_bind (str_slice (sp_body p) start stop) (\<lambda>s. Inr (Some s)))))"

definition path_rest :: "scanned_path \<Rightarrow> nat \<Rightarrow> string option resolved" where
  "path_rest p first_seg =
     (if first_seg = sp_count p then Inr (Some [])
      else if sp_count p < first_seg then Inr None
      else if sp_capacity p \<le> first_seg then Inr None
      else try_bind (get_unchecked (sp_starts p) first_seg) (\<lambda>start.
        try_bind (str_slice (sp_body p) start (length (sp_body p))) (\<lambda>s. Inr (Some s))))"

definition path_affix :: "scanned_path \<Rightarrow> nat \<Rightarrow> nat \<Rightarrow> nat \<Rightarrow> string option resolved" where
  "path_affix p index prefix_len suffix_len =
     (if sp_count p \<le> index \<or> sp_capacity p \<le> index then Inr None
      else try_bind (get_unchecked (sp_starts p) index) (\<lambda>segment_start.
        try_bind (get_unchecked (sp_ends p) index) (\<lambda>segment_end.
          if segment_end < suffix_len then Inr None
          else let start = segment_start + prefix_len; stop = segment_end - suffix_len
               in if stop < start \<or> \<not> is_char_boundary (sp_body p) start \<or>
                     \<not> is_char_boundary (sp_body p) stop
                  then Inr None
                  else try_bind (str_slice (sp_body p) start stop) (\<lambda>s. Inr (Some s)))))"

section \<open>The ranges a scan stores\<close>

definition path_segments :: "string \<Rightarrow> string list" where
  "path_segments body =
     (if strip_slash body = [] then [] else split_on CHR ''/'' (strip_slash body))"

fun ranges :: "nat \<Rightarrow> nat \<Rightarrow> string \<Rightarrow> (nat \<times> nat) list" where
  "ranges start idx [] = [(start, idx)]"
| "ranges start idx (b # bs) =
     (if b = CHR ''/'' then (start, idx) # ranges (idx + 1) (idx + 1) bs else ranges start (idx + 1) bs)"

lemma end_segment_lengths [simp]:
  "length (sc_starts (end_segment base i sc)) = length (sc_starts sc)"
  "length (sc_ends (end_segment base i sc)) = length (sc_ends sc)"
  "scanner_cap (end_segment base i sc) = scanner_cap sc"
  "sc_count (end_segment base i sc) = Suc (sc_count sc)"
  "sc_start (end_segment base i sc) = Suc i"
  by (simp_all add: end_segment_def store_range_def scanner_cap_def)

lemma finish_scan_ranges:
  assumes "finish_scan base (idx + length bs) (scan_bytes base bs idx sc) = (r, starts, ends)"
    and "rs = ranges (sc_start sc) idx bs"
  shows "scan_count r = sc_count sc + length rs \<and>
    (scan_valid r \<longleftrightarrow> sc_valid sc \<and> (\<forall>b \<in> set bs. \<not> is_forbidden b)) \<and>
    length starts = length (sc_starts sc) \<and> length ends = length (sc_ends sc) \<and>
    (\<forall>k < scanner_cap sc.
       starts ! k = (if sc_count sc \<le> k \<and> k < sc_count sc + length rs
                     then base + fst (rs ! (k - sc_count sc)) else sc_starts sc ! k) \<and>
       ends ! k = (if sc_count sc \<le> k \<and> k < sc_count sc + length rs
                   then base + snd (rs ! (k - sc_count sc)) else sc_ends sc ! k))"
  using assms
proof (induction bs arbitrary: idx sc rs)
  case Nil
  thus ?case
    by (auto simp: finish_scan_def store_range_def scanner_cap_def Let_def nth_list_update
        split: if_splits)
next
  case (Cons b bs)
  show ?case
  proof (cases "b = CHR ''/''")
    case True
    let ?sc = "end_segment base idx sc" and ?rs = "ranges (Suc idx) (Suc idx) bs"
    have rs: "rs = (sc_start sc, idx) # ?rs" using Cons.prems(2) True by simp
    have fin: "finish_scan base (Suc idx + length bs) (scan_bytes base bs (Suc idx) ?sc) = (r, starts, ends)"
      using Cons.prems(1) True by simp
    have rs': "?rs = ranges (sc_start ?sc) (Suc idx) bs" by simp
    note IH = Cons.IH [OF fin rs']
    have stored: "sc_starts ?sc ! k = (if k = sc_count sc then base + sc_start sc else sc_starts sc ! k)"
        "sc_ends ?sc ! k = (if k = sc_count sc then base + idx else sc_ends sc ! k)"
      if "k < scanner_cap sc" for k
      using that by (auto simp: end_segment_def store_range_def scanner_cap_def nth_list_update)
    have "starts ! k = (if sc_count sc \<le> k \<and> k < sc_count sc + length rs
                     then base + fst (rs ! (k - sc_count sc)) else sc_starts sc ! k) \<and>
       ends ! k = (if sc_count sc \<le> k \<and> k < sc_count sc + length rs
                   then base + snd (rs ! (k - sc_count sc)) else sc_ends sc ! k)"
      if k: "k < scanner_cap sc" for k
    proof -
      have IHk: "starts ! k = (if Suc (sc_count sc) \<le> k \<and> k < Suc (sc_count sc) + length ?rs
          then base + fst (?rs ! (k - Suc (sc_count sc))) else sc_starts ?sc ! k)"
        "ends ! k = (if Suc (sc_count sc) \<le> k \<and> k < Suc (sc_count sc) + length ?rs
          then base + snd (?rs ! (k - Suc (sc_count sc))) else sc_ends ?sc ! k)"
        using IH k by simp_all
      show ?thesis
      proof (cases "Suc (sc_count sc) \<le> k")
        case True
        then obtain i where "k = Suc (sc_count sc + i)" by (metis Suc_le_D add_Suc le_Suc_ex)
        thus ?thesis using IHk stored [OF k] by (simp add: rs)
      next
        case False
        thus ?thesis using IHk stored [OF k] by (cases "k = sc_count sc") (simp_all add: rs)
      qed
    qed
    thus ?thesis using IH True rs by simp
  next
    case False
    let ?sc = "if is_forbidden b then sc\<lparr>sc_valid := False\<rparr> else sc"
    have fin: "finish_scan base (Suc idx + length bs) (scan_bytes base bs (Suc idx) ?sc) = (r, starts, ends)"
      using Cons.prems(1) False by simp
    have "rs = ranges (sc_start ?sc) (Suc idx) bs" using Cons.prems(2) False by simp
    from Cons.IH [OF fin this] show ?thesis using False by (auto simp: scanner_cap_def)
  qed
qed

fun piece_ranges :: "nat \<Rightarrow> string list \<Rightarrow> (nat \<times> nat) list" where
  "piece_ranges n [] = []"
| "piece_ranges n (p # ps) = (n, n + length p) # piece_ranges (n + length p + 1) ps"

definition before :: "string list \<Rightarrow> nat \<Rightarrow> string" where
  "before ps i = concat (map (\<lambda>p. p @ [CHR ''/'']) (take i ps))"

lemma ranges_pieces:
  "ranges start idx bs =
     (start, idx + length (hd (split_on CHR ''/'' bs))) #
     piece_ranges (idx + length (hd (split_on CHR ''/'' bs)) + 1) (tl (split_on CHR ''/'' bs))"
proof (induction bs arbitrary: start idx)
  case (Cons b bs)
  show ?case
  proof (cases "b = CHR ''/''")
    case True
    obtain q qs where "split_on CHR ''/'' bs = q # qs" by (cases "split_on CHR ''/'' bs") simp_all
    thus ?thesis using True Cons.IH [of "Suc idx" "Suc idx"] by simp
  next
    case False
    thus ?thesis using Cons.IH [of start "Suc idx"] by simp
  qed
qed simp

lemma ranges_split_on: "ranges n n bs = piece_ranges n (split_on CHR ''/'' bs)"
  using ranges_pieces [of n n bs]
  by (metis Suc_eq_plus1 list.collapse piece_ranges.simps(2) split_on_not_Nil)

lemma length_piece_ranges [simp]: "length (piece_ranges n ps) = length ps"
  by (induction ps arbitrary: n) simp_all

lemma piece_ranges_nth:
  "i < length ps \<Longrightarrow>
     piece_ranges n ps ! i = (n + length (before ps i), n + length (before ps i) + length (ps ! i))"
proof (induction ps arbitrary: n i)
  case (Cons p ps)
  thus ?case by (cases i) (simp_all add: before_def)
qed simp

lemma join_before:
  "i < length ps \<Longrightarrow> join_with CHR ''/'' ps = before ps i @ join_with CHR ''/'' (drop i ps)"
proof (induction i)
  case (Suc i)
  hence "drop i ps = ps ! i # drop (Suc i) ps" "drop (Suc i) ps \<noteq> []"
    by (simp_all add: Cons_nth_drop_Suc)
  thus ?case using Suc by (simp add: join_with_Cons before_def take_Suc_conv_app_nth)
qed (simp add: before_def)

lemma before_separator: "before ps i = [] \<or> (\<exists>pre. before ps i = pre @ [CHR ''/''])"
proof (cases "take i ps" rule: rev_cases)
  case (snoc qs q)
  thus ?thesis by (simp add: before_def)
qed (simp add: before_def)

lemma join_take:
  assumes "0 < m" "qs \<noteq> []"
  shows "\<exists>post. join_with CHR ''/'' qs = join_with CHR ''/'' (take m qs) @ post \<and>
    (post = [] \<or> (\<exists>post'. post = CHR ''/'' # post'))"
proof (cases "m < length qs")
  case True
  have "join_with CHR ''/'' (take m qs @ drop m qs) =
      join_with CHR ''/'' (take m qs) @ CHR ''/'' # join_with CHR ''/'' (drop m qs)"
    using True assms by (intro join_with_append) auto
  thus ?thesis by (intro exI [of _ "CHR ''/'' # join_with CHR ''/'' (drop m qs)"]) simp
qed (intro exI [of _ "[]"], simp)

lemma strip_slash_cases: "body = strip_slash body \<or> body = CHR ''/'' # strip_slash body"
  by (cases body) (simp_all add: strip_slash_def)

text \<open>The piece of the body between two segments, and its place.\<close>

lemma body_decompose:
  assumes "a \<le> b" "b < length (path_segments body)"
  obtains pre post where
    "body = pre @ join_with CHR ''/'' (take (Suc b - a) (drop a (path_segments body))) @ post"
    "length pre = length body - length (strip_slash body) + length (before (path_segments body) a)"
    "pre = [] \<or> (\<exists>pre'. pre = pre' @ [CHR ''/''])"
    "post = [] \<or> (\<exists>post'. post = CHR ''/'' # post')"
proof -
  let ?segs = "path_segments body" and ?rest = "strip_slash body"
  have segs: "?segs = split_on CHR ''/'' ?rest" "?rest \<noteq> []"
    using assms by (auto simp: path_segments_def split: if_splits)
  have "\<exists>slash. body = slash @ ?rest \<and> (slash = [] \<or> slash = ''/'')"
    using strip_slash_cases [of body] by (metis append_Cons append_Nil)
  then obtain slash where body: "body = slash @ ?rest" "slash = [] \<or> slash = ''/''" by blast
  hence len: "length slash = length body - length ?rest" by (metis add_diff_cancel_right' length_append)
  have rest: "?rest = before ?segs a @ join_with CHR ''/'' (drop a ?segs)"
    using join_before [of a ?segs] assms segs by simp
  obtain post where post:
    "join_with CHR ''/'' (drop a ?segs) = join_with CHR ''/'' (take (Suc b - a) (drop a ?segs)) @ post"
    "post = [] \<or> (\<exists>post'. post = CHR ''/'' # post')"
    using join_take [of "Suc b - a" "drop a ?segs"] assms by auto
  have "slash @ before ?segs a = [] \<or> (\<exists>pre'. slash @ before ?segs a = pre' @ [CHR ''/''])"
    using before_separator [of ?segs a] body(2) by auto
  thus ?thesis
    using that [of "slash @ before ?segs a" post] body(1) len rest post
    by (metis append.assoc length_append)
qed

section \<open>What the accessors return\<close>

lemma scan_path_fields:
  assumes "length starts = cap" "length ends = cap"
    and p_def: "p = scan_path arch body starts ends"
    and base_def: "base = length body - length (strip_slash body)"
  shows "sp_body p = body" "sp_count p = length (path_segments body)" "sp_capacity p = cap"
    "sp_valid p \<longleftrightarrow> (\<forall>b \<in> set body. \<not> is_forbidden b)"
    "length (sp_starts p) = cap" "length (sp_ends p) = cap"
    "\<And>i. i < cap \<Longrightarrow> i < length (path_segments body) \<Longrightarrow>
       sp_starts p ! i = base + length (before (path_segments body) i) \<and>
       sp_ends p ! i = base + length (before (path_segments body) i) + length (path_segments body ! i)"
proof -
  let ?rest = "strip_slash body"
  obtain r ss es where sc: "scan_segments_scalar body starts ends = (r, ss, es)"
    by (cases "scan_segments_scalar body starts ends") auto
  have p: "p = \<lparr>sp_body = body, sp_starts = ss, sp_ends = es,
      sp_capacity = min (length ss) (length es), sp_count = scan_count r, sp_valid = scan_valid r\<rparr>"
    by (simp add: p_def scan_path_def scan_segments_checked_scalar sc)
  have valid: "(\<forall>b \<in> set ?rest. \<not> is_forbidden b) \<longleftrightarrow> (\<forall>b \<in> set body. \<not> is_forbidden b)"
    by (cases body) (simp_all add: strip_slash_def)
  have "scan_count r = length (path_segments body) \<and>
      (scan_valid r \<longleftrightarrow> (\<forall>b \<in> set ?rest. \<not> is_forbidden b)) \<and> length ss = cap \<and> length es = cap \<and>
      (\<forall>i < cap. i < length (path_segments body) \<longrightarrow>
         ss ! i = base + length (before (path_segments body) i) \<and>
         es ! i = base + length (before (path_segments body) i) + length (path_segments body ! i))"
  proof (cases "?rest = []")
    case True
    thus ?thesis using sc assms(1,2) by (auto simp: scan_segments_scalar_def path_segments_def)
  next
    case False
    let ?sc = "scanner_init starts ends" and ?segs = "path_segments body"
    have segs: "?segs = split_on CHR ''/'' ?rest" using False by (simp add: path_segments_def)
    have fin: "finish_scan base (0 + length ?rest) (scan_bytes base ?rest 0 ?sc) = (r, ss, es)"
      using sc False by (simp add: scan_segments_scalar_def Let_def base_def)
    have init: "sc_count ?sc = 0" "sc_start ?sc = 0" "sc_valid ?sc" "scanner_cap ?sc = cap"
        "length (sc_starts ?sc) = cap" "length (sc_ends ?sc) = cap"
      using assms(1,2) by (simp_all add: scanner_init_def scanner_cap_def)
    have rs: "piece_ranges 0 ?segs = ranges (sc_start ?sc) 0 ?rest"
      using init(2) ranges_split_on segs by simp
    show ?thesis using finish_scan_ranges [OF fin rs] by (simp add: init piece_ranges_nth add.assoc)
  qed
  thus "sp_body p = body" "sp_count p = length (path_segments body)" "sp_capacity p = cap"
    "sp_valid p \<longleftrightarrow> (\<forall>b \<in> set body. \<not> is_forbidden b)"
    "length (sp_starts p) = cap" "length (sp_ends p) = cap"
    "\<And>i. i < cap \<Longrightarrow> i < length (path_segments body) \<Longrightarrow>
       sp_starts p ! i = base + length (before (path_segments body) i) \<and>
       sp_ends p ! i = base + length (before (path_segments body) i) + length (path_segments body ! i)"
    using valid by (simp_all add: p)
qed

lemma before_add: "a \<le> b \<Longrightarrow> before segs b = before segs a @ before (drop a segs) (b - a)"
  unfolding before_def by (metis concat_append le_add_diff_inverse map_append take_add)

lemma join_take_before: "j < length qs \<Longrightarrow> join_with CHR ''/'' (take (Suc j) qs) = before qs j @ qs ! j"
  using join_before [of j "take (Suc j) qs"]
  by (simp add: before_def take_Suc_conv_app_nth min_def)

lemma path_capture_eval:
  assumes "length starts = cap" "length ends = cap" "p = scan_path arch body starts ends"
    and "is_str body" "a \<le> b" "b < length (path_segments body)" "b < cap"
  shows "path_capture p a b =
    Inr (Some (join_with CHR ''/'' (take (Suc b - a) (drop a (path_segments body)))))"
proof -
  let ?segs = "path_segments body" and ?base = "length body - length (strip_slash body)"
  let ?mid = "join_with CHR ''/'' (take (Suc b - a) (drop a ?segs))"
  note fs = scan_path_fields [OF assms(1-3) refl]
  obtain pre post where d: "body = pre @ ?mid @ post" "length pre = ?base + length (before ?segs a)"
      "pre = [] \<or> (\<exists>pre'. pre = pre' @ [CHR ''/''])"
      "post = [] \<or> (\<exists>post'. post = CHR ''/'' # post')"
    using body_decompose [OF assms(5,6)] .
  have "?mid = before (drop a ?segs) (b - a) @ ?segs ! b"
    using join_take_before [of "b - a" "drop a ?segs"] assms(5,6) by (simp add: Suc_diff_le)
  hence stop: "sp_ends p ! b = length pre + length ?mid"
    using fs(7) [of b] assms(6,7) d(2) before_add [OF assms(5), of ?segs] by simp
  have start: "sp_starts p ! a = length pre" using fs(7) [of a] assms(5-7) d(2) by simp
  have "(str_slice body (length pre) (length pre + length ?mid) :: string resolved) = Inr ?mid"
    using str_slice_piece [of pre ?mid post "CHR ''/''"] d assms(4) by (simp add: is_ascii_def)
  thus ?thesis using assms(5-7) start stop fs
    by (simp add: path_capture_def get_unchecked_def)
qed

lemma path_segment_eval:
  assumes "length starts = cap" "length ends = cap" "p = scan_path arch body starts ends" "is_str body"
  shows "path_segment p i =
    Inr (if i < length (path_segments body) \<and> i < cap then Some (path_segments body ! i) else None)"
proof (cases "i < length (path_segments body) \<and> i < cap")
  case True
  have "take (Suc 0) (drop i (path_segments body)) = [path_segments body ! i]"
    using True by (metis Cons_nth_drop_Suc take0 take_Suc_Cons)
  hence "path_capture p i i = Inr (Some (path_segments body ! i))"
    using path_capture_eval [OF assms order_refl] True by simp
  moreover have "path_segment p i = path_capture p i i"
    using True scan_path_fields [OF assms(1-3) refl] by (simp add: path_segment_def path_capture_def)
  ultimately show ?thesis using True by simp
next
  case False
  thus ?thesis using scan_path_fields(2,3) [OF assms(1-3) refl] by (auto simp: path_segment_def)
qed

lemma path_rest_eval:
  assumes "length starts = cap" "length ends = cap" "p = scan_path arch body starts ends" "is_str body"
    and "a \<le> length (path_segments body)" "a < cap \<or> a = length (path_segments body)"
  shows "path_rest p a = Inr (Some (join_with CHR ''/'' (drop a (path_segments body))))"
proof (cases "a = length (path_segments body)")
  case True
  thus ?thesis using scan_path_fields [OF assms(1-3) refl] by (simp add: path_rest_def)
next
  case False
  let ?segs = "path_segments body" and ?base = "length body - length (strip_slash body)"
  let ?b = "length ?segs - 1"
  have b: "a \<le> ?b" "?b < length ?segs" using False assms(5) by simp_all
  note fs = scan_path_fields [OF assms(1-3) refl]
  have full: "take (Suc ?b - a) (drop a ?segs) = drop a ?segs" using b by simp
  obtain pre post where d: "body = pre @ join_with CHR ''/'' (drop a ?segs) @ post"
      "length pre = ?base + length (before ?segs a)" "pre = [] \<or> (\<exists>pre'. pre = pre' @ [CHR ''/''])"
    using body_decompose [OF b] unfolding full by metis
  have segs: "?segs = split_on CHR ''/'' (strip_slash body)"
    using b by (auto simp: path_segments_def split: if_splits)
  have "a < length ?segs" using b by linarith
  hence "strip_slash body = before ?segs a @ join_with CHR ''/'' (drop a ?segs)"
    using join_before [of a ?segs] join_split_on [of "CHR ''/''" "strip_slash body"] segs by metis
  hence "length (strip_slash body) = length (before ?segs a) + length (join_with CHR ''/'' (drop a ?segs))"
    by (metis length_append)
  moreover have "length (strip_slash body) \<le> length body" by (cases body) (simp_all add: strip_slash_def)
  ultimately have len: "length body = length pre + length (join_with CHR ''/'' (drop a ?segs))"
    using d(2) by linarith
  have post: "post = []" using len arg_cong [OF d(1), of length] by simp
  have "(str_slice body (length pre) (length body) :: string resolved) =
      Inr (join_with CHR ''/'' (drop a ?segs))"
    using str_slice_piece [of pre "join_with CHR ''/'' (drop a ?segs)" post "CHR ''/''"] d(1,3) post assms(4)
    unfolding len by (simp add: is_ascii_def)
  thus ?thesis using False assms(5,6) fs(7) [of a] fs d(2)
    by (simp add: path_rest_def get_unchecked_def)
qed

lemma path_affix_eval:
  assumes "length starts = cap" "length ends = cap" "p = scan_path arch body starts ends" "is_str body"
    and "i < length (path_segments body)" "i < cap"
    and "path_segments body ! i = pf @ m @ sf" "list_all is_ascii pf" "list_all is_ascii sf"
  shows "path_affix p i (length pf) (length sf) = Inr (Some m)"
proof -
  let ?segs = "path_segments body" and ?base = "length body - length (strip_slash body)"
  note fs = scan_path_fields [OF assms(1-3) refl]
  have "take (Suc i - i) (drop i ?segs) = [?segs ! i]"
    using assms(5) by (simp add: take_Suc hd_drop_conv_nth)
  then obtain pre post where d: "body = pre @ (pf @ m @ sf) @ post"
      "length pre = ?base + length (before ?segs i)" "pre = [] \<or> (\<exists>pre'. pre = pre' @ [CHR ''/''])"
      "post = [] \<or> (\<exists>post'. post = CHR ''/'' # post')"
    using body_decompose [OF order_refl assms(5)] assms(7) by (metis join_with.simps(2))
  have ends: "sp_starts p ! i = length pre" "sp_ends p ! i = length pre + length (pf @ m @ sf)"
    using fs(7) [OF assms(6,5)] d(2) assms(7) by simp_all
  have "is_char_boundary body (length pre + length pf)"
  proof (cases pf rule: rev_cases)
    case Nil
    thus ?thesis using d(1,3) assms(4) boundary_after_ascii [of _ "CHR ''/''" "m @ sf @ post"]
      by (auto simp: is_ascii_def)
  next
    case (snoc qs q)
    thus ?thesis using d(1) assms(4,8) boundary_after_ascii [of "pre @ qs" q "m @ sf @ post"] by simp
  qed
  moreover have "is_char_boundary body (length pre + length pf + length m)"
  proof (cases sf)
    case Nil
    thus ?thesis using d(1,4) boundary_at_ascii [of "CHR ''/''" "pre @ pf @ m"]
        boundary_ends(2) [of "pre @ pf @ m"] by (auto simp: is_ascii_def add.assoc)
  next
    case (Cons q qs)
    thus ?thesis using d(1) assms(9) boundary_at_ascii [of q "pre @ pf @ m" "qs @ post"]
      by (simp add: add.assoc)
  qed
  moreover have "take (length m) (drop (length pre + length pf) body) = m" using d(1) by simp
  ultimately have "(str_slice body (length pre + length pf) (length pre + length pf + length m) :: string resolved) =
      Inr m"
    using d(1) by (simp add: str_slice_def)
  thus ?thesis
    using assms(5,6) ends fs(1-6) \<open>is_char_boundary body (length pre + length pf)\<close>
      \<open>is_char_boundary body (length pre + length pf + length m)\<close>
    by (simp add: path_affix_def get_unchecked_def Let_def add.assoc)
qed

end
