(* ===== verification/Router_Trie.thy ===== *)
theory Router_Trie
  imports Path_Template Router_Path
    "HOL-Library.List_Lexorder" "HOL-Library.Char_ord" "HOL-Library.Product_Lexorder"
    "HOL-Library.Multiset"
begin

text \<open>
  The routing trie (\<open>routerama_build/src/route.rs\<close>, \<open>routerama_build/src/trie.rs\<close>) and its compilation
  to the runtime form (\<open>routerama/src/rt_node.rs\<close>).

  A \<open>BTreeMap\<close> is a list of pairs in ascending order of the keys; strings are ordered by their bytes.
  The name of the field a capture is generated to depends on the tables of a third-party crate, so
  it is the parameter \<open>route_field\<close>. Code that can only panic has the result type of the resolver. \<open>compile\<close> follows the code: a queue of nodes flattened to indices, the
  literal edges ordered by the number of routes below them, and the nodes rebuilt from the last to
  the first; \<open>rt_of\<close> is the recursive definition it is shown to equal.
\<close>

section \<open>Routes\<close>

record route =
  route_name :: string
  route_method :: string
  route_pattern :: string

definition route_new :: "string \<Rightarrow> string \<Rightarrow> path_template \<Rightarrow> route" where
  "route_new name meth t =
     \<lparr>route_name = name, route_method = meth, route_pattern = template_display t\<rparr>"

definition route_template :: "route \<Rightarrow> path_template resolved" where
  "route_template r =
     (case parse_template (route_pattern r) (with_segment_affixes grammar_new) of
        Inr t \<Rightarrow> Inr t
      | Inl (Panicked m) \<Rightarrow> Inl (Panicked m)
      | Inl (Err e) \<Rightarrow> Inl (Panicked ''pattern was validated when the Route was created''))"

section \<open>Atoms and captures\<close>

datatype atom = ALiteral string | ASingle | ARest | AAffix string string

record var_span =
  vs_name :: "string list"
  vs_first :: nat
  vs_last :: nat
  vs_affix :: "(nat \<times> nat) option"

datatype var_plan =
    PSpan string string nat nat
  | PRest string string nat
  | PAffix string string nat nat nat

fun plan_key :: "var_plan \<Rightarrow> string" where
  "plan_key (PSpan field key a b) = key"
| "plan_key (PRest field key a) = key"
| "plan_key (PAffix field key a p s) = key"

text \<open>Running an iterator to its end.\<close>

function segment_iter_collect :: "segment_iter \<Rightarrow> (segment list) resolved" where
  "segment_iter_collect it =
     (case segment_iter_next it of
        Inl e \<Rightarrow> Inl e
      | Inr (None, it') \<Rightarrow> Inr []
      | Inr (Some seg, it') \<Rightarrow> try_bind (segment_iter_collect it') (\<lambda>segs. Inr (seg # segs)))"
  by pat_completeness auto
termination
  by (relation "measure iter_remaining")
     (auto simp: segment_iter_next_def try_bind_eq_Inr split: option.splits if_splits)

declare segment_iter_collect.simps [simp del]

fun sub_atoms :: "segment \<Rightarrow> atom list" where
  "sub_atoms (Literal l) = [ALiteral l]"
| "sub_atoms Single = [ASingle]"
| "sub_atoms Rest = [ARest]"
| "sub_atoms _ = []"

fun flatten_loop ::
  "segment list \<Rightarrow> atom list \<Rightarrow> var_span list \<Rightarrow> (atom list \<times> var_span list) resolved" where
  "flatten_loop [] as vars = Inr (as, vars)"
| "flatten_loop (seg # segs) as vars =
     (case seg of
        Literal l \<Rightarrow> flatten_loop segs (as @ [ALiteral l]) vars
      | Single \<Rightarrow> flatten_loop segs (as @ [ASingle]) vars
      | Rest \<Rightarrow> flatten_loop segs (as @ [ARest]) vars
      | Affix p name s \<Rightarrow>
          flatten_loop segs (as @ [AAffix p s])
            (vars @ [\<lparr>vs_name = split_on CHR ''.'' name, vs_first = length as, vs_last = length as,
                      vs_affix = Some (length p, length s)\<rparr>])
      | Variable var \<Rightarrow>
          try_bind (segment_iter_collect (variable_segments var)) (\<lambda>subs.
            let as' = as @ concat (map sub_atoms subs)
            in if as' = [] then Inl (Panicked ''attempt to subtract with overflow'')
               else flatten_loop segs as'
                 (vars @ [\<lparr>vs_name = split_on CHR ''.'' (var_field var), vs_first = length as,
                           vs_last = length as' - 1, vs_affix = None\<rparr>])))"

definition flatten :: "segment list \<Rightarrow> (atom list \<times> var_span list) resolved" where
  "flatten segs = flatten_loop segs [] []"

definition capture_field_names :: "segment list \<Rightarrow> (string list list) resolved" where
  "capture_field_names segs = try_bind (flatten segs) (\<lambda>(_, vars). Inr (map vs_name vars))"

section \<open>The trie\<close>

record leaf =
  leaf_method :: string
  leaf_verb :: "string option"
  leaf_name :: string
  leaf_vars :: "var_plan list"
  leaf_route_index :: nat

datatype node =
  Node (node_literals: "(string \<times> node) list") (node_affix: "((string \<times> string) \<times> node) list")
    (node_single: "node option") (node_exact: "leaf list") (node_rest: "leaf list")

definition node_default :: node where
  "node_default = Node [] [] None [] []"

record trie =
  trie_root :: node
  trie_max_segments :: nat
  trie_any_verb :: bool

text \<open>\<open>BTreeMap::entry(k).or_default()\<close>, updated in place.\<close>

fun entry_update :: "'k::linorder \<Rightarrow> ('v \<Rightarrow> 'v) \<Rightarrow> 'v \<Rightarrow> ('k \<times> 'v) list \<Rightarrow> ('k \<times> 'v) list" where
  "entry_update k f d [] = [(k, f d)]"
| "entry_update k f d ((k', v) # kvs) =
     (if k = k' then (k', f v) # kvs
      else if k < k' then (k, f d) # (k', v) # kvs
      else (k', v) # entry_update k f d kvs)"

primrec insert_at :: "atom list \<Rightarrow> bool \<Rightarrow> leaf \<Rightarrow> node \<Rightarrow> node" where
  "insert_at [] has_rest lf n =
     (case n of Node ls as s ex re \<Rightarrow>
        if has_rest then Node ls as s ex (re @ [lf]) else Node ls as s (ex @ [lf]) re)"
| "insert_at (a # ats) has_rest lf n =
     (case n of Node ls as s ex re \<Rightarrow>
        (case a of
           ALiteral lit \<Rightarrow> Node (entry_update lit (insert_at ats has_rest lf) node_default ls) as s ex re
         | ASingle \<Rightarrow>
             Node ls as
               (Some (insert_at ats has_rest lf (case s of None \<Rightarrow> node_default | Some c \<Rightarrow> c))) ex re
         | AAffix p q \<Rightarrow>
             Node ls (entry_update (p, q) (insert_at ats has_rest lf) node_default as) s ex re
         | ARest \<Rightarrow> insert_at ats has_rest lf n))"

definition plan_of :: "(string \<Rightarrow> string) \<Rightarrow> bool \<Rightarrow> nat \<Rightarrow> var_span \<Rightarrow> var_plan" where
  "plan_of route_field has_rest atom_count v =
     (let key = join_with CHR ''.'' (vs_name v); field = route_field key
      in case vs_affix v of
           Some (p, s) \<Rightarrow> PAffix field key (vs_first v) p s
         | None \<Rightarrow>
             if has_rest \<and> vs_last v = atom_count - 1 then PRest field key (vs_first v)
             else PSpan field key (vs_first v) (vs_last v))"

definition insert_route ::
  "(string \<Rightarrow> string) \<Rightarrow> node \<Rightarrow> route \<Rightarrow> path_template \<Rightarrow> nat \<Rightarrow> (nat \<times> node) resolved" where
  "insert_route route_field rootn r t route_index =
     try_bind (flatten (template_segments t)) (\<lambda>(as, vars).
       let has_rest = (as \<noteq> [] \<and> last as = ARest);
           atom_count = length as;
           lf = \<lparr>leaf_method = route_method r, leaf_verb = template_verb t, leaf_name = route_name r,
                 leaf_vars = map (plan_of route_field has_rest atom_count) vars,
                 leaf_route_index = route_index\<rparr>
       in Inr (atom_count, insert_at as has_rest lf rootn))"

fun build_trie_loop ::
  "(string \<Rightarrow> string) \<Rightarrow> (route \<times> path_template) list \<Rightarrow> nat \<Rightarrow> trie \<Rightarrow> trie resolved" where
  "build_trie_loop route_field [] route_index tr = Inr tr"
| "build_trie_loop route_field ((r, t) # rts) route_index tr =
     try_bind (insert_route route_field (trie_root tr) r t route_index) (\<lambda>(n, rootn).
       build_trie_loop route_field rts (route_index + 1)
         \<lparr>trie_root = rootn, trie_max_segments = max (trie_max_segments tr) n,
          trie_any_verb = (trie_any_verb tr \<or> template_verb t \<noteq> None)\<rparr>)"

fun try_map :: "('a \<Rightarrow> 'b resolved) \<Rightarrow> 'a list \<Rightarrow> ('b list) resolved" where
  "try_map f [] = Inr []"
| "try_map f (x # xs) = try_bind (f x) (\<lambda>y. try_bind (try_map f xs) (\<lambda>ys. Inr (y # ys)))"

definition build_trie_with_templates ::
  "(string \<Rightarrow> string) \<Rightarrow> route list \<Rightarrow> path_template list \<Rightarrow> trie resolved" where
  "build_trie_with_templates route_field routes templates =
     (if length routes \<noteq> length templates
      then Inl (Panicked ''each route must have one parsed template'')
      else build_trie_loop route_field (zip routes templates) 0
        \<lparr>trie_root = node_default, trie_max_segments = 0, trie_any_verb = False\<rparr>)"

definition build_trie :: "(string \<Rightarrow> string) \<Rightarrow> route list \<Rightarrow> trie resolved" where
  "build_trie route_field routes =
     try_bind (try_map route_template routes) (build_trie_with_templates route_field routes)"

section \<open>The order of affix edges\<close>

definition affix_specificity :: "string \<Rightarrow> string \<Rightarrow> nat" where
  "affix_specificity p s = length p + length s"

text \<open>Longest first; ties in ascending order of the edge.\<close>

definition affix_edges_in_match_order :: "node \<Rightarrow> ((string \<times> string) \<times> node) list" where
  "affix_edges_in_match_order n =
     sort_key (\<lambda>((p, s), _). (- int (affix_specificity p s), p, s)) (node_affix n)"

section \<open>Compilation\<close>

datatype rt_node =
  RtNode (rt_literals: "(string \<times> rt_node) list") (rt_affix: "(string \<times> string \<times> rt_node) list")
    (rt_single: "rt_node option") (rt_exact: "leaf list") (rt_rest: "leaf list")

record flat_node =
  fl_literals :: "(string \<times> nat) list"
  fl_affix :: "(string \<times> string \<times> nat) list"
  fl_single :: "nat option"
  fl_exact :: "leaf list"
  fl_rest :: "leaf list"

text \<open>The weight of a trie, which bounds the queue of the flattening loop.\<close>

fun nsize :: "node \<Rightarrow> nat" where
  "nsize (Node ls as s ex re) =
     Suc (sum_list (map (\<lambda>kc. nsize (snd kc)) ls) + sum_list (map (\<lambda>kc. nsize (snd kc)) as) +
       (case s of None \<Rightarrow> 0 | Some c \<Rightarrow> nsize c))"

text \<open>Queueing the children of one node; each gets the next index.\<close>

fun queue_literals :: "(string \<times> node) list \<Rightarrow> node option list \<Rightarrow> (string \<times> nat) list \<times> node option list" where
  "queue_literals [] source = ([], source)"
| "queue_literals ((k, c) # kcs) source =
     (case queue_literals kcs (source @ [Some c]) of
        (out, source') \<Rightarrow> ((k, length source) # out, source'))"

fun queue_affixes ::
  "(string \<times> string) list \<Rightarrow> ((string \<times> string) \<times> node) list \<Rightarrow> node option list \<Rightarrow>
     ((string \<times> string \<times> nat) list \<times> node option list) resolved" where
  "queue_affixes [] affix source = Inr ([], source)"
| "queue_affixes (key # keys) affix source =
     (case map_of affix key of
        None \<Rightarrow> Inl (Panicked ''affix order was derived from this node and each key is removed once'')
      | Some c \<Rightarrow>
          try_bind (queue_affixes keys (filter (\<lambda>(k, _). k \<noteq> key) affix) (source @ [Some c]))
            (\<lambda>(out, source'). Inr ((fst key, snd key, length source) # out, source')))"

definition flatten_node :: "node \<Rightarrow> node option list \<Rightarrow> (flat_node \<times> node option list) resolved" where
  "flatten_node n source =
     (let affix_order = map fst (affix_edges_in_match_order n);
          (literals, source) = queue_literals (node_literals n) source
      in try_bind (queue_affixes affix_order (node_affix n) source) (\<lambda>(affix, source).
           let (single, source) =
             (case node_single n of None \<Rightarrow> (None, source) | Some c \<Rightarrow> (Some (length source), source @ [Some c]))
           in Inr (\<lparr>fl_literals = literals, fl_affix = affix, fl_single = single,
                    fl_exact = node_exact n, fl_rest = node_rest n\<rparr>, source)))"

definition queue_weight :: "node option list \<Rightarrow> nat" where
  "queue_weight source = sum_list (map (\<lambda>x. case x of None \<Rightarrow> 0 | Some n \<Rightarrow> nsize n) source)"

lemma queue_weight_append [simp]: "queue_weight (xs @ ys) = queue_weight xs + queue_weight ys"
  by (simp add: queue_weight_def)

lemma queue_weight_simps [simp]:
  "queue_weight [] = 0" "queue_weight (None # xs) = queue_weight xs"
  "queue_weight (Some n # xs) = nsize n + queue_weight xs"
  by (simp_all add: queue_weight_def)

lemma queue_literals_append:
  "\<exists>added. snd (queue_literals kcs source) = source @ added \<and>
     queue_weight added = sum_list (map (\<lambda>kc. nsize (snd kc)) kcs)"
proof (induction kcs arbitrary: source)
  case (Cons kc kcs)
  obtain k c where kc: "kc = (k, c)" by (cases kc)
  obtain added where "snd (queue_literals kcs (source @ [Some c])) = (source @ [Some c]) @ added"
      "queue_weight added = sum_list (map (\<lambda>kc. nsize (snd kc)) kcs)"
    using Cons.IH by blast
  thus ?case using kc
    by (intro exI [of _ "Some c # added"]) (simp add: case_prod_beta)
qed simp

lemma sum_list_filter_key:
  "map_of m key = Some c \<Longrightarrow>
     nsize c + sum_list (map (\<lambda>kc. nsize (snd kc)) (filter (\<lambda>(k, _). k \<noteq> key) m)) \<le>
       sum_list (map (\<lambda>kc. nsize (snd kc)) m)"
proof (induction m)
  case (Cons kc m)
  have "sum_list (map (\<lambda>kc. nsize (snd kc)) (filter P m)) \<le> sum_list (map (\<lambda>kc. nsize (snd kc)) m)" for P
    by (induction m) auto
  thus ?case using Cons by (cases kc) (auto split: if_splits simp: add.left_commute)
qed simp

lemma queue_affixes_append:
  "queue_affixes keys affix source = Inr (out, source') \<Longrightarrow>
     \<exists>added. source' = source @ added \<and>
       queue_weight added \<le> sum_list (map (\<lambda>kc. nsize (snd kc)) affix)"
proof (induction keys arbitrary: affix source out)
  case (Cons key keys)
  then obtain c out' where c: "map_of affix key = Some c"
      "queue_affixes keys (filter (\<lambda>(k, _). k \<noteq> key) affix) (source @ [Some c]) = Inr (out', source')"
    by (auto simp: try_bind_eq_Inr split: option.splits)
  obtain added where "source' = (source @ [Some c]) @ added"
      "queue_weight added \<le> sum_list (map (\<lambda>kc. nsize (snd kc)) (filter (\<lambda>(k, _). k \<noteq> key) affix))"
    using Cons.IH [OF c(2)] by blast
  thus ?case using sum_list_filter_key [OF c(1)]
    by (intro exI [of _ "Some c # added"]) simp
qed simp

lemma flatten_node_append:
  assumes "flatten_node n source = Inr (fl, source')"
  shows "\<exists>added. source' = source @ added \<and> queue_weight added < nsize n"
proof -
  obtain ls as s ex re where n: "n = Node ls as s ex re" by (cases n)
  obtain lits s1 where q1: "queue_literals ls source = (lits, s1)" by (cases "queue_literals ls source")
  obtain aff s2 where q2:
      "queue_affixes (map fst (affix_edges_in_match_order n)) as s1 = Inr (aff, s2)"
      "source' = s2 @ (case s of None \<Rightarrow> [] | Some c \<Rightarrow> [Some c])"
    using assms q1 n by (auto simp: flatten_node_def try_bind_eq_Inr Let_def split: option.splits)
  obtain a1 where a1: "s1 = source @ a1" "queue_weight a1 = sum_list (map (\<lambda>kc. nsize (snd kc)) ls)"
    using queue_literals_append [of ls source] q1 by auto
  obtain a2 where a2: "s2 = s1 @ a2" "queue_weight a2 \<le> sum_list (map (\<lambda>kc. nsize (snd kc)) as)"
    using queue_affixes_append [OF q2(1)] by blast
  show ?thesis
    using q2(2) a1 a2 n
    by (intro exI [of _ "a1 @ a2 @ (case s of None \<Rightarrow> [] | Some c \<Rightarrow> [Some c])"])
       (simp split: option.splits)
qed

function compile_loop :: "node option list \<Rightarrow> flat_node list \<Rightarrow> nat \<Rightarrow> (flat_node list) resolved" where
  "compile_loop source flt index =
     (if index < length source
      then case source ! index of
             None \<Rightarrow> Inl (Panicked ''each queued source node is compiled exactly once'')
           | Some n \<Rightarrow>
               (case flatten_node n (source[index := None]) of
                  Inl e \<Rightarrow> Inl e
                | Inr (fl, source') \<Rightarrow> compile_loop source' (flt @ [fl]) (index + 1))
      else Inr flt)"
  by pat_completeness auto
termination
proof (relation "measure (\<lambda>(source, _, index). queue_weight (drop index source))")
  fix source :: "node option list" and flt :: "flat_node list" and index n r fl source'
  assume i: "index < length source" and n: "source ! index = Some n"
    and f: "flatten_node n (source[index := None]) = Inr r" and r: "(fl, source') = r"
  obtain added where "source' = source[index := None] @ added" "queue_weight added < nsize n"
    using flatten_node_append [of n] f r by blast
  moreover have "drop index source = Some n # drop (Suc index) source"
    using i n by (metis Cons_nth_drop_Suc)
  ultimately show "((source', flt @ [fl], index + 1), source, flt, index) \<in>
      measure (\<lambda>(source, _, index). queue_weight (drop index source))"
    using i by simp
qed simp

declare compile_loop.simps [simp del]

definition vec_get :: "'a list \<Rightarrow> nat \<Rightarrow> 'a resolved" where
  "vec_get xs i = (if i < length xs then Inr (xs ! i) else Inl (Panicked ''index out of bounds''))"

definition flat_weight :: "flat_node \<Rightarrow> nat list \<Rightarrow> nat resolved" where
  "flat_weight fl weights =
     try_bind (try_map (\<lambda>(_, c). vec_get weights c) (fl_literals fl)) (\<lambda>ls.
     try_bind (try_map (\<lambda>(_, _, c). vec_get weights c) (fl_affix fl)) (\<lambda>as.
     try_bind (case fl_single fl of None \<Rightarrow> Inr 0 | Some c \<Rightarrow> vec_get weights c) (\<lambda>s.
       Inr (length (fl_exact fl) + length (fl_rest fl) + sum_list ls + sum_list as + s))))"

fun node_weights_loop :: "flat_node list \<Rightarrow> nat list \<Rightarrow> nat list \<Rightarrow> (nat list) resolved" where
  "node_weights_loop nodes [] weights = Inr weights"
| "node_weights_loop nodes (i # is) weights =
     try_bind (flat_weight (nodes ! i) weights) (\<lambda>w. node_weights_loop nodes is (weights[i := w]))"

definition node_weights :: "flat_node list \<Rightarrow> (nat list) resolved" where
  "node_weights nodes =
     node_weights_loop nodes (rev [0..<length nodes]) (replicate (length nodes) 0)"

definition order_literals_by_weight :: "flat_node list \<Rightarrow> (flat_node list) resolved" where
  "order_literals_by_weight nodes =
     try_bind (node_weights nodes) (\<lambda>weights.
       try_map (\<lambda>fl.
         try_bind (try_map (\<lambda>(_, c). vec_get weights c) (fl_literals fl)) (\<lambda>_.
           Inr (fl\<lparr>fl_literals := sort_key (\<lambda>(_, c). - int (weights ! c)) (fl_literals fl)\<rparr>))) nodes)"

definition take_built :: "rt_node option list \<Rightarrow> nat \<Rightarrow> (rt_node \<times> rt_node option list) resolved" where
  "take_built built c =
     try_bind (vec_get built c) (\<lambda>x.
       case x of
         None \<Rightarrow> Inl (Panicked ''children are queued after parents and built in reverse order'')
       | Some t \<Rightarrow> Inr (t, built[c := None]))"

fun take_literals ::
  "(string \<times> nat) list \<Rightarrow> rt_node option list \<Rightarrow>
     ((string \<times> rt_node) list \<times> rt_node option list) resolved" where
  "take_literals [] built = Inr ([], built)"
| "take_literals ((k, c) # kcs) built =
     try_bind (take_built built c) (\<lambda>(t, built).
     try_bind (take_literals kcs built) (\<lambda>(ts, built). Inr ((k, t) # ts, built)))"

fun take_affixes ::
  "(string \<times> string \<times> nat) list \<Rightarrow> rt_node option list \<Rightarrow>
     ((string \<times> string \<times> rt_node) list \<times> rt_node option list) resolved" where
  "take_affixes [] built = Inr ([], built)"
| "take_affixes ((p, s, c) # kcs) built =
     try_bind (take_built built c) (\<lambda>(t, built).
     try_bind (take_affixes kcs built) (\<lambda>(ts, built). Inr ((p, s, t) # ts, built)))"

definition take_single ::
  "nat option \<Rightarrow> rt_node option list \<Rightarrow> (rt_node option \<times> rt_node option list) resolved" where
  "take_single single built =
     (case single of
        None \<Rightarrow> Inr (None, built)
      | Some c \<Rightarrow> try_bind (take_built built c) (\<lambda>(t, built). Inr (Some t, built)))"

fun rebuild_loop :: "flat_node list \<Rightarrow> nat list \<Rightarrow> rt_node option list \<Rightarrow> (rt_node option list) resolved" where
  "rebuild_loop nodes [] built = Inr built"
| "rebuild_loop nodes (i # is) built =
     try_bind (take_literals (fl_literals (nodes ! i)) built) (\<lambda>(literals, built).
     try_bind (take_affixes (fl_affix (nodes ! i)) built) (\<lambda>(affix, built).
     try_bind (take_single (fl_single (nodes ! i)) built) (\<lambda>(single, built).
       rebuild_loop nodes is
         (built[i := Some (RtNode literals affix single (fl_exact (nodes ! i)) (fl_rest (nodes ! i)))]))))"

definition compile :: "node \<Rightarrow> rt_node resolved" where
  "compile n =
     try_bind (compile_loop [Some n] [] 0) (\<lambda>flt.
     try_bind (order_literals_by_weight flt) (\<lambda>flt.
     try_bind (rebuild_loop flt (rev [0..<length flt]) (replicate (length flt) None)) (\<lambda>built.
     try_bind (take_built built 0) (\<lambda>(t, _). Inr t))))"

end
