(* ===== verification/Router_Compile.thy ===== *)
theory Router_Compile
  imports Router_Trie
begin

text \<open>
  The three passes of \<open>compile\<close> in \<^verbatim>\<open>routerama/src/rt_node.rs\<close> (flattening the trie through a
  queue, ordering the literal edges by weight, rebuilding the nodes from the last to the first) are
  the recursive translation \<open>rt_of\<close> of a trie, and none of their indexings or unwraps fails.
\<close>

section \<open>Compilation is the recursive translation\<close>

fun leaf_count :: "node \<Rightarrow> nat" where
  "leaf_count (Node ls as s ex re) =
     length ex + length re + sum_list (map (\<lambda>kc. leaf_count (snd kc)) ls) +
     sum_list (map (\<lambda>kc. leaf_count (snd kc)) as) + (case s of None \<Rightarrow> 0 | Some c \<Rightarrow> leaf_count c)"

lemma nsize_child:
  "kc \<in> set (node_literals n) \<Longrightarrow> nsize (snd kc) < nsize n"
  "kc' \<in> set (node_affix n) \<Longrightarrow> nsize (snd kc') < nsize n"
  "node_single n = Some c \<Longrightarrow> nsize c < nsize n"
proof -
  show "kc \<in> set (node_literals n) \<Longrightarrow> nsize (snd kc) < nsize n"
    using member_le_sum_list [of "nsize (snd kc)" "map (\<lambda>kc. nsize (snd kc)) (node_literals n)"]
    by (cases n) force
  show "kc' \<in> set (node_affix n) \<Longrightarrow> nsize (snd kc') < nsize n"
    using member_le_sum_list [of "nsize (snd kc')" "map (\<lambda>kc. nsize (snd kc)) (node_affix n)"]
    by (cases n) force
  show "node_single n = Some c \<Longrightarrow> nsize c < nsize n" by (cases n) simp
qed

definition literals_by_weight :: "node \<Rightarrow> (string \<times> node) list" where
  "literals_by_weight n = sort_key (\<lambda>(_, c). - int (leaf_count c)) (node_literals n)"

function rt_of :: "node \<Rightarrow> rt_node" where
  "rt_of n = RtNode
     (map (\<lambda>kc. (fst kc, rt_of (snd kc))) (literals_by_weight n))
     (map (\<lambda>kc. (fst (fst kc), snd (fst kc), rt_of (snd kc))) (affix_edges_in_match_order n))
     (map_option rt_of (node_single n)) (node_exact n) (node_rest n)"
  by pat_completeness auto
termination
proof (relation "measure nsize")
  fix n and kc :: "string \<times> node"
  assume "kc \<in> set (literals_by_weight n)"
  thus "(snd kc, n) \<in> measure nsize" by (simp add: literals_by_weight_def nsize_child)
next
  fix n and kc :: "(string \<times> string) \<times> node"
  assume "kc \<in> set (affix_edges_in_match_order n)"
  thus "(snd kc, n) \<in> measure nsize" by (simp add: affix_edges_in_match_order_def nsize_child)
qed (simp_all add: nsize_child)

declare rt_of.simps [simp del]

text \<open>A list relation survives stable sorting by corresponding keys.\<close>

lemma list_all2_insort:
  assumes "\<And>x y. R x y \<Longrightarrow> f x = g y" "R x y" "list_all2 R xs ys"
  shows "list_all2 R (insort_key f x xs) (insort_key g y ys)"
  using assms(3)
proof (induction rule: list_all2_induct)
  case (Cons a as b bs)
  thus ?case using assms(1) [OF assms(2)] assms(1) [of a b] assms(2) by simp
qed (simp add: assms(2))

lemma list_all2_sort_key:
  assumes "\<And>x y. R x y \<Longrightarrow> f x = g y" "list_all2 R xs ys"
  shows "list_all2 R (sort_key f xs) (sort_key g ys)"
  using assms(2)
proof (induction rule: list_all2_induct)
  case (Cons a as b bs)
  thus ?case using list_all2_insort [of R f g a b] assms(1) by (simp add: sort_key_def)
qed (simp add: sort_key_def)

text \<open>
  What the flattening loop establishes: the queue \<open>qs\<close> of nodes, each flat node with the indices of
  its children, every index but the root's the child of exactly one earlier node.
\<close>

definition child_at :: "node list \<Rightarrow> nat \<Rightarrow> nat \<Rightarrow> node \<Rightarrow> bool" where
  "child_at qs i c t \<longleftrightarrow> i < c \<and> c < length qs \<and> qs ! c = t"

definition flat_rep :: "node list \<Rightarrow> nat \<Rightarrow> (string \<times> node) list \<Rightarrow> flat_node \<Rightarrow> node \<Rightarrow> bool" where
  "flat_rep qs i lits fl n \<longleftrightarrow>
     list_all2 (\<lambda>(k, c) (k', t). k = k' \<and> child_at qs i c t) (fl_literals fl) lits \<and>
     list_all2 (\<lambda>(p, s, c) ((p', s'), t). p = p' \<and> s = s' \<and> child_at qs i c t)
       (fl_affix fl) (affix_edges_in_match_order n) \<and>
     rel_option (child_at qs i) (fl_single fl) (node_single n) \<and>
     fl_exact fl = node_exact n \<and> fl_rest fl = node_rest n"

definition kids :: "flat_node \<Rightarrow> nat list" where
  "kids fl = map snd (fl_literals fl) @ map (\<lambda>(p, s, c). c) (fl_affix fl) @
     (case fl_single fl of None \<Rightarrow> [] | Some c \<Rightarrow> [c])"

lemma child_at_append: "child_at qs i c t \<Longrightarrow> child_at (qs @ qs') i c t"
  by (simp add: child_at_def nth_append)

lemma flat_rep_append: "flat_rep qs i lits fl n \<Longrightarrow> flat_rep (qs @ qs') i lits fl n"
  unfolding flat_rep_def
  by (auto intro: child_at_append elim!: list_all2_mono option.rel_mono_strong)

lemma queue_literals_spec:
  "queue_literals kcs source = (out, source') \<Longrightarrow>
     source' = source @ map (Some \<circ> snd) kcs \<and>
     map snd out = [length source..<length source + length kcs] \<and> map fst out = map fst kcs"
proof (induction kcs arbitrary: source out)
  case (Cons kc kcs)
  obtain k c where kc: "kc = (k, c)" by (cases kc)
  obtain out' s where q: "queue_literals kcs (source @ [Some c]) = (out', s)"
    by (cases "queue_literals kcs (source @ [Some c])")
  have "out = (k, length source) # out'" "s = source'" using Cons.prems q kc by simp_all
  thus ?case using Cons.IH [of "source @ [Some c]" out'] q kc by (simp add: upt_conv_Cons del: upt_Suc)
qed simp

lemma queue_affixes_spec:
  assumes "distinct (map fst affix)" "mset edges = mset affix"
  shows "\<exists>out. queue_affixes (map fst edges) affix source =
      Inr (out, source @ map (Some \<circ> snd) edges) \<and>
    map (\<lambda>(p, s, c). c) out = [length source..<length source + length edges] \<and>
    map (\<lambda>(p, s, c). (p, s)) out = map fst edges"
  using assms
proof (induction edges arbitrary: affix source)
  case (Cons e edges)
  obtain key c where e: "e = (key, c)" by (cases e)
  have dist: "distinct (map fst (e # edges))"
    using Cons.prems by (metis distinct_map mset_eq_imp_distinct_iff mset_map)
  have "e \<in> set affix" using Cons.prems(2) by (metis list.set_intros(1) set_mset_mset)
  hence lookup: "map_of affix key = Some c" using Cons.prems(1) e by simp
  have "mset (filter (\<lambda>(k, _). k \<noteq> key) affix) = mset (filter (\<lambda>(k, _). k \<noteq> key) (e # edges))"
    using Cons.prems(2) by (simp only: mset_filter)
  also have "filter (\<lambda>(k, _). k \<noteq> key) (e # edges) = edges"
    using dist e by (force simp: filter_id_conv)
  finally have rest: "mset edges = mset (filter (\<lambda>(k, _). k \<noteq> key) affix)" by simp
  have "distinct (map fst (filter (\<lambda>(k, _). k \<noteq> key) affix))"
    using Cons.prems(1) by (simp add: distinct_map_filter)
  from Cons.IH [OF this rest, of "source @ [Some c]"]
  obtain out where "queue_affixes (map fst edges) (filter (\<lambda>(k, _). k \<noteq> key) affix) (source @ [Some c]) =
      Inr (out, (source @ [Some c]) @ map (Some \<circ> snd) edges)"
    "map (\<lambda>(p, s, c). c) out = [Suc (length source)..<Suc (length source) + length edges]"
    "map (\<lambda>(p, s, c). (p, s)) out = map fst edges"
    by auto
  thus ?case using lookup e
    by (intro exI [of _ "(fst key, snd key, length source) # out"]) (simp add: upt_conv_Cons del: upt_Suc)
qed simp

definition children :: "node \<Rightarrow> node list" where
  "children n = map snd (node_literals n) @ map snd (affix_edges_in_match_order n) @
     (case node_single n of None \<Rightarrow> [] | Some c \<Rightarrow> [c])"

lemma list_all2_zip_at:
  assumes "i < length qs" "map snd out = [length qs..<length qs + length kcs]" "map fst out = map fst kcs"
  shows "list_all2 (\<lambda>(k, c) (k', t). k = k' \<and> child_at (qs @ map snd kcs @ ys) i c t) out kcs"
proof (rule list_all2_all_nthI)
  show len: "length out = length kcs" using assms(3) by (metis length_map)
  fix j assume j: "j < length out"
  have "snd (out ! j) = length qs + j" "fst (out ! j) = fst (kcs ! j)"
    using j len arg_cong [OF assms(2), of "\<lambda>xs. xs ! j"] arg_cong [OF assms(3), of "\<lambda>xs. xs ! j"]
    by simp_all
  thus "(\<lambda>(k, c) (k', t). k = k' \<and> child_at (qs @ map snd kcs @ ys) i c t) (out ! j) (kcs ! j)"
    using j len assms(1) by (auto simp: child_at_def nth_append split: prod.splits)
qed

lemma flatten_node_spec:
  assumes "distinct (map fst (node_affix n))" "length source = length qs" "i < length qs"
  obtains fl where "flatten_node n source = Inr (fl, source @ map Some (children n))"
    "flat_rep (qs @ children n) i (node_literals n) fl n"
    "kids fl = [length qs..<length qs + length (children n)]"
proof -
  let ?ls = "node_literals n" and ?es = "affix_edges_in_match_order n"
  let ?s1 = "source @ map (Some \<circ> snd) ?ls" and ?s2 = "source @ map (Some \<circ> snd) ?ls @ map (Some \<circ> snd) ?es"
  obtain lits where q1: "queue_literals ?ls source = (lits, ?s1)"
      "map snd lits = [length qs..<length qs + length ?ls]" "map fst lits = map fst ?ls"
    using queue_literals_spec [of ?ls source] assms(2) by (cases "queue_literals ?ls source") auto
  have "mset ?es = mset (node_affix n)" by (simp add: affix_edges_in_match_order_def)
  from queue_affixes_spec [OF assms(1) this, of ?s1] assms(2)
  obtain aff where q2: "queue_affixes (map fst ?es) (node_affix n) ?s1 = Inr (aff, ?s2)"
      "map (\<lambda>(p, s, c). c) aff = [length qs + length ?ls..<length qs + length ?ls + length ?es]"
      "map (\<lambda>(p, s, c). (p, s)) aff = map fst ?es"
    by auto
  define single where "single = map_option (\<lambda>_. length qs + length ?ls + length ?es) (node_single n)"
  define fl where "fl = \<lparr>fl_literals = lits, fl_affix = aff, fl_single = single,
      fl_exact = node_exact n, fl_rest = node_rest n\<rparr>"
  have 1: "flatten_node n source = Inr (fl, source @ map Some (children n))"
    using q1(1) q2(1) assms(2)
    by (auto simp: flatten_node_def Let_def fl_def single_def children_def split: option.splits)
  have 2: "kids fl = [length qs..<length qs + length (children n)]"
    using q1(2) q2(2) upt_add_eq_append [of "length qs" "length qs + length ?ls" "length ?es"]
    by (cases "node_single n") (simp_all add: kids_def fl_def single_def children_def add.assoc)
  have lits: "list_all2 (\<lambda>(k, c) (k', t). k = k' \<and> child_at (qs @ children n) i c t) lits ?ls"
    using list_all2_zip_at [OF assms(3) q1(2,3)] unfolding children_def by simp
  define aff' where "aff' = map (\<lambda>(p, s, c). ((p, s), c)) aff"
  have "map snd aff' = [length (qs @ map snd ?ls)..<length (qs @ map snd ?ls) + length ?es]"
      "map fst aff' = map fst ?es"
    using q2(2,3) by (simp_all add: aff'_def case_prod_unfold o_def)
  from list_all2_zip_at [OF _ this, of i] assms(3)
  have "list_all2 (\<lambda>(k, c) (k', t). k = k' \<and> child_at (qs @ children n) i c t) aff' ?es"
    unfolding children_def by simp
  hence aff: "list_all2 (\<lambda>(p, s, c) ((p', s'), t). p = p' \<and> s = s' \<and> child_at (qs @ children n) i c t) aff ?es"
    unfolding aff'_def list_all2_map1 by (rule list_all2_mono) (clarsimp split: prod.splits)
  have single: "rel_option (child_at (qs @ children n) i) single (node_single n)"
    by (cases "node_single n") (simp_all add: single_def child_at_def children_def nth_append trans_less_add1 assms(3))
  have "flat_rep (qs @ children n) i ?ls fl n"
    using lits aff single by (simp add: flat_rep_def fl_def)
  thus ?thesis using that 1 2 by blast
qed

text \<open>The maps of a trie have ascending keys.\<close>

fun wf_node :: "node \<Rightarrow> bool" where
  "wf_node (Node ls as s ex re) \<longleftrightarrow>
     sorted_wrt (<) (map fst ls) \<and> sorted_wrt (<) (map fst as) \<and>
     (\<forall>kc \<in> set ls. wf_node (snd kc)) \<and> (\<forall>kc \<in> set as. wf_node (snd kc)) \<and>
     (case s of None \<Rightarrow> True | Some c \<Rightarrow> wf_node c)"

lemma sorted_wrt_less_distinct: "sorted_wrt (<) (xs :: 'a::linorder list) \<Longrightarrow> distinct xs"
  by (induction xs) auto

lemma wf_node_distinct:
  "wf_node n \<Longrightarrow> distinct (map fst (node_literals n))" "wf_node n \<Longrightarrow> distinct (map fst (node_affix n))"
  by (cases n; simp add: sorted_wrt_less_distinct)+

lemma wf_node_children: "wf_node n \<Longrightarrow> list_all wf_node (children n)"
  by (cases n)
     (auto simp: children_def list_all_iff affix_edges_in_match_order_def split: option.splits)

text \<open>The flattening loop.\<close>

definition flat_forest :: "node list \<Rightarrow> flat_node list \<Rightarrow> bool" where
  "flat_forest qs flt \<longleftrightarrow>
     (\<forall>i < length flt. flat_rep qs i (node_literals (qs ! i)) (flt ! i) (qs ! i))"

lemma flat_forest_step:
  assumes "flat_forest qs flt" "flat_rep (qs @ qs') (length flt) (node_literals n) fl n"
    "length flt < length qs" "qs ! length flt = n"
  shows "flat_forest (qs @ qs') (flt @ [fl])"
  unfolding flat_forest_def
proof (intro allI impI)
  fix i assume i: "i < length (flt @ [fl])"
  show "flat_rep (qs @ qs') i (node_literals ((qs @ qs') ! i)) ((flt @ [fl]) ! i) ((qs @ qs') ! i)"
  proof (cases "i < length flt")
    case True
    thus ?thesis using assms(1,3) flat_rep_append by (simp add: flat_forest_def nth_append)
  next
    case False
    hence "i = length flt" using i by simp
    thus ?thesis using assms(2-4) by (simp add: nth_append)
  qed
qed

lemma compile_loop_spec:
  assumes "qs \<noteq> []" "length flt = index" "index \<le> length qs"
    and "source = replicate index None @ map Some (drop index qs)"
    and "list_all wf_node qs" "flat_forest qs flt" "concat (map kids flt) = [1..<length qs]"
  shows "\<exists>flt' qs'. compile_loop source flt index = Inr flt' \<and> length flt' = length (qs @ qs') \<and>
    flat_forest (qs @ qs') flt' \<and> concat (map kids flt') = [1..<length (qs @ qs')]"
  using assms
proof (induction source flt index arbitrary: qs rule: compile_loop.induct)
  case (1 source flt index)
  have len: "length source = length qs" using "1.prems"(3,4) by simp
  show ?case
  proof (cases "index < length qs")
    case True
    define n where "n = qs ! index"
    have n: "source ! index = Some n" "wf_node n"
      using "1.prems"(4,5) True by (simp_all add: n_def nth_append list_all_length)
    obtain fl where fl: "flatten_node n (source[index := None]) = Inr (fl, source[index := None] @ map Some (children n))"
        "flat_rep (qs @ children n) index (node_literals n) fl n"
        "kids fl = [length qs..<length qs + length (children n)]"
      using flatten_node_spec [OF wf_node_distinct(2) [OF n(2)], of "source[index := None]" qs index] len True by auto
    let ?qs = "qs @ children n" and ?source = "source[index := None] @ map Some (children n)"
    have drop: "drop index qs = n # drop (Suc index) qs" using True n_def by (simp add: Cons_nth_drop_Suc)
    have "source[index := None] = replicate (Suc index) None @ map Some (drop (Suc index) qs)"
      using "1.prems"(4) drop by (simp add: list_update_append replicate_append_same)
    hence source: "?source = replicate (Suc index) None @ map Some (drop (Suc index) ?qs)"
      using True by simp
    have forest: "flat_forest ?qs (flt @ [fl])"
      using flat_forest_step [OF "1.prems"(6), of "children n" n fl] True "1.prems"(2) n_def fl(2) by simp
    have kids: "concat (map kids (flt @ [fl])) = [1..<length ?qs]"
      using "1.prems"(1,7) fl(3) upt_add_eq_append [of 1 "length qs" "length (children n)"]
      by (simp add: Suc_le_eq)
    have wf: "list_all wf_node ?qs" using "1.prems"(5) wf_node_children [OF n(2)] by simp
    have step: "compile_loop source flt index = compile_loop ?source (flt @ [fl]) (index + 1)"
      using True len n(1) fl(1) by (simp add: compile_loop.simps [of source flt index])
    have idx: "index < length source" using True len by simp
    have "\<exists>flt' qs'. compile_loop ?source (flt @ [fl]) (index + 1) = Inr flt' \<and>
        length flt' = length (?qs @ qs') \<and> flat_forest (?qs @ qs') flt' \<and>
        concat (map kids flt') = [1..<length (?qs @ qs')]"
      by (rule "1.IH" [OF idx n(1) fl(1) refl]) (use "1.prems"(1,2) True source wf forest kids in simp_all)
    thus ?thesis using step by (metis append.assoc)
  next
    case False
    hence "index = length qs" using "1.prems"(3) by simp
    moreover have "compile_loop source flt index = Inr flt"
      using False len by (simp add: compile_loop.simps [of source flt index])
    ultimately show ?thesis using "1.prems" by (intro exI [of _ flt] exI [of _ "[]"]) simp
  qed
qed

text \<open>The weights.\<close>

lemma try_map_Inr: "(\<And>x. x \<in> set xs \<Longrightarrow> f x = Inr (g x)) \<Longrightarrow> try_map f xs = Inr (map g xs)"
  by (induction xs) simp_all

lemma sum_list_sort_key: "sum_list (map (f :: 'a \<Rightarrow> nat) (sort_key g xs)) = sum_list (map f xs)"
  by (metis mset_map mset_sort sum_mset_sum_list)

definition weights_ok :: "node list \<Rightarrow> nat list \<Rightarrow> nat \<Rightarrow> bool" where
  "weights_ok qs w k \<longleftrightarrow> length w = length qs \<and> (\<forall>j < length qs. k \<le> j \<longrightarrow> w ! j = leaf_count (qs ! j))"

lemma leaf_count_sel:
  "leaf_count n = length (node_exact n) + length (node_rest n) +
     sum_list (map (\<lambda>kc. leaf_count (snd kc)) (node_literals n)) +
     sum_list (map (\<lambda>kc. leaf_count (snd kc)) (affix_edges_in_match_order n)) +
     (case node_single n of None \<Rightarrow> 0 | Some c \<Rightarrow> leaf_count c)"
  by (cases n) (simp add: affix_edges_in_match_order_def sum_list_sort_key)

lemma try_map_rel: "list_all2 (\<lambda>x y. f x = Inr (g y)) xs ys \<Longrightarrow> try_map f xs = Inr (map g ys)"
  by (induction rule: list_all2_induct) simp_all

lemma vec_get_weight:
  "weights_ok qs w (Suc i) \<Longrightarrow> child_at qs i c t \<Longrightarrow> vec_get w c = Inr (leaf_count t)"
  by (simp add: weights_ok_def child_at_def vec_get_def Suc_le_eq)

lemma literal_weights:
  assumes "list_all2 (\<lambda>(k, c) (k', t). k = k' \<and> child_at qs i c t) kcs lits" "weights_ok qs w (Suc i)"
  shows "try_map (\<lambda>(_, c). vec_get w c) kcs = Inr (map (\<lambda>kc. leaf_count (snd kc)) lits)"
  by (rule try_map_rel, rule list_all2_mono [OF assms(1)]) (auto dest: vec_get_weight [OF assms(2)])

lemma flat_weight_eval:
  assumes rep: "flat_rep qs i (node_literals n) fl n" and w: "weights_ok qs w (Suc i)"
  shows "flat_weight fl w = Inr (leaf_count n)"
proof -
  have "try_map (\<lambda>(_, c). vec_get w c) (fl_literals fl) =
      Inr (map (\<lambda>kc. leaf_count (snd kc)) (node_literals n))"
    by (rule literal_weights [OF _ w]) (use rep in \<open>simp add: flat_rep_def\<close>)
  moreover have "list_all2 (\<lambda>(p, s, c) ((p', s'), t). p = p' \<and> s = s' \<and> child_at qs i c t)
       (fl_affix fl) (affix_edges_in_match_order n)"
    using rep by (simp add: flat_rep_def)
  hence "try_map (\<lambda>(_, _, c). vec_get w c) (fl_affix fl) =
      Inr (map (\<lambda>kc. leaf_count (snd kc)) (affix_edges_in_match_order n))"
    by (intro try_map_rel, elim list_all2_mono) (auto dest: vec_get_weight [OF w])
  moreover have "rel_option (child_at qs i) (fl_single fl) (node_single n)"
    using rep by (simp add: flat_rep_def)
  hence "(case fl_single fl of None \<Rightarrow> Inr 0 | Some c \<Rightarrow> vec_get w c) =
      Inr (case node_single n of None \<Rightarrow> 0 | Some c \<Rightarrow> leaf_count c)"
    by (cases rule: option.rel_cases) (auto dest: vec_get_weight [OF w])
  ultimately show ?thesis
    using rep by (simp add: flat_weight_def leaf_count_sel [of n] flat_rep_def)
qed

lemma node_weights_loop_eval:
  assumes "flat_forest qs flt" "length flt = length qs" "k \<le> length qs" "weights_ok qs w k"
  shows "\<exists>w'. node_weights_loop flt (rev [0..<k]) w = Inr w' \<and> weights_ok qs w' 0"
  using assms(3,4)
proof (induction k arbitrary: w)
  case (Suc k)
  have "flat_weight (flt ! k) w = Inr (leaf_count (qs ! k))"
    using flat_weight_eval [of qs k "qs ! k" "flt ! k" w] Suc.prems assms(1,2)
    by (simp add: flat_forest_def Suc_le_eq)
  moreover have "weights_ok qs (w[k := leaf_count (qs ! k)]) k"
    using Suc.prems by (auto simp: weights_ok_def nth_list_update Suc_le_eq)
  ultimately show ?case using Suc.IH [of "w[k := leaf_count (qs ! k)]"] Suc.prems by simp
qed simp

lemma node_weights_eval:
  assumes "flat_forest qs flt" "length flt = length qs"
  obtains w where "node_weights flt = Inr w" "weights_ok qs w 0"
  using node_weights_loop_eval [OF assms order_refl, of "replicate (length qs) 0"] assms(2)
  by (auto simp: node_weights_def weights_ok_def)

text \<open>After ordering, the literal edges stand for the literals by weight.\<close>

lemma weights_ok_le: "weights_ok qs w k \<Longrightarrow> k \<le> l \<Longrightarrow> weights_ok qs w l"
  by (auto simp: weights_ok_def)

lemma order_literals_eval:
  assumes "flat_forest qs flt" "length flt = length qs"
  obtains flt' where "order_literals_by_weight flt = Inr flt'" "length flt' = length qs"
    "\<And>i. i < length qs \<Longrightarrow> flat_rep qs i (literals_by_weight (qs ! i)) (flt' ! i) (qs ! i) \<and>
       mset (kids (flt' ! i)) = mset (kids (flt ! i))"
proof -
  obtain w where w: "node_weights flt = Inr w" "weights_ok qs w 0"
    using node_weights_eval [OF assms] .
  define f where "f fl = fl\<lparr>fl_literals := sort_key (\<lambda>(_, c). - int (w ! c)) (fl_literals fl)\<rparr>" for fl :: flat_node
  have rep: "flat_rep qs i (node_literals (qs ! i)) (flt ! i) (qs ! i)" if "i < length qs" for i
    using assms that by (simp add: flat_forest_def)
  have "try_map (\<lambda>fl. try_bind (try_map (\<lambda>(_, c). vec_get w c) (fl_literals fl)) (\<lambda>_. Inr (f fl))) flt =
      Inr (map f flt)"
  proof (rule try_map_Inr)
    fix fl assume "fl \<in> set flt"
    then obtain i where i: "i < length qs" "fl = flt ! i" using assms(2) by (metis in_set_conv_nth)
    hence "list_all2 (\<lambda>(k, c) (k', t). k = k' \<and> child_at qs i c t) (fl_literals fl) (node_literals (qs ! i))"
      using rep by (simp add: flat_rep_def)
    from literal_weights [OF this weights_ok_le [OF w(2)]]
    show "try_bind (try_map (\<lambda>(_, c). vec_get w c) (fl_literals fl)) (\<lambda>_. Inr (f fl)) = Inr (f fl)"
      by simp
  qed
  hence "order_literals_by_weight flt = Inr (map f flt)"
    using w(1) by (simp add: order_literals_by_weight_def f_def)
  moreover have "flat_rep qs i (literals_by_weight (qs ! i)) (map f flt ! i) (qs ! i) \<and>
      mset (kids (map f flt ! i)) = mset (kids (flt ! i))" if i: "i < length qs" for i
  proof
    let ?R = "\<lambda>(k, c) (k', t). k = k' \<and> child_at qs i c t"
    have "?R x y \<Longrightarrow> (case x of (_, c) \<Rightarrow> - int (w ! c)) = (case y of (_, t) \<Rightarrow> - int (leaf_count t))" for x y
      using w(2) by (auto simp: weights_ok_def child_at_def)
    hence "list_all2 ?R (sort_key (\<lambda>(_, c). - int (w ! c)) (fl_literals (flt ! i)))
        (sort_key (\<lambda>(_, c). - int (leaf_count c)) (node_literals (qs ! i)))"
      using rep [OF i] by (intro list_all2_sort_key) (auto simp: flat_rep_def)
    thus "flat_rep qs i (literals_by_weight (qs ! i)) (map f flt ! i) (qs ! i)"
      using rep [OF i] i assms(2) by (simp add: flat_rep_def f_def literals_by_weight_def)
    show "mset (kids (map f flt ! i)) = mset (kids (flt ! i))"
      using i assms(2) by (simp add: kids_def f_def)
  qed
  ultimately show ?thesis using that assms(2) by simp
qed

text \<open>Taking the children of a node out of the array of built nodes.\<close>

lemma take_built_Some:
  "c < length built \<Longrightarrow> built ! c = Some t \<Longrightarrow> take_built built c = Inr (t, built[c := None])"
  by (simp add: take_built_def vec_get_def)

definition cleared :: "nat set \<Rightarrow> 'a option list \<Rightarrow> 'a option list" where
  "cleared C built = map (\<lambda>j. if j \<in> C then None else built ! j) [0..<length built]"

lemma cleared_simps [simp]:
  "length (cleared C built) = length built"
  "j < length built \<Longrightarrow> cleared C built ! j = (if j \<in> C then None else built ! j)"
  "cleared C (cleared D built) = cleared (C \<union> D) built"
  "cleared {} built = built"
  by (simp_all add: cleared_def map_nth cong: map_cong)

lemma update_None_cleared: "built[c := None] = cleared {c} built"
  by (auto simp: list_eq_iff_nth_eq nth_list_update)

lemma take_literals_eval:
  "distinct (map snd kcs) \<Longrightarrow> \<forall>c \<in> set (map snd kcs). c < length built \<and> built ! c = Some (g c) \<Longrightarrow>
     take_literals kcs built = Inr (map (\<lambda>(k, c). (k, g c)) kcs, cleared (set (map snd kcs)) built)"
proof (induction kcs arbitrary: built)
  case (Cons kc kcs)
  obtain k c where kc: "kc = (k, c)" by (cases kc)
  have "take_literals kcs (cleared {c} built) =
      Inr (map (\<lambda>(k, c). (k, g c)) kcs, cleared (set (map snd kcs)) (cleared {c} built))"
    by (rule Cons.IH) (use Cons.prems kc in auto)
  thus ?case using Cons.prems kc take_built_Some [of c built "g c"]
    by (simp add: update_None_cleared)
qed simp

lemma take_affixes_eval:
  "distinct (map (\<lambda>(p, s, c). c) kcs) \<Longrightarrow>
     \<forall>c \<in> set (map (\<lambda>(p, s, c). c) kcs). c < length built \<and> built ! c = Some (g c) \<Longrightarrow>
     take_affixes kcs built =
       Inr (map (\<lambda>(p, s, c). (p, s, g c)) kcs, cleared (set (map (\<lambda>(p, s, c). c) kcs)) built)"
proof (induction kcs arbitrary: built)
  case (Cons kc kcs)
  obtain p s c where kc: "kc = (p, s, c)" by (cases kc)
  have "take_affixes kcs (cleared {c} built) =
      Inr (map (\<lambda>(p, s, c). (p, s, g c)) kcs, cleared (set (map (\<lambda>(p, s, c). c) kcs)) (cleared {c} built))"
    by (rule Cons.IH) (use Cons.prems kc in \<open>force simp: case_prod_unfold\<close>)+
  thus ?case using Cons.prems kc take_built_Some [of c built "g c"]
    by (simp add: update_None_cleared)
qed simp

lemma take_single_eval:
  "\<forall>c. single = Some c \<longrightarrow> c < length built \<and> built ! c = Some (g c) \<Longrightarrow>
     take_single single built = Inr (map_option g single, cleared (set_option single) built)"
  by (cases single) (simp_all add: take_single_def take_built_Some update_None_cleared)

text \<open>The nodes are rebuilt from the last to the first.\<close>

lemma distinct_concat_disjoint:
  "distinct (concat xss) \<Longrightarrow> i < j \<Longrightarrow> j < length xss \<Longrightarrow> c \<in> set (xss ! i) \<Longrightarrow> c \<notin> set (xss ! j)"
proof (induction xss arbitrary: i j)
  case (Cons xs xss)
  obtain j' where j: "j = Suc j'" using Cons.prems(2) by (cases j) auto
  show ?case
  proof (cases i)
    case 0
    have "xss ! j' \<in> set xss" using Cons.prems(3) j by simp
    moreover have "set xs \<inter> \<Union> (set ` set xss) = {}" using Cons.prems(1) by simp
    ultimately have "set xs \<inter> set (xss ! j') = {}" by blast
    thus ?thesis using Cons.prems(4) 0 j by auto
  next
    case (Suc i')
    thus ?thesis using Cons j by auto
  qed
qed simp

definition built_ok :: "node list \<Rightarrow> flat_node list \<Rightarrow> nat \<Rightarrow> rt_node option list \<Rightarrow> bool" where
  "built_ok qs flt k built \<longleftrightarrow> length built = length qs \<and>
     (\<forall>j < length qs. built ! j =
        (if k \<le> j \<and> (\<forall>i < length qs. k \<le> i \<longrightarrow> j \<notin> set (kids (flt ! i)))
         then Some (rt_of (qs ! j)) else None))"

lemma rel_map_children:
  assumes "list_all2 (\<lambda>(k, c) (k', t). k = k' \<and> child_at qs i c t) xs ys"
  shows "map (\<lambda>(k, c). (k, rt_of (qs ! c))) xs = map (\<lambda>kc. (fst kc, rt_of (snd kc))) ys"
  using assms by (induction rule: list_all2_induct) (simp_all add: child_at_def case_prod_unfold)

lemma rel_map_affix_children:
  assumes "list_all2 (\<lambda>(p, s, c) ((p', s'), t). p = p' \<and> s = s' \<and> child_at qs i c t) xs ys"
  shows "map (\<lambda>(p, s, c). (p, s, rt_of (qs ! c))) xs =
    map (\<lambda>kc. (fst (fst kc), snd (fst kc), rt_of (snd kc))) ys"
  using assms by (induction rule: list_all2_induct) (simp_all add: child_at_def case_prod_unfold)

lemma list_all2_memD: "list_all2 P xs ys \<Longrightarrow> x \<in> set xs \<Longrightarrow> \<exists>y \<in> set ys. P x y"
  by (metis in_set_conv_nth list_all2_conv_all_nth)

lemma kids_child_at:
  assumes "flat_rep qs i lits fl n" "c \<in> set (kids fl)"
  shows "i < c \<and> c < length qs"
proof -
  have ls: "list_all2 (\<lambda>(k, c) (k', t). k = k' \<and> child_at qs i c t) (fl_literals fl) lits"
    and as: "list_all2 (\<lambda>(p, s, c) ((p', s'), t). p = p' \<and> s = s' \<and> child_at qs i c t)
       (fl_affix fl) (affix_edges_in_match_order n)"
    and s: "rel_option (child_at qs i) (fl_single fl) (node_single n)"
    using assms(1) by (simp_all add: flat_rep_def)
  consider x where "x \<in> set (fl_literals fl)" "c = snd x"
    | p s where "(p, s, c) \<in> set (fl_affix fl)" | "fl_single fl = Some c"
    using assms(2) by (fastforce simp: kids_def split: option.splits)
  thus ?thesis
  proof cases
    case 1
    thus ?thesis using list_all2_memD [OF ls 1(1)] by (auto simp: child_at_def split: prod.splits)
  next
    case 2
    thus ?thesis using list_all2_memD [OF as 2] by (auto simp: child_at_def split: prod.splits)
  next
    case 3
    thus ?thesis using s by (auto simp: child_at_def elim: option.rel_cases)
  qed
qed

lemma rebuild_step:
  assumes rep: "flat_rep qs k (literals_by_weight n) (flt ! k) n" and n: "n = qs ! k" "k < length qs"
    and ok: "built_ok qs flt (Suc k) built"
    and dist: "distinct (kids (flt ! k))"
    and disj: "\<And>i c. k < i \<Longrightarrow> i < length qs \<Longrightarrow> c \<in> set (kids (flt ! k)) \<Longrightarrow> c \<notin> set (kids (flt ! i))"
    and self: "\<And>i. k \<le> i \<Longrightarrow> i < length qs \<Longrightarrow> k \<notin> set (kids (flt ! i))"
  shows "\<exists>built'. rebuild_loop flt (k # is) built = rebuild_loop flt is built' \<and> built_ok qs flt k built'"
proof -
  let ?fl = "flt ! k"
  let ?L = "map snd (fl_literals ?fl)" and ?A = "map (\<lambda>(p, s, c). c) (fl_affix ?fl)"
  have kids: "set (kids ?fl) = set ?L \<union> set ?A \<union> set_option (fl_single ?fl)"
    by (auto simp: kids_def split: option.splits)
  have here: "c < length built \<and> built ! c = Some (rt_of (qs ! c))" if "c \<in> set (kids ?fl)" for c
    using ok that kids_child_at [OF rep that] disj by (simp add: built_ok_def)
  have d: "distinct ?L" "distinct ?A" "set ?L \<inter> set ?A = {}"
      "set_option (fl_single ?fl) \<inter> (set ?L \<union> set ?A) = {}"
    using dist by (auto simp: kids_def split: option.splits)
  have 1: "take_literals (fl_literals ?fl) built =
      Inr (map (\<lambda>(x, c). (x, rt_of (qs ! c))) (fl_literals ?fl), cleared (set ?L) built)"
    by (rule take_literals_eval [OF d(1)]) (use here kids in blast)
  have 2: "take_affixes (fl_affix ?fl) (cleared (set ?L) built) =
      Inr (map (\<lambda>(p, s, c). (p, s, rt_of (qs ! c))) (fl_affix ?fl), cleared (set ?A) (cleared (set ?L) built))"
  proof (rule take_affixes_eval [OF d(2)], rule ballI)
    fix c assume c: "c \<in> set ?A"
    hence "c \<notin> set ?L" "c \<in> set (kids ?fl)" using kids d(3) by blast+
    thus "c < length (cleared (set ?L) built) \<and> cleared (set ?L) built ! c = Some (rt_of (qs ! c))"
      using here [of c] by simp
  qed
  have 3: "take_single (fl_single ?fl) (cleared (set ?A) (cleared (set ?L) built)) =
      Inr (map_option (\<lambda>c. rt_of (qs ! c)) (fl_single ?fl), cleared (set_option (fl_single ?fl))
        (cleared (set ?A) (cleared (set ?L) built)))"
  proof (rule take_single_eval, intro allI impI)
    fix c assume "fl_single ?fl = Some c"
    hence "c \<notin> set ?L" "c \<notin> set ?A" "c \<in> set (kids ?fl)" using kids d(4) by auto
    thus "c < length (cleared (set ?A) (cleared (set ?L) built)) \<and>
        cleared (set ?A) (cleared (set ?L) built) ! c = Some (rt_of (qs ! c))"
      using here [of c] by simp
  qed
  have lits: "map (\<lambda>(x, c). (x, rt_of (qs ! c))) (fl_literals ?fl) =
      map (\<lambda>kc. (fst kc, rt_of (snd kc))) (literals_by_weight n)"
    by (rule rel_map_children [of qs k]) (use rep in \<open>simp add: flat_rep_def\<close>)
  have affs: "map (\<lambda>(p, s, c). (p, s, rt_of (qs ! c))) (fl_affix ?fl) =
      map (\<lambda>kc. (fst (fst kc), snd (fst kc), rt_of (snd kc))) (affix_edges_in_match_order n)"
    by (rule rel_map_affix_children [of qs k]) (use rep in \<open>simp add: flat_rep_def\<close>)
  have sing: "map_option (\<lambda>c. rt_of (qs ! c)) (fl_single ?fl) = map_option rt_of (node_single n)"
    using rep by (auto simp: flat_rep_def child_at_def elim: option.rel_cases)
  define built' where "built' = (cleared (set (kids ?fl)) built)[k := Some (rt_of n)]"
  have "rebuild_loop flt (k # is) built = rebuild_loop flt is built'"
    using 1 2 3 rep
    by (simp add: lits affs sing built'_def kids rt_of.simps [of n] flat_rep_def Un_ac)
  moreover have "built_ok qs flt k built'"
    unfolding built_ok_def
  proof (intro conjI allI impI)
    show "length built' = length qs" using ok by (simp add: built'_def built_ok_def)
    fix j assume j: "j < length qs"
    show "built' ! j = (if k \<le> j \<and> (\<forall>i < length qs. k \<le> i \<longrightarrow> j \<notin> set (kids (flt ! i)))
         then Some (rt_of (qs ! j)) else None)"
    proof (cases "j = k")
      case True
      thus ?thesis using ok n self by (simp add: built'_def built_ok_def)
    next
      case False
      have "(\<forall>i < length qs. k \<le> i \<longrightarrow> j \<notin> set (kids (flt ! i))) \<longleftrightarrow>
          j \<notin> set (kids ?fl) \<and> (\<forall>i < length qs. Suc k \<le> i \<longrightarrow> j \<notin> set (kids (flt ! i)))"
        using n(2) by (metis Suc_leD Suc_leI le_eq_less_or_eq)
      thus ?thesis using False ok j by (auto simp: built'_def built_ok_def)
    qed
  qed
  ultimately show ?thesis by blast
qed

lemma rebuild_loop_eval:
  assumes rep: "\<And>i. i < length qs \<Longrightarrow> flat_rep qs i (literals_by_weight (qs ! i)) (flt ! i) (qs ! i)"
    and len: "length flt = length qs" and dist: "distinct (concat (map kids flt))"
  shows "k \<le> length qs \<Longrightarrow> built_ok qs flt k built \<Longrightarrow>
    \<exists>built'. rebuild_loop flt (rev [0..<k]) built = Inr built' \<and> built_ok qs flt 0 built'"
proof (induction k arbitrary: built)
  case (Suc k)
  have k: "k < length qs" using Suc.prems(1) by simp
  have "distinct (kids (flt ! k))"
    using dist k len by (metis distinct_concat_iff length_map nth_map nth_mem)
  moreover have "c \<notin> set (kids (flt ! i))" if "k < i" "i < length qs" "c \<in> set (kids (flt ! k))" for i c
    using distinct_concat_disjoint [OF dist that(1)] that len k by simp
  moreover have "k \<notin> set (kids (flt ! i))" if "k \<le> i" "i < length qs" for i
    using kids_child_at [OF rep [OF that(2)]] that(1) by fastforce
  ultimately obtain built' where "rebuild_loop flt (k # rev [0..<k]) built = rebuild_loop flt (rev [0..<k]) built'"
      "built_ok qs flt k built'"
    using rebuild_step [OF rep [OF k] refl k Suc.prems(2)] by blast
  thus ?case using Suc.IH [of built'] k by simp
qed auto

lemma compile_rt_of:
  assumes "wf_node n"
  shows "compile n = Inr (rt_of n)"
proof -
  obtain flt qs' where 1: "compile_loop [Some n] [] 0 = Inr flt" "length flt = length ([n] @ qs')"
      "flat_forest ([n] @ qs') flt" "concat (map kids flt) = [1..<length ([n] @ qs')]"
    using compile_loop_spec [of "[n]" "[]" 0 "[Some n]"] assms by (auto simp: flat_forest_def)
  let ?qs = "[n] @ qs'"
  obtain flt' where 2: "order_literals_by_weight flt = Inr flt'" "length flt' = length ?qs"
      "\<And>i. i < length ?qs \<Longrightarrow> flat_rep ?qs i (literals_by_weight (?qs ! i)) (flt' ! i) (?qs ! i) \<and>
         mset (kids (flt' ! i)) = mset (kids (flt ! i))"
    using order_literals_eval [OF 1(3,2)] by blast
  have "map (\<lambda>fl. mset (kids fl)) flt' = map (\<lambda>fl. mset (kids fl)) flt"
    using 1(2) 2(2,3) by (intro nth_equalityI) simp_all
  hence "mset (concat (map kids flt')) = mset (concat (map kids flt))"
    by (simp add: mset_concat comp_def)
  hence dist: "distinct (concat (map kids flt'))" using 1(4) by (metis distinct_upt mset_eq_imp_distinct_iff)
  have "built_ok ?qs flt' (length ?qs) (replicate (length flt') None)"
    using 2(2) by (auto simp: built_ok_def simp del: replicate_Suc simp flip: replicate_Suc)
  then obtain built where 3: "rebuild_loop flt' (rev [0..<length ?qs]) (replicate (length flt') None) = Inr built"
      "built_ok ?qs flt' 0 built"
    using rebuild_loop_eval [OF _ 2(2) dist, of "length ?qs"] 2(3) by blast
  have "0 \<notin> set (kids (flt' ! i))" if "i < length ?qs" for i
    using kids_child_at [OF conjunct1 [OF 2(3) [OF that]]] by blast
  hence "built ! 0 = Some (rt_of n)" "0 < length built" using 3(2) by (simp_all add: built_ok_def)
  thus ?thesis using 1(1) 2(1,2) 3(1) by (simp add: compile_def take_built_Some)
qed

section \<open>Properties\<close>

text \<open>
  C31. Compilation is the recursive translation: on every trie whose maps have ascending keys, flattening
  through the queue, ordering the literal edges by the number of routes below them and rebuilding from
  the last node to the first ends, takes every queued and built node exactly once, and gives at every
  node the literals with the most routes first, the longest affixes first and the leaves unchanged.
\<close>

theorem compile_is_translation:
  assumes "wf_node n"
  shows "compile n = Inr (rt_of n)"
  by (rule compile_rt_of [OF assms])

theorem compile_is_translation_witness:
  "compile (Node [(''a'', Node [] [] None [] []), (''b'', Node [] [] None [] [])]
       [((''x'', ''y''), Node [] [] None [] [])] (Some (Node [] [] None [] [])) [] []) =
     Inr (RtNode [(''a'', RtNode [] [] None [] []), (''b'', RtNode [] [] None [] [])]
       [(''x'', ''y'', RtNode [] [] None [] [])] (Some (RtNode [] [] None [] [])) [] [])"
proof -
  let ?n = "Node [(''a'', Node [] [] None [] []), (''b'', Node [] [] None [] [])]
       [((''x'', ''y''), Node [] [] None [] [])] (Some (Node [] [] None [] [])) [] []"
  have "wf_node ?n" by code_simp
  moreover have "rt_of (Node [] [] None [] []) = RtNode [] [] None [] []"
    by (simp add: rt_of.simps [of "Node [] [] None [] []"] literals_by_weight_def affix_edges_in_match_order_def)
  hence "rt_of ?n = RtNode [(''a'', RtNode [] [] None [] []), (''b'', RtNode [] [] None [] [])]
       [(''x'', ''y'', RtNode [] [] None [] [])] (Some (RtNode [] [] None [] [])) [] []"
    by (simp add: rt_of.simps [of ?n] literals_by_weight_def affix_edges_in_match_order_def)
  ultimately show ?thesis using compile_is_translation [of ?n] by simp
qed

end
