(* ===== verification/Router_Walk.thy ===== *)
theory Router_Walk
  imports Router_Compile
begin

text \<open>
  The descent of the runtime trie (\<open>routerama/src/walk.rs\<close>): one iteration of the loop is
  \<open>walk_step\<close>, the pending alternatives are a stack whose top is the head of the list, and
  \<open>descend_iterative\<close> iterates the step. It is shown to end, not to panic, and to return the first
  leaf, for the method and the verb, of the recursive enumeration \<open>candidates\<close>.
\<close>

section \<open>The walk\<close>

record walk =
  walk_path :: scanned_path
  walk_method :: string
  walk_verb :: "string option"

datatype walk_action = WNode rt_node nat | WLeaves "leaf list"

definition leaf_accepts :: "bool \<Rightarrow> string \<Rightarrow> string option \<Rightarrow> leaf \<Rightarrow> bool" where
  "leaf_accepts verbs meth verb lf \<longleftrightarrow> leaf_method lf = meth \<and> (\<not> verbs \<or> leaf_verb lf = verb)"

definition dispatch :: "bool \<Rightarrow> walk \<Rightarrow> leaf list \<Rightarrow> leaf option" where
  "dispatch verbs w leaves = find (leaf_accepts verbs (walk_method w) (walk_verb w)) leaves"

definition literal_matches :: "string \<Rightarrow> string \<Rightarrow> bool" where
  "literal_matches bytes key \<longleftrightarrow>
     length key = length bytes \<and> take 1 key = take 1 bytes \<and> key = bytes"

definition affix_matches :: "string \<Rightarrow> string \<Rightarrow> string \<Rightarrow> bool" where
  "affix_matches bytes p s \<longleftrightarrow>
     length p + length s < length bytes \<and> take (length p) bytes = p \<and>
     drop (length bytes - length s) bytes = s"

text \<open>\<open>enumerate().find(..)\<close>.\<close>

fun find_enumerated :: "('a \<Rightarrow> bool) \<Rightarrow> nat \<Rightarrow> 'a list \<Rightarrow> (nat \<times> 'a) option" where
  "find_enumerated P i [] = None"
| "find_enumerated P i (x # xs) = (if P x then Some (i, x) else find_enumerated P (i + 1) xs)"

datatype walk_next = WContinue rt_node nat "walk_action list" | WReturn "leaf option"

fun pop_pending :: "bool \<Rightarrow> walk \<Rightarrow> walk_action list \<Rightarrow> walk_next" where
  "pop_pending verbs w [] = WReturn None"
| "pop_pending verbs w (WNode n d # pending) = WContinue n d pending"
| "pop_pending verbs w (WLeaves leaves # pending) =
     (case dispatch verbs w leaves of
        Some m \<Rightarrow> WReturn (Some m)
      | None \<Rightarrow> pop_pending verbs w pending)"

definition push_rest :: "nat \<Rightarrow> nat \<Rightarrow> rt_node \<Rightarrow> walk_action list \<Rightarrow> walk_action list" where
  "push_rest cnt depth n pending =
     (if depth \<le> cnt \<and> rt_rest n \<noteq> [] then WLeaves (rt_rest n) # pending else pending)"

definition push_affixes ::
  "string \<Rightarrow> nat \<Rightarrow> (string \<times> string \<times> rt_node) list \<Rightarrow> walk_action list \<Rightarrow> walk_action list" where
  "push_affixes bytes depth edges pending =
     fold (\<lambda>(p, s, c) pending. if affix_matches bytes p s then WNode c (depth + 1) # pending else pending)
       (rev edges) pending"

text \<open>The end of an iteration: the single edge, the leaves of the node, the pending alternatives.\<close>

definition walk_leaves ::
  "bool \<Rightarrow> walk \<Rightarrow> rt_node \<Rightarrow> nat \<Rightarrow> walk_action list \<Rightarrow> rt_node option \<Rightarrow> walk_next" where
  "walk_leaves verbs w n depth pending single =
     (let cnt = sp_count (walk_path w) in
      case single of
        Some c \<Rightarrow> WContinue c (depth + 1) (push_rest cnt depth n pending)
      | None \<Rightarrow>
          (case (if cnt = depth then dispatch verbs w (rt_exact n) else None) of
             Some m \<Rightarrow> WReturn (Some m)
           | None \<Rightarrow>
               (case (if depth \<le> cnt then dispatch verbs w (rt_rest n) else None) of
                  Some m \<Rightarrow> WReturn (Some m)
                | None \<Rightarrow> pop_pending verbs w pending)))"

text \<open>The edges of a node that are tried for a segment.\<close>

definition walk_edges ::
  "bool \<Rightarrow> walk \<Rightarrow> rt_node \<Rightarrow> nat \<Rightarrow> walk_action list \<Rightarrow> rt_node option \<Rightarrow> string \<Rightarrow> walk_next resolved" where
  "walk_edges verbs w n depth pending single bytes =
     (let cnt = sp_count (walk_path w);
          literal = find (\<lambda>(key, _). literal_matches bytes key) (rt_literals n);
          first_affix = find_enumerated (\<lambda>(p, s, _). affix_matches bytes p s) 0 (rt_affix n)
      in if rt_affix n = [] \<and> rt_single n = None \<and> rt_rest n = [] \<and> literal \<noteq> None
         then Inr (WContinue (snd (the literal)) (depth + 1) pending)
         else
           if literal \<noteq> None \<or> first_affix \<noteq> None \<or> single \<noteq> None
           then
             let pending = push_rest cnt depth n pending;
                 pending = (case single of
                     Some c \<Rightarrow>
                       if literal \<noteq> None \<or> first_affix \<noteq> None then WNode c (depth + 1) # pending else pending
                   | None \<Rightarrow> pending);
                 skip = (case first_affix of
                     None \<Rightarrow> 0
                   | Some (index, _) \<Rightarrow> (if literal = None then 1 else 0) + index);
                 pending = push_affixes bytes depth (drop skip (rt_affix n)) pending
             in (case literal of
                   Some (_, child) \<Rightarrow> Inr (WContinue child (depth + 1) pending)
                 | None \<Rightarrow>
                     (case first_affix of
                        Some (_, (_, _, child)) \<Rightarrow> Inr (WContinue child (depth + 1) pending)
                      | None \<Rightarrow>
                          (case single of
                             Some child \<Rightarrow> Inr (WContinue child (depth + 1) pending)
                           | None \<Rightarrow> Inl (Panicked ''at least one matching child was found''))))
           else Inr (walk_leaves verbs w n depth pending single))"

definition walk_step ::
  "bool \<Rightarrow> walk \<Rightarrow> rt_node \<Rightarrow> nat \<Rightarrow> walk_action list \<Rightarrow> walk_next resolved" where
  "walk_step verbs w n depth pending =
     try_bind (path_segment (walk_path w) depth) (\<lambda>seg.
       let single = (case seg of
             Some bytes \<Rightarrow> if bytes \<noteq> [] then rt_single n else None
           | None \<Rightarrow> None)
       in if rt_literals n = [] \<and> rt_affix n = [] \<and> rt_rest n = [] \<and> single \<noteq> None
          then Inr (WContinue (the single) (depth + 1) pending)
          else
              (case seg of
                 Some bytes \<Rightarrow>
                   if rt_literals n \<noteq> [] \<or> rt_affix n \<noteq> []
                   then walk_edges verbs w n depth pending single bytes
                   else Inr (walk_leaves verbs w n depth pending single)
               | None \<Rightarrow> Inr (walk_leaves verbs w n depth pending single)))"

section \<open>The walk ends\<close>

fun rtsize :: "rt_node \<Rightarrow> nat" where
  "rtsize (RtNode ls as s ex re) =
     2 + sum_list (map (\<lambda>kc. rtsize (snd kc)) ls) + sum_list (map (\<lambda>kc. rtsize (snd (snd kc))) as) +
       (case s of None \<Rightarrow> 0 | Some c \<Rightarrow> rtsize c)"

fun action_size :: "walk_action \<Rightarrow> nat" where
  "action_size (WNode n d) = rtsize n"
| "action_size (WLeaves ls) = 1"

abbreviation pending_size :: "walk_action list \<Rightarrow> nat" where
  "pending_size pending \<equiv> sum_list (map action_size pending)"

lemma push_affixes_filter:
  "push_affixes bytes depth edges pending =
     map (\<lambda>(p, s, c). WNode c (depth + 1)) (filter (\<lambda>(p, s, c). affix_matches bytes p s) edges) @ pending"
  unfolding push_affixes_def by (induction edges arbitrary: pending) (simp_all add: case_prod_unfold)

lemma pop_pending_size: "pop_pending verbs w pending = WContinue n d p \<Longrightarrow> rtsize n + pending_size p \<le> pending_size pending"
  by (induction verbs w pending rule: pop_pending.induct) (auto split: option.splits)

lemma sum_list_filter_le: "sum_list (map f (filter P xs)) \<le> sum_list (map (f :: 'a \<Rightarrow> nat) xs)"
  by (induction xs) auto

lemma sum_list_drop_le: "sum_list (map f (drop k xs)) \<le> sum_list (map (f :: 'a \<Rightarrow> nat) xs)"
  by (metis append_take_drop_id le_add2 map_append sum_list.append)

lemma find_sum_le: "find P xs = Some x \<Longrightarrow> f x \<le> sum_list (map (f :: 'a \<Rightarrow> nat) xs)"
  by (auto simp: find_Some_iff intro!: member_le_sum_list)

lemma find_enumerated_None: "find_enumerated P i xs = None \<longleftrightarrow> (\<forall>x \<in> set xs. \<not> P x)"
  by (induction xs arbitrary: i) auto

lemma find_enumerated_Some:
  "find_enumerated P i xs = Some (k, x) \<Longrightarrow>
     \<exists>ys zs. xs = ys @ x # zs \<and> k = i + length ys \<and> P x \<and> (\<forall>y \<in> set ys. \<not> P y)"
proof (induction xs arbitrary: i)
  case (Cons a xs)
  show ?case
  proof (cases "P a")
    case False
    then obtain ys zs where "xs = ys @ x # zs" "k = Suc i + length ys" "P x" "\<forall>y \<in> set ys. \<not> P y"
      using Cons by fastforce
    thus ?thesis using False by (intro exI [of _ "a # ys"] exI [of _ zs]) simp
  qed (use Cons.prems in auto)
qed simp

text \<open>What one iteration with matching edges does, in terms of the list of edges that match.\<close>

definition matching_children :: "string \<Rightarrow> rt_node \<Rightarrow> rt_node list" where
  "matching_children bytes n =
     (case find (\<lambda>(key, _). literal_matches bytes key) (rt_literals n) of None \<Rightarrow> [] | Some (_, c) \<Rightarrow> [c]) @
     map (\<lambda>(p, s, c). c) (filter (\<lambda>(p, s, c). affix_matches bytes p s) (rt_affix n)) @
     (case (if bytes \<noteq> [] then rt_single n else None) of None \<Rightarrow> [] | Some c \<Rightarrow> [c])"

definition walk_visit :: "bool \<Rightarrow> walk \<Rightarrow> rt_node \<Rightarrow> nat \<Rightarrow> walk_action list \<Rightarrow> string \<Rightarrow> walk_next" where
  "walk_visit verbs w n depth pending bytes =
     (case matching_children bytes n of
        [] \<Rightarrow> walk_leaves verbs w n depth pending None
      | c # cs \<Rightarrow> WContinue c (depth + 1)
          (map (\<lambda>c. WNode c (depth + 1)) cs @ push_rest (sp_count (walk_path w)) depth n pending))"

lemma walk_edges_visit:
  "walk_edges verbs w n depth pending (if bytes \<noteq> [] then rt_single n else None) bytes =
     Inr (walk_visit verbs w n depth pending bytes)"
proof -
  let ?A = "\<lambda>(p, s, c :: rt_node). affix_matches bytes p s"
  define single where "single = (if bytes \<noteq> [] then rt_single n else None)"
  have single: "rt_single n = None \<Longrightarrow> single = None" by (simp add: single_def)
  show ?thesis
  proof (cases "find_enumerated ?A 0 (rt_affix n)")
    case None
    hence "filter ?A (rt_affix n) = []" by (simp add: find_enumerated_None filter_empty_conv)
    hence "push_affixes bytes depth (rt_affix n) pending' = pending'" for pending'
      by (simp add: push_affixes_filter)
    thus ?thesis using None single \<open>filter ?A (rt_affix n) = []\<close>
      unfolding single_def [symmetric] walk_visit_def matching_children_def walk_edges_def
      by (cases "rt_single n"; cases single; cases "find (\<lambda>(key, _). literal_matches bytes key) (rt_literals n)")
        (simp_all add: Let_def push_rest_def split: prod.splits)
  next
    case (Some kx)
    then obtain k p s c where k: "find_enumerated ?A 0 (rt_affix n) = Some (k, p, s, c)" by (cases kx) auto
    obtain ys zs where d: "rt_affix n = ys @ (p, s, c) # zs" "k = length ys" "?A (p, s, c)" "\<forall>y \<in> set ys. \<not> ?A y"
      using find_enumerated_Some [OF k] by auto
    have "filter ?A ys = []" using d(4) by (simp add: filter_empty_conv)
    thus ?thesis using k d single unfolding single_def [symmetric] walk_visit_def matching_children_def walk_edges_def
      by (cases single; cases "find (\<lambda>(key, _). literal_matches bytes key) (rt_literals n)")
        (simp_all add: Let_def push_affixes_filter push_rest_def comp_def case_prod_unfold)
  qed
qed

lemma walk_step_visit:
  assumes "path_segment (walk_path w) depth = Inr seg"
  shows "walk_step verbs w n depth pending = Inr (case seg of
      None \<Rightarrow> walk_leaves verbs w n depth pending None
    | Some bytes \<Rightarrow> walk_visit verbs w n depth pending bytes)"
proof (cases seg)
  case (Some bytes)
  define single where "single = (if bytes \<noteq> [] then rt_single n else None)"
  have single: "rt_single n = None \<Longrightarrow> single = None" by (simp add: single_def)
  show ?thesis
  proof (cases "rt_literals n = [] \<and> rt_affix n = []")
    case True
    have step: "walk_step verbs w n depth pending =
        Inr (if rt_rest n = [] \<and> single \<noteq> None then WContinue (the single) (depth + 1) pending
             else walk_leaves verbs w n depth pending single)"
      using assms Some True by (auto simp: walk_step_def Let_def single_def)
    have "matching_children bytes n = (case single of None \<Rightarrow> [] | Some c \<Rightarrow> [c])"
      using True by (simp add: matching_children_def single_def)
    thus ?thesis using Some unfolding step
      by (cases single) (simp_all add: walk_visit_def walk_leaves_def push_rest_def)
  next
    case False
    thus ?thesis using assms Some walk_edges_visit [of verbs w n depth pending bytes]
      by (cases "bytes = []") (auto simp: walk_step_def Let_def)
  qed
qed (simp add: walk_step_def assms)

lemma sum_list_case_option: "sum_list (map f (case x of None \<Rightarrow> [] | Some c \<Rightarrow> [c])) =
    (case x of None \<Rightarrow> 0 :: nat | Some c \<Rightarrow> f c)"
  by (cases x) simp_all

lemma matching_children_size: "sum_list (map rtsize (matching_children bytes n)) + 2 \<le> rtsize n"
proof (cases n)
  case (RtNode ls as s ex re)
  have "sum_list (map rtsize (case find (\<lambda>(key, _). literal_matches bytes key) ls of None \<Rightarrow> [] | Some (_, c) \<Rightarrow> [c]))
      \<le> sum_list (map (\<lambda>kc. rtsize (snd kc)) ls)"
    using find_sum_le [of "\<lambda>(key, _). literal_matches bytes key" ls _ "\<lambda>kc. rtsize (snd kc)"]
    by (cases "find (\<lambda>(key, _). literal_matches bytes key) ls") (simp_all add: case_prod_unfold)
  moreover have "sum_list (map rtsize (map (\<lambda>(p, s, c). c) (filter (\<lambda>(p, s, c). affix_matches bytes p s) as)))
      \<le> sum_list (map (\<lambda>kc. rtsize (snd (snd kc))) as)"
    using sum_list_filter_le [of "\<lambda>kc. rtsize (snd (snd kc))" "\<lambda>(p, s, c). affix_matches bytes p s" as]
    by (simp add: comp_def case_prod_unfold)
  moreover have "sum_list (map rtsize (case (if bytes \<noteq> [] then s else None) of None \<Rightarrow> [] | Some c \<Rightarrow> [c]))
      \<le> (case s of None \<Rightarrow> 0 | Some c \<Rightarrow> rtsize c)"
    by (simp add: sum_list_case_option)
  ultimately show ?thesis unfolding RtNode matching_children_def by (cases "bytes = []") simp_all
qed

lemma matching_children_less: "c \<in> set (matching_children bytes n) \<Longrightarrow> rtsize c < rtsize n"
  using matching_children_size [of bytes n] member_le_sum_list [of "rtsize c" "map rtsize (matching_children bytes n)"]
  by fastforce

lemma walk_leaves_size:
  "walk_leaves verbs w n d pending None = WContinue n' d' p \<Longrightarrow>
     rtsize n' + pending_size p < rtsize n + pending_size pending"
  using pop_pending_size [of verbs w pending n' d' p]
  by (cases n) (auto simp: walk_leaves_def Let_def split: option.splits if_splits)

lemma push_rest_size: "pending_size (push_rest cnt d n pending) \<le> 1 + pending_size pending"
  by (simp add: push_rest_def)

lemma walk_step_size:
  assumes "walk_step verbs w n depth pending = Inr (WContinue n' d' p)"
  shows "rtsize n' + pending_size p < rtsize n + pending_size pending"
proof -
  obtain seg where seg: "path_segment (walk_path w) depth = Inr seg"
    using assms by (auto simp: walk_step_def try_bind_eq_Inr)
  show ?thesis
  proof (cases seg)
    case None
    thus ?thesis using assms walk_step_visit [OF seg] walk_leaves_size by simp
  next
    case (Some bytes)
    hence v: "walk_visit verbs w n depth pending bytes = WContinue n' d' p"
      using assms walk_step_visit [OF seg] by simp
    show ?thesis
    proof (cases "matching_children bytes n")
      case Nil
      thus ?thesis using v walk_leaves_size by (simp add: walk_visit_def)
    next
      case (Cons c cs)
      thus ?thesis
        using v matching_children_size [of bytes n] push_rest_size [of "sp_count (walk_path w)" depth n pending]
        by (auto simp: walk_visit_def comp_def)
    qed
  qed
qed

function descend_loop ::
  "bool \<Rightarrow> walk \<Rightarrow> rt_node \<Rightarrow> nat \<Rightarrow> walk_action list \<Rightarrow> (leaf option) resolved" where
  "descend_loop verbs w n depth pending =
     (case walk_step verbs w n depth pending of
        Inl e \<Rightarrow> Inl e
      | Inr (WReturn r) \<Rightarrow> Inr r
      | Inr (WContinue n' d' p) \<Rightarrow> descend_loop verbs w n' d' p)"
  by pat_completeness auto
termination
  by (relation "measure (\<lambda>(_, _, n, _, pending). rtsize n + pending_size pending)")
     (simp_all add: walk_step_size)

declare descend_loop.simps [simp del]

definition descend_iterative :: "bool \<Rightarrow> walk \<Rightarrow> rt_node \<Rightarrow> nat \<Rightarrow> (leaf option) resolved" where
  "descend_iterative verbs w n depth = descend_loop verbs w n depth []"

section \<open>The walk is a search\<close>

function candidates :: "(nat \<Rightarrow> string option) \<Rightarrow> nat \<Rightarrow> rt_node \<Rightarrow> nat \<Rightarrow> leaf list" where
  "candidates seg cnt n d =
     (case seg d of
        None \<Rightarrow> []
      | Some bytes \<Rightarrow> concat (map (\<lambda>c. candidates seg cnt c (d + 1)) (matching_children bytes n))) @
     (if cnt = d then rt_exact n else []) @ (if d \<le> cnt then rt_rest n else [])"
  by pat_completeness auto
termination
  by (relation "measure (\<lambda>(_, _, n, _). rtsize n)") (simp_all add: matching_children_less)

declare candidates.simps [simp del]

fun action_leaves :: "(nat \<Rightarrow> string option) \<Rightarrow> nat \<Rightarrow> walk_action \<Rightarrow> leaf list" where
  "action_leaves seg cnt (WNode n d) = candidates seg cnt n d"
| "action_leaves seg cnt (WLeaves ls) = ls"

text \<open>The segments of a path as the walk reads them.\<close>

definition reads :: "walk \<Rightarrow> (nat \<Rightarrow> string option) \<Rightarrow> bool" where
  "reads w seg \<longleftrightarrow>
     (\<forall>d. path_segment (walk_path w) d = Inr (seg d)) \<and>
     (\<forall>d. seg d \<noteq> None \<longrightarrow> d < sp_count (walk_path w))"

lemma find_append: "find P (xs @ ys) = (case find P xs of None \<Rightarrow> find P ys | Some x \<Rightarrow> Some x)"
  by (induction xs) auto

lemma pop_pending_leaves:
  "pop_pending verbs w pending = WReturn r \<Longrightarrow>
     find (leaf_accepts verbs (walk_method w) (walk_verb w)) (concat (map (action_leaves seg cnt) pending)) = r"
  "pop_pending verbs w pending = WContinue n d p \<Longrightarrow>
     find (leaf_accepts verbs (walk_method w) (walk_verb w)) (concat (map (action_leaves seg cnt) pending)) =
     find (leaf_accepts verbs (walk_method w) (walk_verb w))
       (candidates seg cnt n d @ concat (map (action_leaves seg cnt) p))"
  by (induction verbs w pending rule: pop_pending.induct)
     (auto simp: find_append dispatch_def split: option.splits)

fun next_leaves :: "bool \<Rightarrow> walk \<Rightarrow> (nat \<Rightarrow> string option) \<Rightarrow> walk_next \<Rightarrow> leaf option" where
  "next_leaves verbs w seg (WReturn r) = r"
| "next_leaves verbs w seg (WContinue n d p) =
     find (leaf_accepts verbs (walk_method w) (walk_verb w))
       (candidates seg (sp_count (walk_path w)) n d @
        concat (map (action_leaves seg (sp_count (walk_path w))) p))"

lemma next_leaves_pop:
  "next_leaves verbs w seg (pop_pending verbs w pending) =
     find (leaf_accepts verbs (walk_method w) (walk_verb w))
       (concat (map (action_leaves seg (sp_count (walk_path w))) pending))"
proof (cases "pop_pending verbs w pending")
  case (WContinue n d p)
  thus ?thesis using pop_pending_leaves(2) [OF WContinue, of seg "sp_count (walk_path w)"] by simp
next
  case (WReturn r)
  thus ?thesis using pop_pending_leaves(1) [OF WReturn, of seg "sp_count (walk_path w)"] by simp
qed

lemma next_leaves_step:
  assumes "reads w seg"
  obtains nx where "walk_step verbs w n depth pending = Inr nx"
    "next_leaves verbs w seg nx =
       find (leaf_accepts verbs (walk_method w) (walk_verb w))
         (candidates seg (sp_count (walk_path w)) n depth @
          concat (map (action_leaves seg (sp_count (walk_path w))) pending))"
proof -
  let ?cnt = "sp_count (walk_path w)" and ?P = "leaf_accepts verbs (walk_method w) (walk_verb w)"
  let ?rest = "concat (map (action_leaves seg ?cnt) pending)"
  have seg: "path_segment (walk_path w) depth = Inr (seg depth)" using assms by (simp add: reads_def)
  have leaves: "next_leaves verbs w seg (walk_leaves verbs w n depth pending None) =
      find ?P ((if ?cnt = depth then rt_exact n else []) @ (if depth \<le> ?cnt then rt_rest n else []) @ ?rest)"
    by (auto simp: walk_leaves_def Let_def dispatch_def find_append next_leaves_pop split: option.splits)
  show ?thesis
  proof (cases "seg depth")
    case None
    thus ?thesis using that walk_step_visit [OF seg] leaves by (simp add: candidates.simps [of _ _ n])
  next
    case (Some bytes)
    hence cnt: "depth < ?cnt" using assms by (auto simp: reads_def)
    have rest: "concat (map (action_leaves seg ?cnt) (push_rest ?cnt depth n pending)) = rt_rest n @ ?rest"
      using cnt by (simp add: push_rest_def)
    have "next_leaves verbs w seg (walk_visit verbs w n depth pending bytes) =
        find ?P (candidates seg ?cnt n depth @ ?rest)"
    proof (cases "matching_children bytes n")
      case Nil
      thus ?thesis using Some leaves by (simp add: walk_visit_def candidates.simps [of _ _ n])
    next
      case (Cons c cs)
      thus ?thesis using Some cnt rest
        by (simp add: walk_visit_def candidates.simps [of _ _ n] comp_def)
    qed
    thus ?thesis using that walk_step_visit [OF seg] Some by simp
  qed
qed

lemma descend_loop_find:
  assumes "reads w seg"
  shows "descend_loop verbs w n depth pending =
    Inr (find (leaf_accepts verbs (walk_method w) (walk_verb w))
      (candidates seg (sp_count (walk_path w)) n depth @
       concat (map (action_leaves seg (sp_count (walk_path w))) pending)))"
  using assms
proof (induction verbs w n depth pending rule: descend_loop.induct)
  case (1 verbs w n depth pending)
  obtain nx where nx: "walk_step verbs w n depth pending = Inr nx"
    "next_leaves verbs w seg nx =
       find (leaf_accepts verbs (walk_method w) (walk_verb w))
         (candidates seg (sp_count (walk_path w)) n depth @
          concat (map (action_leaves seg (sp_count (walk_path w))) pending))"
    using next_leaves_step [OF "1.prems"] .
  show ?case
  proof (cases nx)
    case (WContinue n' d' p)
    thus ?thesis using nx "1.IH" [OF nx(1) WContinue "1.prems"] by (simp add: descend_loop.simps [of verbs w n])
  next
    case (WReturn r)
    thus ?thesis using nx by (simp add: descend_loop.simps [of verbs w n])
  qed
qed

lemma descend_iterative_find:
  "reads w seg \<Longrightarrow> descend_iterative verbs w n depth =
     Inr (find (leaf_accepts verbs (walk_method w) (walk_verb w))
       (candidates seg (sp_count (walk_path w)) n depth))"
  by (simp add: descend_iterative_def descend_loop_find)

end
