(* ===== verification/Router_Order.thy ===== *)
theory Router_Order
  imports Router_Walk
begin

text \<open>
  What the trie stores and in which order a search of it meets the routes. An entry is the atoms of a
  route without a final \<open>**\<close>, whether it has one, and its leaf. The search of the compiled trie
  enumerates the entries that match a path, stably sorted by their rank: edge by edge, literals come
  before affixes, longer affixes before shorter ones, affixes before single wildcards, and all
  edges before the routes that end at a node.
\<close>

section \<open>Stable sorting\<close>

lemma sort_key_append_le:
  assumes "\<And>x y. x \<in> set xs \<Longrightarrow> y \<in> set ys \<Longrightarrow> f x \<le> f y"
  shows "sort_key f (xs @ ys) = sort_key f xs @ sort_key f ys"
  using assms
proof (induction xs)
  case (Cons x xs)
  have "insort_key f x (zs @ sort_key f ys) = insort_key f x zs @ sort_key f ys" for zs
  proof (induction zs)
    case Nil
    thus ?case using Cons.prems [of x] by (cases "sort_key f ys") (simp_all, metis list.set_intros(1) set_sort)
  qed simp
  thus ?case using Cons by simp
qed simp

lemma sort_key_map_mono:
  assumes "\<And>x y. f (g x) \<le> f (g y) \<longleftrightarrow> h x \<le> h y"
  shows "sort_key f (map g xs) = map g (sort_key h xs)"
proof (induction xs)
  case (Cons x xs)
  have "insort_key f (g x) (map g zs) = map g (insort_key h x zs)" for zs
    by (induction zs) (simp_all add: assms)
  thus ?case using Cons by simp
qed simp

lemma sort_key_filter_cong:
  assumes "\<And>k. filter (\<lambda>x. f x = k) xs = filter (\<lambda>x. f x = k) ys"
  shows "sort_key f xs = sort_key f ys"
proof -
  have "mset xs = mset ys"
  proof (rule multiset_eqI)
    fix a
    have eq: "filter (\<lambda>x. x = a) zs = filter (\<lambda>x. x = a) (filter (\<lambda>x. f x = f a) zs)" for zs
      by (induction zs) auto
    have "filter_mset (\<lambda>x. x = a) (mset xs) = filter_mset (\<lambda>x. x = a) (mset ys)"
      unfolding mset_filter [symmetric] eq [of xs] eq [of ys] assms [of "f a"] ..
    hence "count (filter_mset (\<lambda>x. x = a) (mset xs)) a = count (filter_mset (\<lambda>x. x = a) (mset ys)) a" by simp
    thus "count (mset xs) a = count (mset ys) a" by simp
  qed
  moreover have "filter (\<lambda>x. f k = f x) (sort_key f xs) = filter (\<lambda>x. f k = f x) ys" for k
    using assms [of "f k"] sort_key_stable [of f "f k" xs] by (simp add: eq_commute [of "f k"])
  ultimately show ?thesis
    by (intro properties_for_sort_key [symmetric]) simp_all
qed

text \<open>Sorting groups whose members compare as the groups do.\<close>

lemma sort_key_concat_groups:
  assumes "distinct xs" "\<And>x y a b. x \<in> set xs \<Longrightarrow> y \<in> set xs \<Longrightarrow> x \<noteq> y \<Longrightarrow> a \<in> set (g x) \<Longrightarrow> b \<in> set (g y) \<Longrightarrow>
      h x < h y \<and> f a < f b \<or> h y < h x \<and> f b < f a"
  shows "sort_key f (concat (map g xs)) = concat (map (\<lambda>x. sort_key f (g x)) (sort_key h xs))"
proof -
  have one: "sort_key f (concat (map g zs)) = concat (map (\<lambda>x. sort_key f (g x)) zs)"
    if "sorted (map h zs)" "distinct zs" "set zs \<subseteq> set xs" for zs
    using that
  proof (induction zs)
    case (Cons z zs)
    have le: "f a \<le> f b" if ab: "a \<in> set (g z)" "b \<in> set (concat (map g zs))" for a b
    proof -
      obtain y where y: "y \<in> set zs" "b \<in> set (g y)" using ab(2) by auto
      hence "z \<noteq> y" "z \<in> set xs" "y \<in> set xs" "h z \<le> h y" using Cons.prems by auto
      thus ?thesis using assms(2) [OF _ _ _ ab(1) y(2)] by fastforce
    qed
    have "sort_key f (g z @ concat (map g zs)) = sort_key f (g z) @ sort_key f (concat (map g zs))"
      by (rule sort_key_append_le) (rule le)
    thus ?case using Cons by simp
  qed simp
  have "filter (\<lambda>x. f x = k) (concat (map g zs)) =
      concat (map (\<lambda>x. filter (\<lambda>x. f x = k) (g x)) (filter (\<lambda>x. \<exists>a \<in> set (g x). f a = k) zs))" for k zs
    by (induction zs) (auto simp: filter_empty_conv)
  moreover have "filter (\<lambda>x. \<exists>a \<in> set (g x). f a = k) (sort_key h xs) = filter (\<lambda>x. \<exists>a \<in> set (g x). f a = k) xs" for k
  proof (cases "\<exists>x \<in> set xs. \<exists>a \<in> set (g x). f a = k")
    case True
    then obtain x a where x: "x \<in> set xs" "a \<in> set (g x)" "f a = k" by blast
    hence only: "(\<exists>a \<in> set (g y). f a = k) \<longleftrightarrow> y = x" if "y \<in> set xs" for y
      using assms(2) [OF x(1) that _ x(2)] by fastforce
    have single: "filter (\<lambda>y. y = x) zs = [x]" if "distinct zs" "x \<in> set zs" for zs
      using that by (induction zs) (auto simp: filter_empty_conv)
    have "filter (\<lambda>x. \<exists>a \<in> set (g x). f a = k) zs = [x]" if "distinct zs" "set zs = set xs" for zs
      using filter_cong [OF refl, of zs, OF only] single [of zs] that x(1) by simp
    thus ?thesis using assms(1) by simp
  next
    case False
    thus ?thesis by (simp add: filter_empty_conv)
  qed
  ultimately have "sort_key f (concat (map g xs)) = sort_key f (concat (map g (sort_key h xs)))"
    by (intro sort_key_filter_cong) simp
  thus ?thesis using one [of "sort_key h xs"] assms(1) by simp
qed

section \<open>Entries\<close>

type_synonym entry = "atom list \<times> bool \<times> leaf"

abbreviation entry_leaf :: "entry \<Rightarrow> leaf" where
  "entry_leaf e \<equiv> snd (snd e)"

definition under :: "atom \<Rightarrow> entry \<Rightarrow> entry" where
  "under a e = (a # fst e, snd e)"

fun entries :: "node \<Rightarrow> entry list" where
  "entries (Node ls as s ex re) =
     concat (map (\<lambda>kc. map (under (ALiteral (fst kc))) (entries (snd kc))) ls) @
     concat (map (\<lambda>kc. map (under (AAffix (fst (fst kc)) (snd (fst kc)))) (entries (snd kc))) as) @
     (case s of None \<Rightarrow> [] | Some c \<Rightarrow> map (under ASingle) (entries c)) @
     map (\<lambda>lf. ([], False, lf)) ex @ map (\<lambda>lf. ([], True, lf)) re"

fun atom_rank :: "atom \<Rightarrow> nat \<times> int \<times> string \<times> string" where
  "atom_rank (ALiteral k) = (0, 0, [], [])"
| "atom_rank (AAffix p s) = (1, - int (affix_specificity p s), p, s)"
| "atom_rank ASingle = (2, 0, [], [])"
| "atom_rank ARest = (4, 0, [], [])"

definition path_rank :: "atom list \<Rightarrow> bool \<Rightarrow> (nat \<times> int \<times> string \<times> string) list" where
  "path_rank ats has_rest = map atom_rank ats @ [(if has_rest then 4 else 3, 0, [], [])]"

definition entry_rank :: "entry \<Rightarrow> (nat \<times> int \<times> string \<times> string) list" where
  "entry_rank e = path_rank (fst e) (fst (snd e))"

fun atom_matches :: "string \<Rightarrow> atom \<Rightarrow> bool" where
  "atom_matches bytes (ALiteral k) = (k = bytes)"
| "atom_matches bytes (AAffix p s) = affix_matches bytes p s"
| "atom_matches bytes ASingle = (bytes \<noteq> [])"
| "atom_matches bytes ARest = False"

primrec path_matches :: "(nat \<Rightarrow> string option) \<Rightarrow> nat \<Rightarrow> nat \<Rightarrow> atom list \<Rightarrow> bool \<Rightarrow> bool" where
  "path_matches seg cnt d [] has_rest = (if has_rest then d \<le> cnt else cnt = d)"
| "path_matches seg cnt d (a # ats) has_rest =
     (case seg d of None \<Rightarrow> False | Some bytes \<Rightarrow> atom_matches bytes a \<and> path_matches seg cnt (d + 1) ats has_rest)"

definition entry_matches :: "(nat \<Rightarrow> string option) \<Rightarrow> nat \<Rightarrow> nat \<Rightarrow> entry \<Rightarrow> bool" where
  "entry_matches seg cnt d e = path_matches seg cnt d (fst e) (fst (snd e))"

lemma under_simps [simp]:
  "fst (under a e) = a # fst e" "snd (under a e) = snd e"
  "entry_rank (under a e) = atom_rank a # entry_rank e"
  "entry_matches seg cnt d (under a e) \<longleftrightarrow>
     (\<exists>bytes. seg d = Some bytes \<and> atom_matches bytes a \<and> entry_matches seg cnt (d + 1) e)"
  by (simp_all add: under_def entry_rank_def path_rank_def entry_matches_def split: option.splits)

lemma end_simps [simp]:
  "entry_rank ([], has_rest, lf) = [(if has_rest then 4 else 3, 0, [], [])]"
  "entry_matches seg cnt d ([], has_rest, lf) \<longleftrightarrow> (if has_rest then d \<le> cnt else cnt = d)"
  by (simp_all add: entry_rank_def path_rank_def entry_matches_def)

text \<open>Entries at the same node compare by the kind of their first step.\<close>

definition step_class :: "entry \<Rightarrow> nat" where
  "step_class e = fst (hd (entry_rank e))"

lemma step_class_simps [simp]:
  "step_class (under a e) = fst (atom_rank a)" "step_class ([], has_rest, lf) = (if has_rest then 4 else 3)"
  by (simp_all add: step_class_def)

lemma entry_rank_not_Nil [simp]: "entry_rank e \<noteq> []"
  by (simp add: entry_rank_def path_rank_def)

lemma step_class_less: "step_class x < step_class y \<Longrightarrow> entry_rank x \<le> entry_rank y"
  by (cases "entry_rank x"; cases "entry_rank y") (auto simp: step_class_def less_prod_def')

lemma sort_under: "sort_key entry_rank (map (under a) es) = map (under a) (sort_key entry_rank es)"
  by (rule sort_key_map_mono) simp

lemma sort_ends: "sort_key entry_rank (map (\<lambda>lf. ([], has_rest, lf)) lfs) = map (\<lambda>lf. ([], has_rest, lf)) lfs"
  by (rule sort_key_id_if_sorted) (induction lfs, simp_all)

section \<open>The search meets the entries by rank\<close>

lemma find_literal:
  "distinct (map fst xs) \<Longrightarrow>
     find (\<lambda>(key, _). literal_matches bytes key) (map (\<lambda>kc. (fst kc, f (snd kc))) xs) =
       map_option (\<lambda>c. (bytes, f c)) (map_of xs bytes)"
  by (induction xs) (auto simp: literal_matches_def)

lemma distinct_literals_by_weight: "wf_node n \<Longrightarrow> distinct (map fst (literals_by_weight n))"
  by (drule wf_node_distinct(1)) (simp add: literals_by_weight_def distinct_map)

lemma map_of_literals_by_weight:
  assumes "wf_node n"
  shows "map_of (literals_by_weight n) = map_of (node_literals n)"
  using map_of_inject_set [OF distinct_literals_by_weight [OF assms] wf_node_distinct(1) [OF assms]]
  by (simp add: literals_by_weight_def)

definition trie_children :: "string \<Rightarrow> node \<Rightarrow> node list" where
  "trie_children bytes n =
     (case map_of (node_literals n) bytes of None \<Rightarrow> [] | Some c \<Rightarrow> [c]) @
     map snd (filter (\<lambda>kc. affix_matches bytes (fst (fst kc)) (snd (fst kc))) (affix_edges_in_match_order n)) @
     (case (if bytes \<noteq> [] then node_single n else None) of None \<Rightarrow> [] | Some c \<Rightarrow> [c])"

lemma matching_children_rt_of:
  assumes "wf_node n"
  shows "matching_children bytes (rt_of n) = map rt_of (trie_children bytes n)"
proof -
  have "find (\<lambda>(key, _). literal_matches bytes key) (rt_literals (rt_of n)) =
      map_option (\<lambda>c. (bytes, rt_of c)) (map_of (node_literals n) bytes)"
    using find_literal [of "literals_by_weight n" bytes rt_of] distinct_literals_by_weight [OF assms] map_of_literals_by_weight [OF assms]
    by (simp add: rt_of.simps [of n])
  moreover have "map (\<lambda>(p, s, c). c) (filter (\<lambda>(p, s, c). affix_matches bytes p s) (rt_affix (rt_of n))) =
      map rt_of (map snd (filter (\<lambda>kc. affix_matches bytes (fst (fst kc)) (snd (fst kc))) (affix_edges_in_match_order n)))"
    by (simp add: rt_of.simps [of n] filter_map comp_def case_prod_unfold)
  moreover have "rt_single (rt_of n) = map_option rt_of (node_single n)" by (simp add: rt_of.simps [of n])
  ultimately show ?thesis
    by (auto simp: matching_children_def trie_children_def split: option.splits)
qed

lemma filter_literal_entries:
  assumes "distinct (map fst ls)"
  shows "filter (entry_matches seg cnt d) (concat (map (\<lambda>kc. map (under (ALiteral (fst kc))) (entries (snd kc))) ls)) =
    (case seg d of
       None \<Rightarrow> []
     | Some bytes \<Rightarrow> (case map_of ls bytes of
           None \<Rightarrow> []
         | Some c \<Rightarrow> map (under (ALiteral bytes)) (filter (entry_matches seg cnt (d + 1)) (entries c))))"
  using assms
proof (induction ls)
  case (Cons kc ls)
  have "map_of ls (fst kc) = None" using Cons.prems by (simp add: map_of_eq_None_iff)
  thus ?case using Cons by (auto simp: filter_map comp_def split: option.splits)
qed (simp split: option.splits)

lemma filter_affix_entries:
  "filter (entry_matches seg cnt d)
     (concat (map (\<lambda>kc. map (under (AAffix (fst (fst kc)) (snd (fst kc)))) (entries (snd kc))) as)) =
    (case seg d of
       None \<Rightarrow> []
     | Some bytes \<Rightarrow>
         concat (map (\<lambda>kc. map (under (AAffix (fst (fst kc)) (snd (fst kc))))
             (filter (entry_matches seg cnt (d + 1)) (entries (snd kc))))
           (filter (\<lambda>kc. affix_matches bytes (fst (fst kc)) (snd (fst kc))) as)))"
  by (induction as) (auto simp: filter_map comp_def split: option.splits)

lemma sort_affix_entries:
  assumes "distinct (map fst as)"
  shows "sort_key entry_rank (concat (map (\<lambda>kc. map (under (AAffix (fst (fst kc)) (snd (fst kc)))) (E kc)) as)) =
    concat (map (\<lambda>kc. map (under (AAffix (fst (fst kc)) (snd (fst kc)))) (sort_key entry_rank (E kc)))
      (sort_key (\<lambda>((p, s), _). (- int (affix_specificity p s), p, s)) as))"
proof -
  have "sort_key entry_rank (concat (map (\<lambda>kc. map (under (AAffix (fst (fst kc)) (snd (fst kc)))) (E kc)) as)) =
    concat (map (\<lambda>kc. sort_key entry_rank (map (under (AAffix (fst (fst kc)) (snd (fst kc)))) (E kc)))
      (sort_key (\<lambda>((p, s), _). (- int (affix_specificity p s), p, s)) as))"
  proof (rule sort_key_concat_groups)
    show "distinct as" using assms by (simp add: distinct_map)
    fix x y a b
    assume xy: "x \<in> set as" "y \<in> set as" "x \<noteq> y"
      "a \<in> set (map (under (AAffix (fst (fst x)) (snd (fst x)))) (E x))"
      "b \<in> set (map (under (AAffix (fst (fst y)) (snd (fst y)))) (E y))"
    have "fst x \<noteq> fst y" using xy(1-3) assms by (metis eq_key_imp_eq_value prod.collapse)
    let ?h = "\<lambda>((p, s), _). (- int (affix_specificity p s), p, s)"
    have "?h x \<noteq> ?h y" using \<open>fst x \<noteq> fst y\<close> by (auto simp: case_prod_unfold prod_eq_iff)
    hence "?h x < ?h y \<or> ?h y < ?h x" by (rule neqE) blast+
    moreover obtain ea eb where "a = under (AAffix (fst (fst x)) (snd (fst x))) ea"
        "b = under (AAffix (fst (fst y)) (snd (fst y))) eb" using xy(4,5) by auto
    hence "?h x < ?h y \<Longrightarrow> entry_rank a < entry_rank b" "?h y < ?h x \<Longrightarrow> entry_rank b < entry_rank a"
      by (simp_all add: case_prod_unfold)
    ultimately show "?h x < ?h y \<and> entry_rank a < entry_rank b \<or> ?h y < ?h x \<and> entry_rank b < entry_rank a"
      by blast
  qed
  thus ?thesis by (simp add: sort_under)
qed

lemma sort_classes:
  assumes "\<And>x. x \<in> set xs \<Longrightarrow> step_class x = i" "\<And>y. y \<in> set ys \<Longrightarrow> i < step_class y"
  shows "sort_key entry_rank (xs @ ys) = sort_key entry_rank xs @ sort_key entry_rank ys"
  using assms by (intro sort_key_append_le step_class_less) simp

lemma sort_five_classes:
  assumes "\<And>x. x \<in> set L \<Longrightarrow> step_class x = 0" "\<And>x. x \<in> set A \<Longrightarrow> step_class x = 1"
    "\<And>x. x \<in> set S \<Longrightarrow> step_class x = 2" "\<And>x. x \<in> set E \<Longrightarrow> step_class x = 3"
    "\<And>x. x \<in> set R \<Longrightarrow> step_class x = 4"
  shows "sort_key entry_rank (L @ A @ S @ E @ R) =
    sort_key entry_rank L @ sort_key entry_rank A @ sort_key entry_rank S @ sort_key entry_rank E @ sort_key entry_rank R"
proof -
  have E: "2 < step_class x" if "x \<in> set (E @ R)" for x
    using that assms(4,5) [of x] by (cases "x \<in> set E") simp_all
  have S: "1 < step_class x" if "x \<in> set (S @ E @ R)" for x
    using that assms(3) [of x] E [of x] by (cases "x \<in> set S") simp_all
  have A: "0 < step_class x" if "x \<in> set (A @ S @ E @ R)" for x
    using that assms(2) [of x] S [of x] by (cases "x \<in> set A") simp_all
  have "sort_key entry_rank (E @ R) = sort_key entry_rank E @ sort_key entry_rank R"
    by (rule sort_classes [OF assms(4)]) (simp_all add: assms(5))
  moreover have "sort_key entry_rank (S @ E @ R) = sort_key entry_rank S @ sort_key entry_rank (E @ R)"
    by (rule sort_classes [OF assms(3) E])
  moreover have "sort_key entry_rank (A @ S @ E @ R) = sort_key entry_rank A @ sort_key entry_rank (S @ E @ R)"
    by (rule sort_classes [OF assms(2) S])
  moreover have "sort_key entry_rank (L @ A @ S @ E @ R) = sort_key entry_rank L @ sort_key entry_rank (A @ S @ E @ R)"
    by (rule sort_classes [OF assms(1) A])
  ultimately show ?thesis by simp
qed

text \<open>The leaves of the compiled trie that match, in the order of the search.\<close>

lemma wf_node_child:
  "wf_node n \<Longrightarrow> kc \<in> set (node_literals n) \<Longrightarrow> wf_node (snd kc)"
  "wf_node n \<Longrightarrow> kc' \<in> set (node_affix n) \<Longrightarrow> wf_node (snd kc')"
  "wf_node n \<Longrightarrow> node_single n = Some c \<Longrightarrow> wf_node c"
  by (cases n; simp)+

lemma trie_children_child:
  assumes "wf_node n" "c \<in> set (trie_children bytes n)"
  shows "wf_node c \<and> nsize c < nsize n"
proof -
  consider "map_of (node_literals n) bytes = Some c" | kc where "kc \<in> set (node_affix n)" "c = snd kc"
    | "node_single n = Some c"
    using assms(2) by (auto simp: trie_children_def affix_edges_in_match_order_def split: option.splits if_splits)
  thus ?thesis
  proof cases
    case 1
    hence "(bytes, c) \<in> set (node_literals n)" by (rule map_of_SomeD)
    thus ?thesis using wf_node_child(1) [OF assms(1)] nsize_child(1) by fastforce
  next
    case (2 kc)
    thus ?thesis using wf_node_child(2) [OF assms(1)] nsize_child(2) by simp
  next
    case 3
    thus ?thesis using wf_node_child(3) [OF assms(1)] nsize_child(3) by simp
  qed
qed

abbreviation ranked :: "(nat \<Rightarrow> string option) \<Rightarrow> nat \<Rightarrow> nat \<Rightarrow> entry list \<Rightarrow> leaf list" where
  "ranked seg cnt d es \<equiv> map entry_leaf (sort_key entry_rank (filter (entry_matches seg cnt d) es))"

lemma ranked_literals:
  assumes "distinct (map fst ls)" "seg d = Some bytes"
  shows "ranked seg cnt d (concat (map (\<lambda>kc. map (under (ALiteral (fst kc))) (entries (snd kc))) ls)) =
    concat (map (\<lambda>c. ranked seg cnt (d + 1) (entries c)) (case map_of ls bytes of None \<Rightarrow> [] | Some c \<Rightarrow> [c]))"
  using assms by (cases "map_of ls bytes") (simp_all add: filter_literal_entries sort_under)

lemma ranked_affixes:
  assumes "distinct (map fst as)" "seg d = Some bytes"
  shows "ranked seg cnt d (concat (map (\<lambda>kc. map (under (AAffix (fst (fst kc)) (snd (fst kc)))) (entries (snd kc))) as)) =
    concat (map (\<lambda>c. ranked seg cnt (d + 1) (entries c))
      (map snd (filter (\<lambda>kc. affix_matches bytes (fst (fst kc)) (snd (fst kc)))
         (sort_key (\<lambda>((p, s), _). (- int (affix_specificity p s), p, s)) as))))"
proof -
  let ?as = "filter (\<lambda>kc. affix_matches bytes (fst (fst kc)) (snd (fst kc))) as"
  have "distinct (map fst ?as)" using assms(1) by (simp add: distinct_map_filter)
  thus ?thesis using assms(2)
    by (simp add: filter_affix_entries sort_affix_entries filter_sort map_concat comp_def)
qed

lemma ranked_single:
  assumes "seg d = Some bytes"
  shows "ranked seg cnt d (case s of None \<Rightarrow> [] | Some c \<Rightarrow> map (under ASingle) (entries c)) =
    concat (map (\<lambda>c. ranked seg cnt (d + 1) (entries c)) (case (if bytes \<noteq> [] then s else None) of None \<Rightarrow> [] | Some c \<Rightarrow> [c]))"
  using assms by (cases s) (simp_all add: filter_map comp_def sort_under)

lemma ranked_ends:
  "ranked seg cnt d (map (\<lambda>lf. ([], has_rest, lf)) lfs) =
     (if has_rest \<and> d \<le> cnt \<or> \<not> has_rest \<and> cnt = d then lfs else [])"
  by (simp add: filter_map comp_def sort_ends)

lemma ranked_node:
  assumes "wf_node n"
  shows "ranked seg cnt d (entries n) =
    (case seg d of
       None \<Rightarrow> []
     | Some bytes \<Rightarrow> concat (map (\<lambda>c. ranked seg cnt (d + 1) (entries c)) (trie_children bytes n))) @
    (if cnt = d then node_exact n else []) @ (if d \<le> cnt then node_rest n else [])"
proof (cases n)
  case (Node ls as s ex re)
  let ?L = "concat (map (\<lambda>kc. map (under (ALiteral (fst kc))) (entries (snd kc))) ls)"
  let ?A = "concat (map (\<lambda>kc. map (under (AAffix (fst (fst kc)) (snd (fst kc)))) (entries (snd kc))) as)"
  let ?S = "case s of None \<Rightarrow> [] | Some c \<Rightarrow> map (under ASingle) (entries c)"
  let ?EX = "map (\<lambda>lf. ([], False, lf)) ex" and ?RE = "map (\<lambda>lf. ([], True, lf)) re"
  let ?m = "filter (entry_matches seg cnt d)"
  have "sort_key entry_rank (?m (entries n)) = sort_key entry_rank (?m ?L) @ sort_key entry_rank (?m ?A) @
      sort_key entry_rank (?m ?S) @ sort_key entry_rank (?m ?EX) @ sort_key entry_rank (?m ?RE)"
    unfolding Node entries.simps filter_append by (rule sort_five_classes) (auto split: option.splits)
  hence all: "ranked seg cnt d (entries n) = ranked seg cnt d ?L @ ranked seg cnt d ?A @ ranked seg cnt d ?S @
      (if cnt = d then ex else []) @ (if d \<le> cnt then re else [])"
    unfolding ranked_ends [of seg cnt d False ex, simplified, symmetric]
      ranked_ends [of seg cnt d True re, simplified, symmetric] by simp
  have keys: "distinct (map fst ls)" "distinct (map fst as)"
    using wf_node_distinct [OF assms] Node by simp_all
  show ?thesis
  proof (cases "seg d")
    case None
    hence "?m ?L = []" "?m ?A = []" "?m ?S = []"
      using keys by (simp_all add: filter_literal_entries filter_affix_entries filter_map comp_def split: option.splits)
    thus ?thesis using all None Node by simp
  next
    case (Some bytes)
    show ?thesis
      unfolding all ranked_literals [of ls seg d, OF keys(1) Some] ranked_affixes [of as seg d, OF keys(2) Some]
        ranked_single [of seg d, OF Some]
      using Some Node by (simp add: trie_children_def affix_edges_in_match_order_def)
  qed
qed

lemma candidates_by_rank: "wf_node n \<Longrightarrow> candidates seg cnt (rt_of n) d = ranked seg cnt d (entries n)"
proof (induction "nsize n" arbitrary: n d rule: less_induct)
  case less
  have same: "map (\<lambda>c. candidates seg cnt (rt_of c) (d + 1)) (trie_children bytes n) =
      map (\<lambda>c. ranked seg cnt (d + 1) (entries c)) (trie_children bytes n)" for bytes
    using less.hyps trie_children_child [OF less.prems] by (intro map_cong) simp_all
  have ends: "rt_exact (rt_of n) = node_exact n" "rt_rest (rt_of n) = node_rest n"
    by (simp_all add: rt_of.simps [of n])
  have "candidates seg cnt (rt_of n) d =
    (case seg d of
       None \<Rightarrow> []
     | Some bytes \<Rightarrow> concat (map (\<lambda>c. ranked seg cnt (d + 1) (entries c)) (trie_children bytes n))) @
    (if cnt = d then node_exact n else []) @ (if d \<le> cnt then node_rest n else [])"
    unfolding candidates.simps [of _ _ "rt_of n"] matching_children_rt_of [OF less.prems] map_map comp_def same ends ..
  thus ?case using ranked_node [OF less.prems] by simp
qed

section \<open>Entries are kept in the order of insertion\<close>

definition same_order :: "entry list \<Rightarrow> entry list \<Rightarrow> bool" where
  "same_order es es' \<longleftrightarrow>
     (\<forall>ats h. filter (\<lambda>e. fst e = ats \<and> fst (snd e) = h) es = filter (\<lambda>e. fst e = ats \<and> fst (snd e) = h) es')"

lemma atom_matches_rank:
  "atom_matches bytes a \<Longrightarrow> atom_matches bytes b \<Longrightarrow> atom_rank a = atom_rank b \<Longrightarrow> a = b"
  by (cases a; cases b) auto

lemma path_rank_simps:
  "path_rank [] h = [(if h then 4 else 3, 0, [], [])]"
  "path_rank (a # ats) h = atom_rank a # path_rank ats h"
  by (simp_all add: path_rank_def)

lemma path_matches_rank:
  "path_matches seg cnt d ats h \<Longrightarrow> path_matches seg cnt d ats' h' \<Longrightarrow> path_rank ats h = path_rank ats' h' \<Longrightarrow>
     ats = ats' \<and> h = h'"
proof (induction ats arbitrary: d ats')
  case Nil
  thus ?case by (cases ats'; cases "hd ats'") (auto simp: path_rank_simps split: if_splits option.splits)
next
  case (Cons a ats)
  obtain bytes where b: "seg d = Some bytes" "atom_matches bytes a" "path_matches seg cnt (d + 1) ats h"
    using Cons.prems(1) by (auto split: option.splits)
  show ?case
  proof (cases ats')
    case Nil
    thus ?thesis using Cons.prems b(2) by (cases a) (auto simp: path_rank_simps split: if_splits)
  next
    case (Cons a' as')
    hence "a = a'" using Cons.prems b atom_matches_rank by (auto simp: path_rank_simps)
    thus ?thesis using Cons.IH [OF b(3), of as'] Cons.prems Cons b(1) by (auto simp: path_rank_simps)
  qed
qed

lemma sort_same_order:
  assumes "same_order es es'"
  shows "sort_key entry_rank (filter (entry_matches seg cnt d) es) =
    sort_key entry_rank (filter (entry_matches seg cnt d) es')"
proof (rule sort_key_filter_cong)
  fix k
  let ?P = "\<lambda>e. entry_rank e = k \<and> entry_matches seg cnt d e"
  show "filter (\<lambda>e. entry_rank e = k) (filter (entry_matches seg cnt d) es) =
      filter (\<lambda>e. entry_rank e = k) (filter (entry_matches seg cnt d) es')"
  proof (cases "\<exists>e. ?P e")
    case True
    then obtain e where e: "?P e" ..
    have "?P x \<longleftrightarrow> fst x = fst e \<and> fst (snd x) = fst (snd e)" for x
      using e path_matches_rank [of seg cnt d "fst x" "fst (snd x)" "fst e" "fst (snd e)"]
      by (auto simp: entry_rank_def entry_matches_def)
    thus ?thesis using assms by (simp add: same_order_def conj_commute)
  next
    case False
    hence "filter (\<lambda>e. entry_rank e = k) (filter (entry_matches seg cnt d) xs) = []" for xs
      by (auto simp: filter_empty_conv)
    thus ?thesis by simp
  qed
qed

primrec leaves_at :: "atom list \<Rightarrow> bool \<Rightarrow> node \<Rightarrow> leaf list" where
  "leaves_at [] h n = (if h then node_rest n else node_exact n)"
| "leaves_at (a # ats) h n =
     (case a of
        ALiteral k \<Rightarrow> (case map_of (node_literals n) k of None \<Rightarrow> [] | Some c \<Rightarrow> leaves_at ats h c)
      | AAffix p s \<Rightarrow> (case map_of (node_affix n) (p, s) of None \<Rightarrow> [] | Some c \<Rightarrow> leaves_at ats h c)
      | ASingle \<Rightarrow> (case node_single n of None \<Rightarrow> [] | Some c \<Rightarrow> leaves_at ats h c)
      | ARest \<Rightarrow> [])"

lemma filter_under_path:
  "filter (\<lambda>e. fst e = a # ats \<and> fst (snd e) = h) (map (under b) es) =
     (if b = a then map (under a) (filter (\<lambda>e. fst e = ats \<and> fst (snd e) = h) es) else [])"
  "filter (\<lambda>e. fst e = [] \<and> fst (snd e) = h) (map (under b) es) = []"
  by (cases "b = a") (simp_all add: filter_map comp_def)

lemma filter_ends_path:
  "filter (\<lambda>e. fst e = a # ats \<and> fst (snd e) = h) (map (\<lambda>lf. ([], h', lf)) lfs) = []"
  "filter (\<lambda>e. fst e = [] \<and> fst (snd e) = h) (map (\<lambda>lf. ([], h', lf)) lfs) =
     (if h = h' then map (\<lambda>lf. ([], h, lf)) lfs else [])"
  by (induction lfs) simp_all

lemma filter_edges_path:
  "filter (\<lambda>e. fst e = a # ats \<and> fst (snd e) = h)
      (concat (map (\<lambda>kc. map (under (f (fst kc))) (entries (snd kc))) kcs)) =
    concat (map (\<lambda>kc. if f (fst kc) = a
      then map (under a) (filter (\<lambda>e. fst e = ats \<and> fst (snd e) = h) (entries (snd kc))) else []) kcs)"
  "filter (\<lambda>e. fst e = [] \<and> fst (snd e) = h)
      (concat (map (\<lambda>kc. map (under (f (fst kc))) (entries (snd kc))) kcs)) = []"
  by (induction kcs) (simp_all add: filter_under_path)

lemma concat_one_edge:
  "distinct (map fst kcs) \<Longrightarrow>
     concat (map (\<lambda>kc. if fst kc = k then g (snd kc) else []) kcs) =
       (case map_of kcs k of None \<Rightarrow> [] | Some c \<Rightarrow> g c)"
proof (induction kcs)
  case (Cons kc kcs)
  have "map_of kcs (fst kc) = None" using Cons.prems by (simp add: map_of_eq_None_iff)
  thus ?case using Cons by simp
qed simp

lemma concat_nils [simp]: "concat (map (\<lambda>x. []) xs) = []"
  by (induction xs) simp_all

lemma entries_at:
  "wf_node n \<Longrightarrow> filter (\<lambda>e. fst e = ats \<and> fst (snd e) = h) (entries n) =
     map (\<lambda>lf. (ats, h, lf)) (leaves_at ats h n)"
proof (induction ats arbitrary: n)
  case Nil
  obtain ls as s ex re where "n = Node ls as s ex re" by (cases n)
  thus ?case
    by (cases s) (simp_all add: filter_edges_path [where f = ALiteral]
        filter_edges_path [where f = "\<lambda>ps. AAffix (fst ps) (snd ps)"] filter_under_path filter_ends_path)
next
  case (Cons a ats)
  obtain ls as s ex re where n: "n = Node ls as s ex re" by (cases n)
  have keys: "distinct (map fst ls)" "distinct (map fst as)"
    using wf_node_distinct [OF Cons.prems] n by simp_all
  define E where "E c = map (under a) (filter (\<lambda>e. fst e = ats \<and> fst (snd e) = h) (entries c))" for c
  have sub: "E c = map (\<lambda>lf. (a # ats, h, lf)) (leaves_at ats h c)" if "wf_node c" for c
    using Cons.IH [OF that] by (simp add: E_def under_def)
  have parts: "filter (\<lambda>e. fst e = a # ats \<and> fst (snd e) = h) (entries n) =
      concat (map (\<lambda>kc. if ALiteral (fst kc) = a then E (snd kc) else []) ls) @
      concat (map (\<lambda>kc. if AAffix (fst (fst kc)) (snd (fst kc)) = a then E (snd kc) else []) as) @
      (case s of None \<Rightarrow> [] | Some c \<Rightarrow> if ASingle = a then E c else [])"
    unfolding E_def
    by (cases s) (simp_all add: n filter_edges_path [where f = ALiteral]
        filter_edges_path [where f = "\<lambda>ps. AAffix (fst ps) (snd ps)"] filter_under_path filter_ends_path)
  show ?case
  proof (cases a)
    case (ALiteral k)
    hence "filter (\<lambda>e. fst e = a # ats \<and> fst (snd e) = h) (entries n) =
        (case map_of ls k of None \<Rightarrow> [] | Some c \<Rightarrow> E c)"
      unfolding parts by (cases s) (simp_all add: concat_one_edge [OF keys(1)])
    thus ?thesis using sub wf_node_child(1) [OF Cons.prems] map_of_SomeD [of ls k] ALiteral n
      by (cases "map_of ls k") fastforce+
  next
    case ASingle
    hence "filter (\<lambda>e. fst e = a # ats \<and> fst (snd e) = h) (entries n) =
        (case s of None \<Rightarrow> [] | Some c \<Rightarrow> E c)"
      unfolding parts by (cases s) simp_all
    thus ?thesis using sub wf_node_child(3) [OF Cons.prems] ASingle n by (cases s) simp_all
  next
    case ARest
    thus ?thesis unfolding parts by (cases s) simp_all
  next
    case (AAffix p q)
    hence "filter (\<lambda>e. fst e = a # ats \<and> fst (snd e) = h) (entries n) =
        (case map_of as (p, q) of None \<Rightarrow> [] | Some c \<Rightarrow> E c)"
      unfolding parts concat_one_edge [OF keys(2), symmetric]
      by (cases s) (simp_all add: prod_eq_iff)
    thus ?thesis using sub wf_node_child(2) [OF Cons.prems] map_of_SomeD [of as "(p, q)"] AAffix n
      by (cases "map_of as (p, q)") fastforce+
  qed
qed

end
