(* ===== verification/Router_Build.thy ===== *)
theory Router_Build
  imports Router_Order
begin

text \<open>
  Building the trie: what an insertion adds, and what \<open>build_trie\<close> stores for a list of routes made
  from parsed templates. The atoms and the capture spans of a template are given by recursion on its
  segments, and the trie holds one entry per route, in the order of registration.
\<close>

section \<open>Insertion\<close>

lemma entry_update_keys: "set (map fst (entry_update k f d kvs)) = insert k (set (map fst kvs))"
  by (induction k f d kvs rule: entry_update.induct) auto

lemma entry_update_sorted:
  "sorted_wrt (<) (map fst kvs) \<Longrightarrow> sorted_wrt (<) (map fst (entry_update k f d kvs))"
proof (induction k f d kvs rule: entry_update.induct)
  case (2 k f d k' v kvs)
  thus ?case using entry_update_keys [of k f d kvs] by auto
qed simp

lemma entry_update_map_of:
  "sorted_wrt (<) (map fst kvs) \<Longrightarrow>
     map_of (entry_update k f d kvs) x =
       (if x = k then Some (f (case map_of kvs k of None \<Rightarrow> d | Some v \<Rightarrow> v)) else map_of kvs x)"
proof (induction k f d kvs rule: entry_update.induct)
  case (2 k f d k' v kvs)
  have "map_of kvs k = None" if "k < k'"
    using 2(2) that by (auto simp: map_of_eq_None_iff)
  thus ?case using 2 by auto
qed simp

lemma entry_update_values:
  "kv \<in> set (entry_update k f d kvs) \<Longrightarrow> kv \<in> set kvs \<or> snd kv = f d \<or> (\<exists>kv' \<in> set kvs. snd kv = f (snd kv'))"
  by (induction k f d kvs rule: entry_update.induct) (auto split: if_splits)

lemma wf_node_default [simp]: "wf_node node_default"
  by (simp add: node_default_def)

lemma insert_at_wf: "wf_node n \<Longrightarrow> wf_node (insert_at ats has_rest lf n)"
proof (induction ats arbitrary: n)
  case (Cons a ats)
  have sub: "\<forall>kv \<in> set (entry_update k (insert_at ats has_rest lf) node_default kvs). wf_node (snd kv)"
    if "\<forall>kv \<in> set kvs. wf_node (snd kv)" for k :: "'k::linorder" and kvs
    using that entry_update_values [of _ k "insert_at ats has_rest lf" node_default kvs] Cons.IH by fastforce
  obtain ls as s ex re where n: "n = Node ls as s ex re" by (cases n)
  show ?case
  proof (cases a)
    case ASingle
    thus ?thesis using n Cons by (cases s) simp_all
  next
    case ARest
    thus ?thesis using n Cons by simp
  qed (use n Cons.prems sub [of ls] sub [of as] in \<open>simp_all add: entry_update_sorted\<close>)
next
  case Nil
  thus ?case by (cases n) simp
qed

text \<open>A final \<open>**\<close> is not an edge.\<close>

definition edges_of :: "atom list \<Rightarrow> atom list" where
  "edges_of ats = filter (\<lambda>a. a \<noteq> ARest) ats"

fun child :: "atom \<Rightarrow> node \<Rightarrow> node option" where
  "child (ALiteral k) n = map_of (node_literals n) k"
| "child (AAffix p s) n = map_of (node_affix n) (p, s)"
| "child ASingle n = node_single n"
| "child ARest n = None"

lemma leaves_at_child:
  "leaves_at (a # ats) h n = (case child a n of None \<Rightarrow> [] | Some c \<Rightarrow> leaves_at ats h c)"
  by (cases a) simp_all

lemma child_insert:
  "wf_node n \<Longrightarrow> a \<noteq> ARest \<Longrightarrow>
     child b (insert_at (a # ats) h lf n) =
       (if a = b then Some (insert_at ats h lf (case child a n of None \<Rightarrow> node_default | Some c \<Rightarrow> c))
        else child b n)"
  by (cases n; cases a; cases b) (simp_all add: entry_update_map_of)

lemma child_wf: "wf_node n \<Longrightarrow> child a n = Some c \<Longrightarrow> wf_node c"
  by (cases a) (auto dest!: map_of_SomeD dest: wf_node_child)

lemma leaves_at_default [simp]: "leaves_at ats h node_default = []"
  by (cases ats) (simp_all add: node_default_def split: atom.splits)

lemma leaves_at_insert:
  "wf_node n \<Longrightarrow> ARest \<notin> set ats \<Longrightarrow>
     leaves_at ats h (insert_at ats' h' lf n) =
       leaves_at ats h n @ (if edges_of ats' = ats \<and> h' = h then [lf] else [])"
proof (induction ats' arbitrary: ats n)
  case Nil
  thus ?case by (cases ats; cases n) (auto simp: edges_of_def split: atom.splits)
next
  case (Cons a ats')
  obtain ls as s ex re where n: "n = Node ls as s ex re" by (cases n)
  show ?case
  proof (cases "a = ARest")
    case True
    thus ?thesis using Cons n by (simp add: edges_of_def)
  next
    case False
    hence edges: "edges_of (a # ats') = a # edges_of ats'" by (simp add: edges_of_def)
    show ?thesis
    proof (cases ats)
      case Nil
      thus ?thesis using False n edges by (cases a) simp_all
    next
      case (Cons b bs)
      have "wf_node (case child a n of None \<Rightarrow> node_default | Some c \<Rightarrow> c)"
        using child_wf [OF Cons.prems(1)] by (cases "child a n") simp_all
      hence "leaves_at bs h (insert_at ats' h' lf (case child a n of None \<Rightarrow> node_default | Some c \<Rightarrow> c)) =
          leaves_at bs h (case child a n of None \<Rightarrow> node_default | Some c \<Rightarrow> c) @
          (if edges_of ats' = bs \<and> h' = h then [lf] else [])"
        using Cons.IH Cons.prems(2) Cons by simp
      thus ?thesis
        using child_insert [OF Cons.prems(1) False, of b ats' h' lf] edges
        unfolding Cons leaves_at_child
        by (cases "a = b"; cases "child a n") (simp_all del: insert_at.simps split: option.splits)
    qed
  qed
qed

lemma entries_no_rest: "e \<in> set (entries n) \<Longrightarrow> ARest \<notin> set (fst e)"
proof (induction n arbitrary: e rule: entries.induct)
  case (1 ls as s ex re)
  consider kc x where "kc \<in> set ls" "x \<in> set (entries (snd kc))" "e = under (ALiteral (fst kc)) x"
    | kc x where "kc \<in> set as" "x \<in> set (entries (snd kc))" "e = under (AAffix (fst (fst kc)) (snd (fst kc))) x"
    | c x where "s = Some c" "x \<in> set (entries c)" "e = under ASingle x" | "fst e = []"
    using "1.prems" by (auto split: option.splits)
  thus ?case by cases (use "1.IH" in auto)
qed

lemma same_order_insert:
  assumes "wf_node n" "same_order (entries n) es"
  shows "same_order (entries (insert_at ats h lf n)) (es @ [(edges_of ats, h, lf)])"
  unfolding same_order_def
proof (intro allI)
  fix ats' h'
  have same: "filter (\<lambda>e. fst e = ats \<and> fst (snd e) = h) (entries n) =
      filter (\<lambda>e. fst e = ats \<and> fst (snd e) = h) es" for ats h
    using assms(2) by (simp add: same_order_def)
  show "filter (\<lambda>e. fst e = ats' \<and> fst (snd e) = h') (entries (insert_at ats h lf n)) =
      filter (\<lambda>e. fst e = ats' \<and> fst (snd e) = h') (es @ [(edges_of ats, h, lf)])"
  proof (cases "ARest \<in> set ats'")
    case True
    have "filter (\<lambda>e. fst e = ats' \<and> fst (snd e) = h') (entries m) = []" for m
      using True entries_no_rest [of _ m] by (auto simp: filter_empty_conv)
    moreover have "edges_of ats \<noteq> ats'" using True by (auto simp: edges_of_def)
    ultimately show ?thesis using same [of ats' h'] by simp
  next
    case False
    thus ?thesis using same [of ats' h', symmetric] entries_at [OF insert_at_wf [OF assms(1)], of ats' h']
        entries_at [OF assms(1), of ats' h'] leaves_at_insert [OF assms(1) False]
      by simp
  qed
qed

section \<open>The atoms and captures of a template\<close>

lemma segment_iter_collect_end:
  "segment_iter_collect \<lparr>iter_rest = None, iter_remaining = m\<rparr> = Inr []"
  by (simp add: segment_iter_collect.simps segment_iter_next_def)

lemma segment_iter_collect_eval:
  "is_str s \<Longrightarrow> n = length (split_on CHR ''/'' s) \<Longrightarrow>
     segment_iter_collect \<lparr>iter_rest = Some s, iter_remaining = n\<rparr> =
       Inr (map classify_segment (split_on CHR ''/'' s))"
proof (induction "length s" arbitrary: s n rule: less_induct)
  case less
  have n: "n \<noteq> 0" using less.prems(2) by simp
  show ?case
  proof (cases "CHR ''/'' \<in> set s")
    case True
    then obtain p q where s: "s = p @ CHR ''/'' # q" "CHR ''/'' \<notin> set p" by (meson split_list_first)
    hence split: "split_on CHR ''/'' s = p # split_on CHR ''/'' q" by (simp add: split_on_append)
    moreover have "segment_iter_collect \<lparr>iter_rest = Some q, iter_remaining = n - 1\<rparr> =
        Inr (map classify_segment (split_on CHR ''/'' q))"
      using less.hyps [of q "n - 1"] less.prems s split is_str_suffix by simp
    ultimately show ?thesis
      using n less.prems(1) s(2) unfolding s(1)
      by (simp add: segment_iter_collect.simps [of "\<lparr>iter_rest = Some (p @ CHR ''/'' # q), iter_remaining = n\<rparr>"]
          segment_iter_next_split)
  next
    case False
    thus ?thesis using n
      by (simp add: segment_iter_collect.simps [of "\<lparr>iter_rest = Some s, iter_remaining = n\<rparr>"]
          segment_iter_next_last segment_iter_collect_end split_on_no_sep)
  qed
qed

fun atom_of :: "segment \<Rightarrow> atom" where
  "atom_of (Literal l) = ALiteral l"
| "atom_of Single = ASingle"
| "atom_of Rest = ARest"
| "atom_of (Affix p name s) = AAffix p s"
| "atom_of (Variable v) = ASingle"

definition segment_atoms :: "segment \<Rightarrow> atom list" where
  "segment_atoms seg = map atom_of (atoms seg)"

definition template_atoms :: "segment list \<Rightarrow> atom list" where
  "template_atoms segs = concat (map segment_atoms segs)"

fun segment_spans :: "nat \<Rightarrow> segment \<Rightarrow> var_span list" where
  "segment_spans i (Affix p name s) =
     [\<lparr>vs_name = split_on CHR ''.'' name, vs_first = i, vs_last = i, vs_affix = Some (length p, length s)\<rparr>]"
| "segment_spans i (Variable v) =
     [\<lparr>vs_name = split_on CHR ''.'' (var_field v), vs_first = i,
       vs_last = i + length (split_on CHR ''/'' (var_sub v)) - 1, vs_affix = None\<rparr>]"
| "segment_spans i seg = []"

fun template_spans :: "nat \<Rightarrow> segment list \<Rightarrow> var_span list" where
  "template_spans i [] = []"
| "template_spans i (seg # segs) = segment_spans i seg @ template_spans (i + length (segment_atoms seg)) segs"

lemma sub_atoms_classify: "concat (map sub_atoms (map classify_segment ps)) = map atom_of (map classify_segment ps)"
  by (induction ps) (simp_all add: classify_segment_def)

lemma segment_atoms_not_Nil: "segment_atoms seg \<noteq> []"
  by (cases seg) (simp_all add: segment_atoms_def)

lemma flatten_loop_eval:
  "list_all (wf_segment True) segs \<Longrightarrow>
     flatten_loop segs as vars = Inr (as @ template_atoms segs, vars @ template_spans (length as) segs)"
proof (induction segs arbitrary: as vars)
  case (Cons seg segs)
  show ?case
  proof (cases seg)
    case (Variable v)
    have "is_str (var_sub v)"
      using Cons.prems Variable valid_sub_facts(3) is_str_ascii by (simp add: is_str_def)
    hence "segment_iter_collect (variable_segments v) = Inr (map classify_segment (split_on CHR ''/'' (var_sub v)))"
      using segment_iter_collect_eval by (simp add: variable_segments_def length_split_on)
    moreover have "\<exists>p \<in> set (split_on CHR ''/'' (var_sub v)). sub_atoms (classify_segment p) \<noteq> []"
      by (rule bexI [OF _ hd_in_set [OF split_on_not_Nil]]) (simp add: classify_segment_def)
    ultimately show ?thesis using Cons Variable sub_atoms_classify [of "split_on CHR ''/'' (var_sub v)"]
      by (simp add: Let_def template_atoms_def segment_atoms_def)
  qed (use Cons in \<open>simp_all add: template_atoms_def segment_atoms_def\<close>)
qed (simp add: template_atoms_def)

lemma flatten_eval:
  "list_all (wf_segment True) segs \<Longrightarrow> flatten segs = Inr (template_atoms segs, template_spans 0 segs)"
  by (simp add: flatten_def flatten_loop_eval)

lemma atom_of_rest: "x \<in> set (atoms seg) \<Longrightarrow> atom_of x = ARest \<longleftrightarrow> x = Rest"
  by (cases x; cases seg) (auto simp: classify_segment_def)

lemma template_atoms_rest_last:
  assumes "rest_last segs"
  shows "ARest \<notin> set (butlast (template_atoms segs))"
proof
  assume "ARest \<in> set (butlast (template_atoms segs))"
  moreover have "template_atoms segs = map atom_of (concat (map atoms segs))"
    by (induction segs) (simp_all add: template_atoms_def segment_atoms_def)
  ultimately obtain x where x: "x \<in> set (butlast (concat (map atoms segs)))" "atom_of x = ARest"
    by (auto simp flip: map_butlast)
  then obtain seg where "x \<in> set (atoms seg)" by (auto dest!: in_set_butlastD)
  thus False using x assms atom_of_rest by (auto simp: rest_last_def)
qed

lemma edges_of_rest_last:
  "ARest \<notin> set (butlast ats) \<Longrightarrow>
     edges_of ats = (if ats \<noteq> [] \<and> last ats = ARest then butlast ats else ats)"
  by (cases ats rule: rev_cases) (auto simp: edges_of_def filter_id_conv)

text \<open>Every span lies within the atoms of the template; an affix span is on its affix atom.\<close>

definition span_ok :: "atom list \<Rightarrow> var_span \<Rightarrow> bool" where
  "span_ok ats v \<longleftrightarrow> vs_first v \<le> vs_last v \<and> vs_last v < length ats \<and>
     (case vs_affix v of
        None \<Rightarrow> True
      | Some ps \<Rightarrow> vs_first v = vs_last v \<and>
          (\<exists>p s. ats ! vs_first v = AAffix p s \<and> ps = (length p, length s) \<and> list_all is_ascii p \<and> list_all is_ascii s))"

lemma segment_spans_ok:
  assumes "wf_segment True seg" "v \<in> set (segment_spans (length pre) seg)"
  shows "span_ok (pre @ segment_atoms seg @ post) v"
proof (cases seg)
  case (Affix p name s)
  hence "list_all is_ascii p" "list_all is_ascii s"
    using assms(1) valid_literal_ascii by (simp_all add: is_valid_literal_def)
  thus ?thesis using assms(2) Affix by (simp add: span_ok_def segment_atoms_def)
next
  case (Variable v')
  thus ?thesis using assms(2) by (simp add: span_ok_def segment_atoms_def length_split_on)
qed (use assms in simp_all)

lemma template_spans_ok:
  "list_all (wf_segment True) segs \<Longrightarrow> v \<in> set (template_spans (length pre) segs) \<Longrightarrow>
     span_ok (pre @ template_atoms segs) v"
proof (induction segs arbitrary: pre)
  case (Cons seg segs)
  show ?case
  proof (cases "v \<in> set (segment_spans (length pre) seg)")
    case True
    thus ?thesis using segment_spans_ok [of seg v pre "template_atoms segs"] Cons.prems(1)
      by (simp add: template_atoms_def)
  next
    case False
    hence "v \<in> set (template_spans (length (pre @ segment_atoms seg)) segs)" using Cons.prems(2) by simp
    thus ?thesis using Cons.IH [of "pre @ segment_atoms seg"] Cons.prems(1) by (simp add: template_atoms_def)
  qed
qed simp

section \<open>The entries of a route set\<close>

definition template_has_rest :: "path_template \<Rightarrow> bool" where
  "template_has_rest t \<longleftrightarrow>
     template_atoms (template_segments t) \<noteq> [] \<and> last (template_atoms (template_segments t)) = ARest"

definition leaf_of :: "(string \<Rightarrow> string) \<Rightarrow> nat \<Rightarrow> route \<times> path_template \<Rightarrow> leaf" where
  "leaf_of route_field i rt =
     (case rt of (r, t) \<Rightarrow>
       \<lparr>leaf_method = route_method r, leaf_verb = template_verb t, leaf_name = route_name r,
        leaf_vars = map (plan_of route_field (template_has_rest t) (length (template_atoms (template_segments t))))
          (template_spans 0 (template_segments t)),
        leaf_route_index = i\<rparr>)"

definition entry_of :: "(string \<Rightarrow> string) \<Rightarrow> nat \<Rightarrow> route \<times> path_template \<Rightarrow> entry" where
  "entry_of route_field i rt =
     (edges_of (template_atoms (template_segments (snd rt))), template_has_rest (snd rt), leaf_of route_field i rt)"

abbreviation route_grammar :: grammar where
  "route_grammar \<equiv> with_segment_affixes grammar_new"

lemma wf_template_affix: "wf_template g t \<Longrightarrow> wf_template route_grammar t"
proof -
  have "wf_segment ext seg \<Longrightarrow> wf_segment True seg" for ext seg by (cases seg) simp_all
  thus "wf_template g t \<Longrightarrow> wf_template route_grammar t"
    by (auto simp: wf_template_def with_segment_affixes_def list_all_iff)
qed

lemma wf_template_segments: "wf_template route_grammar t \<Longrightarrow> list_all (wf_segment True) (template_segments t)"
  by (simp add: wf_template_def with_segment_affixes_def)

lemma insert_route_eval:
  assumes "wf_template route_grammar t"
  shows "insert_route route_field n r t i =
    Inr (length (template_atoms (template_segments t)),
      insert_at (template_atoms (template_segments t)) (template_has_rest t) (leaf_of route_field i (r, t)) n)"
  using flatten_eval [OF wf_template_segments [OF assms]]
  by (simp add: insert_route_def Let_def leaf_of_def template_has_rest_def)

fun route_entries :: "(string \<Rightarrow> string) \<Rightarrow> nat \<Rightarrow> (route \<times> path_template) list \<Rightarrow> entry list" where
  "route_entries route_field i [] = []"
| "route_entries route_field i (rt # rts) = entry_of route_field i rt # route_entries route_field (i + 1) rts"

definition trie_holds :: "trie \<Rightarrow> entry list \<Rightarrow> bool" where
  "trie_holds tr es \<longleftrightarrow> wf_node (trie_root tr) \<and> same_order (entries (trie_root tr)) es"

lemma build_trie_loop_eval:
  assumes "\<And>rt. rt \<in> set rts \<Longrightarrow> wf_template route_grammar (snd rt)" "trie_holds tr es"
  shows "\<exists>tr'. build_trie_loop route_field rts i tr = Inr tr' \<and>
    trie_holds tr' (es @ route_entries route_field i rts) \<and>
    trie_max_segments tr \<le> trie_max_segments tr' \<and>
    (\<forall>rt \<in> set rts. length (template_atoms (template_segments (snd rt))) \<le> trie_max_segments tr') \<and>
    trie_any_verb tr' = (trie_any_verb tr \<or> (\<exists>rt \<in> set rts. template_verb (snd rt) \<noteq> None))"
  using assms
proof (induction rts arbitrary: i tr es)
  case (Cons rt rts)
  obtain r t where rt: "rt = (r, t)" by (cases rt)
  let ?ats = "template_atoms (template_segments t)"
  let ?root = "insert_at ?ats (template_has_rest t) (leaf_of route_field i rt) (trie_root tr)"
  let ?tr = "\<lparr>trie_root = ?root, trie_max_segments = max (trie_max_segments tr) (length ?ats),
      trie_any_verb = (trie_any_verb tr \<or> template_verb t \<noteq> None)\<rparr>"
  have wf: "wf_template route_grammar t" using Cons.prems(1) rt by fastforce
  have "trie_holds ?tr (es @ [entry_of route_field i rt])"
    using Cons.prems(2) same_order_insert insert_at_wf by (simp add: trie_holds_def entry_of_def rt)
  from Cons.IH [OF _ this, of "i + 1"] Cons.prems(1) obtain tr' where
    "build_trie_loop route_field rts (i + 1) ?tr = Inr tr'"
    "trie_holds tr' ((es @ [entry_of route_field i rt]) @ route_entries route_field (i + 1) rts)"
    "trie_max_segments ?tr \<le> trie_max_segments tr'"
    "\<forall>rt \<in> set rts. length (template_atoms (template_segments (snd rt))) \<le> trie_max_segments tr'"
    "trie_any_verb tr' = (trie_any_verb ?tr \<or> (\<exists>rt \<in> set rts. template_verb (snd rt) \<noteq> None))"
    by auto
  moreover have "build_trie_loop route_field (rt # rts) i tr = build_trie_loop route_field rts (i + 1) ?tr"
    using insert_route_eval [OF wf] rt by simp
  ultimately show ?case using rt by (intro exI [of _ tr']) auto
qed simp

text \<open>A route is made from a parsed template, which it stores as text.\<close>

type_synonym route_spec = "string \<times> string \<times> path_template"

definition spec_route :: "route_spec \<Rightarrow> route" where
  "spec_route rs = (case rs of (name, meth, t) \<Rightarrow> route_new name meth t)"

definition spec_template :: "route_spec \<Rightarrow> path_template" where
  "spec_template rs = snd (snd rs)"

definition wf_spec :: "route_spec \<Rightarrow> bool" where
  "wf_spec rs = wf_template route_grammar (spec_template rs)"

abbreviation spec_pairs :: "route_spec list \<Rightarrow> (route \<times> path_template) list" where
  "spec_pairs specs \<equiv> map (\<lambda>rs. (spec_route rs, spec_template rs)) specs"

lemma route_template_spec: "wf_spec rs \<Longrightarrow> route_template (spec_route rs) = Inr (spec_template rs)"
  using parse_template_complete [of route_grammar "spec_template rs"] template_display_spells
  by (cases rs) (simp add: route_template_def spec_route_def spec_template_def route_new_def wf_spec_def)

lemma try_map_route_template:
  "list_all wf_spec specs \<Longrightarrow> try_map route_template (map spec_route specs) = Inr (map spec_template specs)"
  by (induction specs) (simp_all add: route_template_spec)

lemma build_trie_eval:
  assumes "list_all wf_spec specs"
  obtains tr where "build_trie route_field (map spec_route specs) = Inr tr"
    "trie_holds tr (route_entries route_field 0 (spec_pairs specs))"
    "\<forall>rs \<in> set specs. length (template_atoms (template_segments (spec_template rs))) \<le> trie_max_segments tr"
    "trie_any_verb tr = (\<exists>rs \<in> set specs. template_verb (spec_template rs) \<noteq> None)"
proof -
  let ?tr = "\<lparr>trie_root = node_default, trie_max_segments = 0, trie_any_verb = False\<rparr>"
  have init: "trie_holds ?tr []" by (simp add: trie_holds_def same_order_def, simp add: node_default_def)
  have wf: "wf_template route_grammar (snd rt)" if "rt \<in> set (spec_pairs specs)" for rt
    using that assms by (auto simp: list_all_iff wf_spec_def)
  obtain tr where tr: "build_trie_loop route_field (spec_pairs specs) 0 ?tr = Inr tr"
      "trie_holds tr ([] @ route_entries route_field 0 (spec_pairs specs))"
      "\<forall>rt \<in> set (spec_pairs specs). length (template_atoms (template_segments (snd rt))) \<le> trie_max_segments tr"
      "trie_any_verb tr = (trie_any_verb ?tr \<or> (\<exists>rt \<in> set (spec_pairs specs). template_verb (snd rt) \<noteq> None))"
    using build_trie_loop_eval [of "spec_pairs specs" ?tr "[]" route_field 0, OF wf init] by blast
  have "zip (map spec_route specs) (map spec_template specs) = spec_pairs specs"
    by (simp add: zip_map_map zip_same_conv_map)
  hence "build_trie route_field (map spec_route specs) = Inr tr"
    using tr(1) assms by (simp add: build_trie_def build_trie_with_templates_def try_map_route_template)
  thus ?thesis by (rule that) (use tr(2-4) in auto)
qed

end
