(* ===== verification/Router_Resolver.thy ===== *)
theory Router_Resolver
  imports Router_Build
begin

text \<open>
  The resolver (\<open>routerama/src/raw_resolver.rs\<close>), the captures of a match (\<open>routerama/src/captures.rs\<close>)
  and the match itself (\<open>routerama/src/raw_match.rs\<close>), over the trie, the scanner and the walk. The
  resolver is shown to equal a reference that tries every route: of the routes that match, in the
  order of registration, the first one of the most specific rank.
\<close>

section \<open>Captures\<close>

definition materialize :: "var_plan \<Rightarrow> scanned_path \<Rightarrow> string resolved" where
  "materialize plan path =
     (case plan of
        PSpan field key a b \<Rightarrow>
          try_bind (path_capture path a b) (\<lambda>x.
            option_expect x ''route capture plan references scanned segment indices'')
      | PRest field key a \<Rightarrow>
          try_bind (path_rest path a) (\<lambda>x.
            option_expect x ''route rest plan starts at or before the scanned segment count'')
      | PAffix field key a prefix_len suffix_len \<Rightarrow>
          try_bind (path_affix path a prefix_len suffix_len) (\<lambda>x.
            option_expect x ''matched affix literals delimit a valid capture''))"

record captures =
  cap_leaf :: leaf
  cap_path :: scanned_path
  cap_order :: "nat list"

definition captures_new :: "leaf \<Rightarrow> scanned_path \<Rightarrow> nat list \<Rightarrow> captures" where
  "captures_new lf path order = \<lparr>cap_leaf = lf, cap_path = path, cap_order = order\<rparr>"

definition captures_get :: "captures \<Rightarrow> nat \<Rightarrow> string option resolved" where
  "captures_get c index =
     (if length (cap_order c) \<le> index then Inr None
      else let position = cap_order c ! index
           in if length (leaf_vars (cap_leaf c)) \<le> position then Inr None
              else try_bind (materialize (leaf_vars (cap_leaf c) ! position) (cap_path c)) (\<lambda>v. Inr (Some v)))"

record 'v raw_match =
  rm_leaf :: leaf
  rm_values :: "string list"
  rm_value :: 'v

definition match_name :: "'v raw_match \<Rightarrow> string" where
  "match_name m = leaf_name (rm_leaf m)"

definition match_capture :: "'v raw_match \<Rightarrow> string \<Rightarrow> string option" where
  "match_capture m name =
     (case find_enumerated (\<lambda>plan. plan_key plan = name) 0 (leaf_vars (rm_leaf m)) of
        None \<Rightarrow> None
      | Some (index, _) \<Rightarrow> if index < length (rm_values m) then Some (rm_values m ! index) else None)"

definition match_captures :: "'v raw_match \<Rightarrow> (string \<times> string) list" where
  "match_captures m = zip (map plan_key (leaf_vars (rm_leaf m))) (rm_values m)"

section \<open>The resolver\<close>

definition inline_segments :: nat where
  "inline_segments = 16"

definition uses_heap_offsets :: "nat \<Rightarrow> bool" where
  "uses_heap_offsets segment_count \<longleftrightarrow> inline_segments < segment_count"

record 'v raw_resolver =
  rr_root :: rt_node
  rr_max_segments :: nat
  rr_any_verb :: bool
  rr_payloads :: "'v list"

definition resolver_compile :: "trie \<Rightarrow> 'v list \<Rightarrow> 'v raw_resolver resolved" where
  "resolver_compile tr payloads =
     try_bind (compile (trie_root tr)) (\<lambda>rootn.
       Inr \<lparr>rr_root = rootn, rr_max_segments = trie_max_segments tr, rr_any_verb = trie_any_verb tr,
            rr_payloads = payloads\<rparr>)"

definition resolver_build :: "(string \<Rightarrow> string) \<Rightarrow> route list \<Rightarrow> 'v list \<Rightarrow> 'v raw_resolver resolved" where
  "resolver_build route_field routes payloads =
     try_bind (build_trie route_field routes) (\<lambda>tr. resolver_compile tr payloads)"

definition resolver_new :: "(string \<Rightarrow> string) \<Rightarrow> route list \<Rightarrow> unit raw_resolver resolved" where
  "resolver_new route_field routes = resolver_build route_field routes (replicate (length routes) ())"

definition with_values :: "(string \<Rightarrow> string) \<Rightarrow> (route \<times> 'v) list \<Rightarrow> 'v raw_resolver resolved" where
  "with_values route_field ents = resolver_build route_field (map fst ents) (map snd ents)"

definition with_trie :: "'v list \<Rightarrow> trie \<Rightarrow> 'v raw_resolver resolved" where
  "with_trie payloads tr = resolver_compile tr payloads"

definition splits_verbs :: "'v raw_resolver \<Rightarrow> bool" where
  "splits_verbs r = rr_any_verb r"

definition force_verb_split :: "bool \<Rightarrow> 'v raw_resolver \<Rightarrow> 'v raw_resolver" where
  "force_verb_split force r = r\<lparr>rr_any_verb := (rr_any_verb r \<or> force)\<rparr>"

definition finish_scanned ::
  "'v raw_resolver \<Rightarrow> string \<Rightarrow> string option \<Rightarrow> scanned_path \<Rightarrow>
     (leaf \<Rightarrow> 'v \<Rightarrow> scanned_path \<Rightarrow> 'r resolved) \<Rightarrow> 'r option resolved" where
  "finish_scanned r meth verb path finish =
     (let w = \<lparr>walk_path = path, walk_method = meth, walk_verb = verb\<rparr>
      in try_bind (descend_iterative (rr_any_verb r) w (rr_root r) 0) (\<lambda>lf.
           case lf of
             None \<Rightarrow> Inr None
           | Some lf \<Rightarrow>
               try_bind (vec_get (rr_payloads r) (leaf_route_index lf)) (\<lambda>v.
               try_bind (finish lf v path) (\<lambda>x. Inr (Some x)))))"

definition resolve_with_heap_offsets ::
  "target_arch \<Rightarrow> 'v raw_resolver \<Rightarrow> string \<Rightarrow> string \<Rightarrow> string option \<Rightarrow> nat \<Rightarrow>
     (leaf \<Rightarrow> 'v \<Rightarrow> scanned_path \<Rightarrow> 'r resolved) \<Rightarrow> 'r option resolved" where
  "resolve_with_heap_offsets arch r meth body verb segment_count finish =
     (let capacity = min segment_count (rr_max_segments r);
          heap_offsets = replicate (capacity * 2) 0;
          starts = take capacity heap_offsets; ends = drop capacity heap_offsets
      in finish_scanned r meth verb (scan_path arch body starts ends) finish)"

definition resolve_scanned_checked ::
  "target_arch \<Rightarrow> 'v raw_resolver \<Rightarrow> string \<Rightarrow> string \<Rightarrow>
     (leaf \<Rightarrow> 'v \<Rightarrow> scanned_path \<Rightarrow> 'r resolved) \<Rightarrow> 'r option resolved" where
  "resolve_scanned_checked arch r meth path finish =
     try_bind (if rr_any_verb r then path_split_verb path else Inr (path, None)) (\<lambda>(body, verb).
       let inline_starts = replicate inline_segments 0; inline_ends = replicate inline_segments 0
       in if rr_max_segments r \<le> inline_segments
          then
            let path = scan_path arch body (take (rr_max_segments r) inline_starts)
                  (take (rr_max_segments r) inline_ends)
            in if \<not> sp_valid path then Inl (Err InvalidPath)
               else finish_scanned r meth verb path finish
          else
            let path = scan_path arch body inline_starts inline_ends
            in if \<not> sp_valid path then Inl (Err InvalidPath)
               else if uses_heap_offsets (sp_count path)
                    then resolve_with_heap_offsets arch r meth body verb (sp_count path) finish
                    else finish_scanned r meth verb path finish)"

definition resolve_checked ::
  "target_arch \<Rightarrow> 'v raw_resolver \<Rightarrow> string \<Rightarrow> string \<Rightarrow> ('v raw_match) option resolved" where
  "resolve_checked arch r meth path =
     resolve_scanned_checked arch r meth path (\<lambda>lf v path.
       try_bind (try_map (\<lambda>plan. materialize plan path) (leaf_vars lf)) (\<lambda>values.
         Inr \<lparr>rm_leaf = lf, rm_values = values, rm_value = v\<rparr>))"

definition resolve :: "target_arch \<Rightarrow> 'v raw_resolver \<Rightarrow> string \<Rightarrow> string \<Rightarrow> ('v raw_match) option resolved" where
  "resolve arch r meth path =
     (case resolve_checked arch r meth path of
        Inr m \<Rightarrow> Inr m
      | Inl (Err e) \<Rightarrow> Inr None
      | Inl (Panicked msg) \<Rightarrow> Inl (Panicked msg))"

section \<open>The reference\<close>

text \<open>The segments of a request path against the atoms of a template.\<close>

fun atoms_match :: "string list \<Rightarrow> atom list \<Rightarrow> bool" where
  "atoms_match segs [] = (segs = [])"
| "atoms_match segs (a # ats) =
     (a = ARest \<or> (case segs of [] \<Rightarrow> False | s # ss \<Rightarrow> atom_matches s a \<and> atoms_match ss ats))"

text \<open>What the variables of a template capture, segment by segment.\<close>

fun template_captures :: "segment list \<Rightarrow> string list \<Rightarrow> (string \<times> string) list" where
  "template_captures [] segs = []"
| "template_captures (seg # tsegs) segs =
     (case seg of
        Affix p name s \<Rightarrow> [(name, drop (length p) (take (length (segs ! 0) - length s) (segs ! 0)))]
      | Variable v \<Rightarrow>
          [(var_field v,
            join_with CHR ''/''
              (if last (segment_atoms seg) = ARest then segs else take (length (segment_atoms seg)) segs))]
      | _ \<Rightarrow> []) @
     template_captures tsegs (drop (length (segment_atoms seg)) segs)"

definition spec_atoms :: "route_spec \<Rightarrow> atom list" where
  "spec_atoms rs = template_atoms (template_segments (spec_template rs))"

text \<open>The rank of a route: the kinds of its atoms from left to right.\<close>

definition spec_rank :: "route_spec \<Rightarrow> (nat \<times> int \<times> string \<times> string) list" where
  "spec_rank rs = path_rank (edges_of (spec_atoms rs)) (template_has_rest (spec_template rs))"

definition spec_accepts :: "bool \<Rightarrow> string \<Rightarrow> string option \<Rightarrow> string list \<Rightarrow> route_spec \<Rightarrow> bool" where
  "spec_accepts verbs meth verb segs rs \<longleftrightarrow>
     fst (snd rs) = meth \<and> (\<not> verbs \<or> template_verb (spec_template rs) = verb) \<and>
     atoms_match segs (spec_atoms rs)"

definition best_route ::
  "bool \<Rightarrow> string \<Rightarrow> string option \<Rightarrow> string list \<Rightarrow> route_spec list \<Rightarrow> (nat \<times> route_spec) option" where
  "best_route verbs meth verb segs specs =
     (case sort_key (\<lambda>irs. spec_rank (snd irs))
        (filter (\<lambda>irs. spec_accepts verbs meth verb segs (snd irs)) (enumerate 0 specs)) of
        [] \<Rightarrow> None
      | irs # _ \<Rightarrow> Some irs)"

section \<open>Matching\<close>

definition seg_upto :: "nat \<Rightarrow> string list \<Rightarrow> nat \<Rightarrow> string option" where
  "seg_upto cap segs d = (if d < length segs \<and> d < cap then Some (segs ! d) else None)"

lemma path_matches_atoms:
  "ARest \<notin> set (butlast ats) \<Longrightarrow> d \<le> length segs \<Longrightarrow> d + length ats \<le> cap \<or> length segs \<le> cap \<Longrightarrow>
     path_matches (seg_upto cap segs) (length segs) d (edges_of ats) (ats \<noteq> [] \<and> last ats = ARest) \<longleftrightarrow>
       atoms_match (drop d segs) ats"
proof (induction ats arbitrary: d)
  case Nil
  thus ?case by (auto simp: edges_of_def)
next
  case (Cons a ats)
  show ?case
  proof (cases "a = ARest")
    case True
    hence "ats = []" using Cons.prems(1) by (auto split: if_splits)
    thus ?thesis using True Cons.prems by (simp add: edges_of_def)
  next
    case False
    hence edges: "edges_of (a # ats) = a # edges_of ats"
        "(a # ats \<noteq> [] \<and> last (a # ats) = ARest) = (ats \<noteq> [] \<and> last ats = ARest)"
      by (simp_all add: edges_of_def)
    show ?thesis
    proof (cases "d < length segs")
      case True
      hence "seg_upto cap segs d = Some (segs ! d)" "drop d segs = segs ! d # drop (Suc d) segs"
        using Cons.prems(3) by (auto simp: seg_upto_def Cons_nth_drop_Suc)
      moreover have "ARest \<notin> set (butlast ats)" using Cons.prems(1) by (auto split: if_splits)
      ultimately show ?thesis using Cons.IH [of "Suc d"] Cons.prems(3) True False unfolding edges by auto
    next
      case beyond: False
      thus ?thesis using False Cons.prems(2) unfolding edges by (simp add: seg_upto_def)
    qed
  qed
qed

lemma atoms_match_nth:
  "atoms_match segs ats \<Longrightarrow> i < length ats \<Longrightarrow> ARest \<notin> set (take (Suc i) ats) \<Longrightarrow>
     i < length segs \<and> atom_matches (segs ! i) (ats ! i)"
proof (induction segs ats arbitrary: i rule: atoms_match.induct)
  case (2 segs a ats)
  then obtain s ss where "segs = s # ss" "atom_matches s a" "atoms_match ss ats"
    by (auto split: list.splits)
  thus ?case using 2 by (cases i) auto
qed simp

lemma atoms_match_length:
  "atoms_match segs ats \<Longrightarrow> ARest \<notin> set (butlast ats) \<Longrightarrow>
     (if ats \<noteq> [] \<and> last ats = ARest then length ats \<le> Suc (length segs) else length segs = length ats)"
proof (induction segs ats rule: atoms_match.induct)
  case (2 segs a ats)
  show ?case
  proof (cases "a = ARest")
    case True
    hence "ats = []" using "2.prems"(2) by (auto split: if_splits)
    thus ?thesis using True by simp
  next
    case False
    then obtain s ss where "segs = s # ss" "atoms_match ss ats"
      using "2.prems"(1) by (auto split: list.splits)
    thus ?thesis using "2.IH" [of s ss] "2.prems"(2) False by (auto split: if_splits)
  qed
qed simp

section \<open>Captures\<close>

text \<open>The value of a span of segments.\<close>

definition span_value :: "bool \<Rightarrow> nat \<Rightarrow> string list \<Rightarrow> var_span \<Rightarrow> string" where
  "span_value has_rest n segs v =
     (case vs_affix v of
        Some (p, s) \<Rightarrow> drop p (take (length (segs ! vs_first v) - s) (segs ! vs_first v))
      | None \<Rightarrow>
          join_with CHR ''/''
            (if has_rest \<and> vs_last v = n - 1 then drop (vs_first v) segs
             else take (Suc (vs_last v) - vs_first v) (drop (vs_first v) segs)))"

lemma affix_decompose:
  assumes "affix_matches x p s"
  shows "x = p @ drop (length p) (take (length x - length s) x) @ s"
proof -
  have "x = take (length x - length s) x @ s"
    using assms by (metis affix_matches_def append_take_drop_id)
  moreover have "length p \<le> length x - length s" using assms unfolding affix_matches_def by linarith
  hence "take (length p) (take (length x - length s) x) = p"
    using assms by (simp add: affix_matches_def min_def)
  ultimately show ?thesis by (metis append.assoc append_take_drop_id)
qed

lemma materialize_eval:
  assumes path: "length starts = cap" "length ends = cap" "path = scan_path arch body starts ends" "is_str body"
    and segs: "segs = path_segments body" "atoms_match segs ats" "ARest \<notin> set (butlast ats)"
    and cap: "length ats \<le> cap \<or> length segs \<le> cap"
    and v: "span_ok ats v" and hr: "has_rest = (ats \<noteq> [] \<and> last ats = ARest)"
  shows "materialize (plan_of route_field has_rest (length ats) v) path =
    Inr (span_value has_rest (length ats) segs v)"
proof -
  let ?a = "vs_first v" and ?b = "vs_last v"
  have ab: "?a \<le> ?b" "?b < length ats" using v by (simp_all add: span_ok_def)
  have len: "if has_rest then length ats \<le> Suc (length segs) else length segs = length ats"
    using atoms_match_length [OF segs(2,3)] hr by simp
  show ?thesis
  proof (cases "vs_affix v")
    case None
    show ?thesis
    proof (cases "has_rest \<and> ?b = length ats - 1")
      case True
      hence "?a \<le> length segs" "?a < cap \<or> ?a = length segs" using ab len cap by auto
      thus ?thesis using path_rest_eval [OF path, of ?a] True None segs(1)
        by (simp add: plan_of_def Let_def materialize_def option_expect_def span_value_def)
    next
      case False
      hence "?b < length segs" "?b < cap" using ab len cap by (auto split: if_splits)
      thus ?thesis using path_capture_eval [OF path ab(1)] False None segs(1)
        by (auto simp: plan_of_def Let_def materialize_def option_expect_def span_value_def)
    qed
  next
    case (Some ps)
    then obtain p s where ps: "ats ! ?a = AAffix p s" "ps = (length p, length s)" "?a = ?b"
        "list_all is_ascii p" "list_all is_ascii s"
      using v by (auto simp: span_ok_def)
    have "ats ! i \<noteq> ARest" if "i \<le> ?a" for i
    proof (cases "i = ?a")
      case False
      hence i: "i < length (butlast ats)" using that ab by simp
      thus ?thesis using segs(3) nth_mem [OF i] by (auto simp: nth_butlast)
    qed (use ps(1) in simp)
    hence "ARest \<notin> set (take (Suc ?a) ats)" by (auto simp: in_set_conv_nth)
    hence m: "?a < length segs" "affix_matches (segs ! ?a) p s"
      using atoms_match_nth [OF segs(2), of ?a] ps(1,3) ab(2) by simp_all
    hence "?a < cap" using cap ab(2) ps(3) by auto
    thus ?thesis
      using path_affix_eval [OF path, of ?a p _ s] affix_decompose [OF m(2)] m(1) ps(2,4,5) Some segs(1)
      by (simp add: plan_of_def Let_def materialize_def option_expect_def span_value_def)
  qed
qed

text \<open>The spans of a template capture what the reference captures.\<close>

lemma plan_key_plan_of: "plan_key (plan_of route_field has_rest n v) = join_with CHR ''.'' (vs_name v)"
  by (simp add: plan_of_def Let_def split: option.splits)

lemma template_captures_keys:
  "map (\<lambda>v. join_with CHR ''.'' (vs_name v)) (template_spans i tsegs) = map fst (template_captures tsegs segs)"
proof (induction tsegs arbitrary: i segs)
  case (Cons seg tsegs)
  thus ?case by (cases seg) simp_all
qed simp

lemma template_captures_values:
  "ARest \<notin> set (butlast (pre @ template_atoms tsegs)) \<Longrightarrow>
     i = length pre \<Longrightarrow> n = length (pre @ template_atoms tsegs) \<Longrightarrow> n \<le> Suc (length segs) \<Longrightarrow>
     tsegs \<noteq> [] \<longrightarrow> has_rest = (last (template_atoms tsegs) = ARest) \<Longrightarrow>
     map (span_value has_rest n segs) (template_spans i tsegs) = map snd (template_captures tsegs (drop i segs))"
proof (induction tsegs arbitrary: i pre)
  case (Cons seg tsegs)
  let ?as = "segment_atoms seg"
  have ats: "template_atoms (seg # tsegs) = ?as @ template_atoms tsegs" by (simp add: template_atoms_def)
  have ne: "?as \<noteq> []" by (rule segment_atoms_not_Nil)
  have tl: "template_atoms tsegs = [] \<longleftrightarrow> tsegs = []"
    using segment_atoms_not_Nil by (cases tsegs) (simp_all add: template_atoms_def)
  have IH: "map (span_value has_rest n segs) (template_spans (i + length ?as) tsegs) =
      map snd (template_captures tsegs (drop (i + length ?as) segs))"
    using Cons.IH [of "pre @ ?as" "i + length ?as"] Cons.prems ats tl by auto
  have "map (span_value has_rest n segs) (segment_spans i seg) =
      map snd (template_captures [seg] (drop i segs))"
  proof (cases seg)
    case (Variable v)
    have rest: "has_rest \<and> i + length ?as - 1 = n - 1 \<longleftrightarrow> last ?as = ARest"
    proof (cases "tsegs = []")
      case True
      thus ?thesis using Cons.prems(2,3,5) ats tl ne by auto
    next
      case False
      have "last ?as \<in> set (butlast (pre @ ?as @ template_atoms tsegs))"
        using False tl ne by (simp add: butlast_append)
      moreover have "i + length ?as - 1 \<noteq> n - 1" using False tl ne Cons.prems(2,3) ats by (cases ?as) auto
      ultimately show ?thesis using Cons.prems(1) unfolding ats by metis
    qed
    have len: "length (split_on CHR ''/'' (var_sub v)) = length ?as" using Variable by (simp add: segment_atoms_def)
    obtain k where k: "length ?as = Suc k" using ne by (cases ?as) auto
    show ?thesis using rest Variable len k by (simp add: span_value_def)
  next
    case (Affix p name s)
    have "i \<le> length segs" using Cons.prems(2-4) ats ne by (cases ?as) auto
    thus ?thesis using Affix by (simp add: span_value_def)
  qed simp_all
  thus ?case using IH by (simp add: add.commute)
qed simp

section \<open>The resolver is the reference\<close>

lemma find_filter: "find P xs = (case filter P xs of [] \<Rightarrow> None | x # _ \<Rightarrow> Some x)"
  by (induction xs) simp_all

abbreviation spec_pair :: "route_spec \<Rightarrow> route \<times> path_template" where
  "spec_pair rs \<equiv> (spec_route rs, spec_template rs)"

lemma route_entries_enumerate:
  "route_entries route_field i (spec_pairs specs) =
     map (\<lambda>irs. entry_of route_field (fst irs) (spec_pair (snd irs))) (enumerate i specs)"
  by (induction specs arbitrary: i) simp_all

lemma in_enumerate: "irs \<in> set (enumerate 0 xs) \<Longrightarrow> fst irs < length xs \<and> snd irs = xs ! fst irs"
  by (cases irs) (simp add: in_set_enumerate_eq)

lemma leaf_of_sel:
  "leaf_method (leaf_of route_field i (spec_pair rs)) = fst (snd rs)"
  "leaf_verb (leaf_of route_field i (spec_pair rs)) = template_verb (spec_template rs)"
  "leaf_name (leaf_of route_field i (spec_pair rs)) = fst rs"
  "leaf_route_index (leaf_of route_field i (spec_pair rs)) = i"
  by (cases rs; simp add: leaf_of_def spec_route_def route_new_def)+

lemma wf_spec_rest_last: "wf_spec rs \<Longrightarrow> ARest \<notin> set (butlast (spec_atoms rs))"
  by (simp add: spec_atoms_def wf_spec_def wf_template_def template_atoms_rest_last)

definition scanned :: "target_arch \<Rightarrow> string \<Rightarrow> nat \<Rightarrow> scanned_path \<Rightarrow> bool" where
  "scanned arch body cap path \<longleftrightarrow> is_str body \<and>
     (\<exists>starts ends. length starts = cap \<and> length ends = cap \<and> path = scan_path arch body starts ends)"

definition fits :: "nat \<Rightarrow> string list \<Rightarrow> route_spec list \<Rightarrow> bool" where
  "fits cap segs specs \<longleftrightarrow> length segs \<le> cap \<or> (\<forall>rs \<in> set specs. length (spec_atoms rs) \<le> cap)"

lemma scanned_reads:
  assumes "scanned arch body cap path"
  shows "reads \<lparr>walk_path = path, walk_method = meth, walk_verb = verb\<rparr> (seg_upto cap (path_segments body))"
    "sp_count path = length (path_segments body)"
    "sp_valid path \<longleftrightarrow> (\<forall>b \<in> set body. \<not> is_forbidden b)"
proof -
  obtain starts ends where p: "length starts = cap" "length ends = cap" "path = scan_path arch body starts ends"
      "is_str body" using assms by (auto simp: scanned_def)
  note fs = scan_path_fields [OF p(1-3) refl]
  show "reads \<lparr>walk_path = path, walk_method = meth, walk_verb = verb\<rparr> (seg_upto cap (path_segments body))"
    using path_segment_eval [OF p] fs(2) by (auto simp: reads_def seg_upto_def)
  show "sp_count path = length (path_segments body)"
    "sp_valid path \<longleftrightarrow> (\<forall>b \<in> set body. \<not> is_forbidden b)" using fs by simp_all
qed

lemma entry_of_matches:
  assumes "wf_spec rs" "length segs \<le> cap \<or> length (spec_atoms rs) \<le> cap"
  shows "entry_matches (seg_upto cap segs) (length segs) 0 (entry_of route_field i (spec_pair rs)) \<longleftrightarrow>
    atoms_match segs (spec_atoms rs)"
proof -
  have "0 + length (spec_atoms rs) \<le> cap \<or> length segs \<le> cap" using assms(2) by auto
  from path_matches_atoms [OF wf_spec_rest_last [OF assms(1)] le0 this]
  show ?thesis by (simp add: entry_matches_def entry_of_def template_has_rest_def spec_atoms_def)
qed

lemma candidates_best:
  assumes "list_all wf_spec specs" "scanned arch body cap path" "fits cap (path_segments body) specs"
    and "trie_holds tr (route_entries route_field 0 (spec_pairs specs))"
  shows "find (leaf_accepts verbs meth verb)
      (candidates (seg_upto cap (path_segments body)) (length (path_segments body)) (rt_of (trie_root tr)) 0) =
    map_option (\<lambda>irs. leaf_of route_field (fst irs) (spec_pair (snd irs)))
      (best_route verbs meth verb (path_segments body) specs)"
proof -
  let ?segs = "path_segments body" and ?E = "\<lambda>irs. entry_of route_field (fst irs) (spec_pair (snd irs))"
  let ?m = "entry_matches (seg_upto cap ?segs) (length ?segs) 0"
  let ?P = "leaf_accepts verbs meth verb"
  have accepts: "?m (?E irs) \<and> ?P (entry_leaf (?E irs)) \<longleftrightarrow> spec_accepts verbs meth verb ?segs (snd irs)"
    if "irs \<in> set (enumerate 0 specs)" for irs
  proof -
    have "snd irs \<in> set specs" using in_enumerate [OF that] by simp
    hence "wf_spec (snd irs)" "length ?segs \<le> cap \<or> length (spec_atoms (snd irs)) \<le> cap"
      using assms(1,3) by (auto simp: list_all_iff fits_def)
    hence "?m (?E irs) \<longleftrightarrow> atoms_match ?segs (spec_atoms (snd irs))" by (rule entry_of_matches)
    moreover have "entry_leaf (?E irs) = leaf_of route_field (fst irs) (spec_pair (snd irs))"
      by (simp add: entry_of_def)
    ultimately show ?thesis by (simp add: spec_accepts_def leaf_accepts_def leaf_of_sel conj_ac)
  qed
  have "candidates (seg_upto cap ?segs) (length ?segs) (rt_of (trie_root tr)) 0 =
      map entry_leaf (sort_key entry_rank (filter ?m (map ?E (enumerate 0 specs))))"
  proof -
    have "same_order (entries (trie_root tr)) (map ?E (enumerate 0 specs))" "wf_node (trie_root tr)"
      using assms(4) by (simp_all add: trie_holds_def route_entries_enumerate)
    thus ?thesis by (simp only: candidates_by_rank sort_same_order)
  qed
  also have "\<dots> = map (entry_leaf \<circ> ?E) (sort_key (\<lambda>irs. spec_rank (snd irs)) (filter (?m \<circ> ?E) (enumerate 0 specs)))"
    by (simp add: filter_map sort_key_map_mono [where h = "\<lambda>irs. spec_rank (snd irs)"] spec_rank_def
        entry_rank_def entry_of_def spec_atoms_def)
  finally have cand: "candidates (seg_upto cap ?segs) (length ?segs) (rt_of (trie_root tr)) 0 = \<dots>" .
  have "filter (\<lambda>irs. ?P (entry_leaf (?E irs))) (sort_key (\<lambda>irs. spec_rank (snd irs)) (filter (?m \<circ> ?E) (enumerate 0 specs))) =
      sort_key (\<lambda>irs. spec_rank (snd irs)) (filter (\<lambda>irs. spec_accepts verbs meth verb ?segs (snd irs)) (enumerate 0 specs))"
    using accepts by (simp add: filter_sort conj_commute cong: filter_cong)
  thus ?thesis
    unfolding cand find_filter best_route_def filter_map
    by (simp add: comp_def entry_of_def split: list.split)
qed

lemma descend_best:
  assumes "list_all wf_spec specs" "scanned arch body cap path" "fits cap (path_segments body) specs"
    and "trie_holds tr (route_entries route_field 0 (spec_pairs specs))"
  shows "descend_iterative verbs \<lparr>walk_path = path, walk_method = meth, walk_verb = verb\<rparr> (rt_of (trie_root tr)) 0 =
    Inr (map_option (\<lambda>irs. leaf_of route_field (fst irs) (spec_pair (snd irs)))
      (best_route verbs meth verb (path_segments body) specs))"
  using candidates_best [OF assms] descend_iterative_find [OF scanned_reads(1) [OF assms(2)]]
    scanned_reads(2) [OF assms(2)] by simp

definition built_for :: "(string \<Rightarrow> string) \<Rightarrow> route_spec list \<Rightarrow> 'v list \<Rightarrow> 'v raw_resolver \<Rightarrow> bool" where
  "built_for route_field specs values r \<longleftrightarrow>
     (\<exists>tr. trie_holds tr (route_entries route_field 0 (spec_pairs specs)) \<and> rr_root r = rt_of (trie_root tr)) \<and>
     (\<forall>rs \<in> set specs. length (spec_atoms rs) \<le> rr_max_segments r) \<and>
     ((\<exists>rs \<in> set specs. template_verb (spec_template rs) \<noteq> None) \<longrightarrow> rr_any_verb r) \<and> rr_payloads r = values"

lemma resolver_compile_built:
  assumes "trie_holds tr (route_entries route_field 0 (spec_pairs specs))"
    "\<forall>rs \<in> set specs. length (template_atoms (template_segments (spec_template rs))) \<le> trie_max_segments tr"
    "trie_any_verb tr = (\<exists>rs \<in> set specs. template_verb (spec_template rs) \<noteq> None)"
  obtains r where "resolver_compile tr values = Inr r" "built_for route_field specs values r"
    "rr_any_verb r = (\<exists>rs \<in> set specs. template_verb (spec_template rs) \<noteq> None)"
proof -
  have "compile (trie_root tr) = Inr (rt_of (trie_root tr))"
    using assms(1) compile_rt_of by (simp add: trie_holds_def)
  hence "resolver_compile tr values =
      Inr \<lparr>rr_root = rt_of (trie_root tr), rr_max_segments = trie_max_segments tr,
        rr_any_verb = trie_any_verb tr, rr_payloads = values\<rparr>"
    by (simp add: resolver_compile_def)
  thus ?thesis by (rule that) (use assms in \<open>auto simp: built_for_def spec_atoms_def\<close>)
qed

lemma with_values_built:
  assumes "list_all wf_spec (map fst ents)"
  obtains r where "with_values route_field (map (\<lambda>e. (spec_route (fst e), snd e)) ents) = Inr r"
    "built_for route_field (map fst ents) (map snd ents) r"
    "rr_any_verb r = (\<exists>e \<in> set ents. template_verb (spec_template (fst e)) \<noteq> None)"
proof -
  obtain tr where tr: "build_trie route_field (map spec_route (map fst ents)) = Inr tr"
    "trie_holds tr (route_entries route_field 0 (spec_pairs (map fst ents)))"
    "\<forall>rs \<in> set (map fst ents). length (template_atoms (template_segments (spec_template rs))) \<le> trie_max_segments tr"
    "trie_any_verb tr = (\<exists>rs \<in> set (map fst ents). template_verb (spec_template rs) \<noteq> None)"
    using build_trie_eval [OF assms, of route_field] by blast
  obtain r where r: "resolver_compile tr (map snd ents) = Inr r" "built_for route_field (map fst ents) (map snd ents) r"
    "rr_any_verb r = (\<exists>rs \<in> set (map fst ents). template_verb (spec_template rs) \<noteq> None)"
    using resolver_compile_built [OF tr(2-4)] by blast
  have "with_values route_field (map (\<lambda>e. (spec_route (fst e), snd e)) ents) = Inr r"
    using tr(1) r(1) by (simp add: with_values_def resolver_build_def comp_def)
  thus ?thesis by (rule that) (use r(2,3) in simp_all)
qed

lemma best_route_in:
  assumes "best_route verbs meth verb segs specs = Some (i, rs)"
  shows "i < length specs \<and> rs = specs ! i \<and> spec_accepts verbs meth verb segs rs"
proof -
  let ?xs = "filter (\<lambda>irs. spec_accepts verbs meth verb segs (snd irs)) (enumerate 0 specs)"
  obtain ys where "sort_key (\<lambda>irs. spec_rank (snd irs)) ?xs = (i, rs) # ys"
    using assms by (cases "sort_key (\<lambda>irs. spec_rank (snd irs)) ?xs") (simp_all add: best_route_def)
  hence "(i, rs) \<in> set ?xs" by (metis list.set_intros(1) set_sort)
  thus ?thesis using in_enumerate [of "(i, rs)" specs] by simp
qed

definition match_of :: "(string \<Rightarrow> string) \<Rightarrow> 'v list \<Rightarrow> string list \<Rightarrow> nat \<times> route_spec \<Rightarrow> 'v raw_match" where
  "match_of route_field values segs irs =
     \<lparr>rm_leaf = leaf_of route_field (fst irs) (spec_pair (snd irs)),
      rm_values = map snd (template_captures (template_segments (spec_template (snd irs))) segs),
      rm_value = values ! fst irs\<rparr>"

lemma try_map_map:
  "(\<And>v. v \<in> set vs \<Longrightarrow> f (g v) = Inr (h v)) \<Longrightarrow> try_map f (map g vs) = Inr (map h vs)"
  by (induction vs) simp_all

lemma materialize_all:
  assumes "scanned arch body cap path" "wf_spec rs" "atoms_match (path_segments body) (spec_atoms rs)"
    and "length (path_segments body) \<le> cap \<or> length (spec_atoms rs) \<le> cap"
  shows "try_map (\<lambda>plan. materialize plan path) (leaf_vars (leaf_of route_field i (spec_pair rs))) =
    Inr (map snd (template_captures (template_segments (spec_template rs)) (path_segments body)))"
proof -
  let ?segs = "path_segments body" and ?ats = "spec_atoms rs" and ?tsegs = "template_segments (spec_template rs)"
  let ?hr = "template_has_rest (spec_template rs)"
  obtain starts ends where p: "length starts = cap" "length ends = cap" "path = scan_path arch body starts ends"
      "is_str body" using assms(1) by (auto simp: scanned_def)
  have rl: "ARest \<notin> set (butlast ?ats)" by (rule wf_spec_rest_last [OF assms(2)])
  have hr: "?hr = (?ats \<noteq> [] \<and> last ?ats = ARest)" by (simp add: template_has_rest_def spec_atoms_def)
  have wf: "list_all (wf_segment True) ?tsegs" using assms(2) wf_template_segments by (simp add: wf_spec_def)
  have cap: "length ?ats \<le> cap \<or> length ?segs \<le> cap" using assms(4) by blast
  have "materialize (plan_of route_field ?hr (length ?ats) v) path = Inr (span_value ?hr (length ?ats) ?segs v)"
    if "v \<in> set (template_spans 0 ?tsegs)" for v
    using materialize_eval [OF p refl assms(3) rl cap _ hr] template_spans_ok [OF wf, of v "[]"] that
    by (simp add: spec_atoms_def)
  hence "try_map (\<lambda>plan. materialize plan path) (map (plan_of route_field ?hr (length ?ats)) (template_spans 0 ?tsegs)) =
      Inr (map (span_value ?hr (length ?ats) ?segs) (template_spans 0 ?tsegs))"
    by (rule try_map_map)
  moreover have "map (span_value ?hr (length ?ats) ?segs) (template_spans 0 ?tsegs) =
      map snd (template_captures ?tsegs (drop 0 ?segs))"
  proof (rule template_captures_values [of "[]"])
    show "length ?ats \<le> Suc (length ?segs)" using atoms_match_length [OF assms(3) rl] by (simp split: if_splits)
    show "?tsegs \<noteq> [] \<longrightarrow> ?hr = (last (template_atoms ?tsegs) = ARest)"
      using segment_atoms_not_Nil by (cases ?tsegs) (simp_all add: template_has_rest_def template_atoms_def)
  qed (use rl in \<open>simp_all add: spec_atoms_def\<close>)
  ultimately show ?thesis by (simp add: leaf_of_def spec_atoms_def)
qed

text \<open>The callback of a resolution sees the leaf of the chosen route, its value and a scan that covers it.\<close>

definition finishes ::
  "(string \<Rightarrow> string) \<Rightarrow> target_arch \<Rightarrow> 'v list \<Rightarrow> string \<Rightarrow> (leaf \<Rightarrow> 'v \<Rightarrow> scanned_path \<Rightarrow> 'r resolved) \<Rightarrow>
     nat \<times> route_spec \<Rightarrow> 'r resolved \<Rightarrow> bool" where
  "finishes route_field arch values body finish irs result \<longleftrightarrow>
     (\<forall>cap path. scanned arch body cap path \<longrightarrow>
        length (path_segments body) \<le> cap \<or> length (spec_atoms (snd irs)) \<le> cap \<longrightarrow>
        finish (leaf_of route_field (fst irs) (spec_pair (snd irs))) (values ! fst irs) path = result)"

lemma finish_scanned_best:
  assumes "list_all wf_spec specs" "built_for route_field specs values r" "length values = length specs"
    and "scanned arch body cap path" "fits cap (path_segments body) specs"
    and "\<And>irs. best_route (rr_any_verb r) meth verb (path_segments body) specs = Some irs \<Longrightarrow>
      finishes route_field arch values body finish irs (result irs)"
  shows "finish_scanned r meth verb path finish =
    (case best_route (rr_any_verb r) meth verb (path_segments body) specs of
       None \<Rightarrow> Inr None
     | Some irs \<Rightarrow> try_bind (result irs) (\<lambda>x. Inr (Some x)))"
proof -
  let ?segs = "path_segments body"
  obtain tr where tr: "trie_holds tr (route_entries route_field 0 (spec_pairs specs))" "rr_root r = rt_of (trie_root tr)"
    using assms(2) by (auto simp: built_for_def)
  note d = descend_best [OF assms(1,4,5) tr(1), of "rr_any_verb r" meth verb]
  show ?thesis
  proof (cases "best_route (rr_any_verb r) meth verb ?segs specs")
    case None
    thus ?thesis using d tr(2) by (simp add: finish_scanned_def)
  next
    case (Some irs)
    obtain i rs where irs: "irs = (i, rs)" by (cases irs)
    hence in_specs: "i < length specs" "rs = specs ! i" using best_route_in Some by blast+
    hence "rs \<in> set specs" by simp
    hence "length ?segs \<le> cap \<or> length (spec_atoms rs) \<le> cap" using assms(5) by (auto simp: fits_def)
    hence "finish (leaf_of route_field i (spec_pair rs)) (values ! i) path = result irs"
      using assms(6) [OF Some] assms(4) irs by (auto simp: finishes_def)
    thus ?thesis using d tr(2) Some irs in_specs(1) assms(2,3)
      by (simp add: finish_scanned_def leaf_of_sel vec_get_def built_for_def)
  qed
qed

definition split_request :: "bool \<Rightarrow> string \<Rightarrow> string \<times> string option" where
  "split_request verbs path =
     (if \<not> verbs then (path, None)
      else case rposition (\<lambda>b. b = CHR '':'' \<or> b = CHR ''/'' \<or> b = CHR ''?'' \<or> b = CHR ''#'') path of
             None \<Rightarrow> (path, None)
           | Some i \<Rightarrow>
               if path ! i = CHR '':'' \<and> Suc i < length path then (take i path, Some (drop (Suc i) path))
               else (path, None))"

lemma rposition_Some:
  "rposition P xs = Some i \<Longrightarrow> i < length xs \<and> P (xs ! i) \<and> (\<forall>x \<in> set (drop (Suc i) xs). \<not> P x)"
proof (induction xs arbitrary: i)
  case (Cons x xs)
  have none: "rposition P ys = None \<Longrightarrow> \<forall>y \<in> set ys. \<not> P y" for ys
    by (induction ys) (auto split: option.splits if_splits)
  show ?case using Cons none [of xs] by (auto split: option.splits if_splits)
qed simp

lemma path_split_verb_eval: "is_str path \<Longrightarrow> path_split_verb path = Inr (split_request True path)"
proof -
  assume str: "is_str path"
  let ?P = "\<lambda>b. b = CHR '':'' \<or> b = CHR ''/'' \<or> b = CHR ''?'' \<or> b = CHR ''#''"
  show ?thesis
  proof (cases "rposition ?P path")
    case None
    thus ?thesis by (simp add: path_split_verb_def split_request_def)
  next
    case (Some i)
    hence i: "i < length path" using rposition_Some by blast
    show ?thesis
    proof (cases "path ! i = CHR '':''")
      case True
      have "path = take i path @ CHR '':'' # drop (Suc i) path" using i True by (metis id_take_nth_drop)
      then obtain body verb where p: "path = body @ CHR '':'' # verb" "i = length body"
        using i by (metis length_take min.absorb4)
      have "(str_slice path (Suc i) (length path) :: string resolved) = Inr verb"
        using str_slice_after [of body "CHR '':''" verb] str p by (simp add: is_ascii_def)
      moreover have "(str_slice path 0 i :: string resolved) = Inr body"
        using str_slice_upto [of "CHR '':''" body verb] p by (simp add: is_ascii_def)
      ultimately show ?thesis using Some True p by (simp add: path_split_verb_def split_request_def)
    next
      case False
      thus ?thesis using Some by (simp add: path_split_verb_def split_request_def)
    qed
  qed
qed

lemma split_request_cases:
  assumes "split_request verbs path = (body, verb)"
  obtains "body = path" | v where "path = body @ CHR '':'' # v" "\<forall>x \<in> set v. \<not> is_forbidden x"
proof -
  define P where "P b \<longleftrightarrow> b = CHR '':'' \<or> b = CHR ''/'' \<or> b = CHR ''?'' \<or> b = CHR ''#''" for b
  have P: "(\<lambda>b. b = CHR '':'' \<or> b = CHR ''/'' \<or> b = CHR ''?'' \<or> b = CHR ''#'') = P" by (simp add: P_def fun_eq_iff)
  show ?thesis
  proof (cases "body = path")
    case False
    then obtain i where i: "rposition P path = Some i" "path ! i = CHR '':''" "body = take i path"
      using assms unfolding split_request_def P by (simp split: if_splits option.splits)
    have "i < length path" "\<forall>x \<in> set (drop (Suc i) path). \<not> P x" using rposition_Some [OF i(1)] by simp_all
    thus ?thesis using that(2) [of "drop (Suc i) path"] id_take_nth_drop [of i path] i(2,3) by (simp add: P_def)
  qed (rule that(1))
qed

lemma split_request_body:
  assumes "split_request verbs path = (body, verb)" "is_str path"
  shows "is_str body" "(\<exists>b \<in> set body. is_forbidden b) \<longleftrightarrow> (\<exists>b \<in> set path. is_forbidden b)"
proof -
  show "is_str body"
    using assms(2) is_str_prefix by (cases rule: split_request_cases [OF assms(1)]) blast+
  show "(\<exists>b \<in> set body. is_forbidden b) \<longleftrightarrow> (\<exists>b \<in> set path. is_forbidden b)"
    by (cases rule: split_request_cases [OF assms(1)]) auto
qed

lemma resolve_scanned_best:
  assumes "list_all wf_spec specs" "built_for route_field specs values r" "length values = length specs"
    and "is_str path" "split_request (rr_any_verb r) path = (body, verb)"
    and "\<And>irs. best_route (rr_any_verb r) meth verb (path_segments body) specs = Some irs \<Longrightarrow>
      finishes route_field arch values body finish irs (result irs)"
  shows "resolve_scanned_checked arch r meth path finish =
    (if \<exists>b \<in> set path. is_forbidden b then Inl (Err InvalidPath)
     else case best_route (rr_any_verb r) meth verb (path_segments body) specs of
       None \<Rightarrow> Inr None
     | Some irs \<Rightarrow> try_bind (result irs) (\<lambda>x. Inr (Some x)))"
proof -
  let ?segs = "path_segments body" and ?max = "rr_max_segments r"
  let ?res = "case best_route (rr_any_verb r) meth verb ?segs specs of
       None \<Rightarrow> Inr None | Some irs \<Rightarrow> try_bind (result irs) (\<lambda>x. Inr (Some x))"
  note body = split_request_body [OF assms(5,4)]
  have split: "(if rr_any_verb r then path_split_verb path else Inr (path, None)) = Inr (body, verb)"
    using assms(5) path_split_verb_eval [OF assms(4)] by (auto simp: split_request_def)
  have fit: "fits cap ?segs specs" if "?max \<le> cap \<or> length ?segs \<le> cap" for cap
    using that assms(2) by (auto simp: fits_def built_for_def intro: order_trans)
  have sc: "scanned arch body cap (scan_path arch body starts ends)" if "length starts = cap" "length ends = cap" for cap starts ends
    using that body(1) by (auto simp: scanned_def)
  have valid: "\<not> sp_valid p \<longleftrightarrow> (\<exists>b \<in> set path. is_forbidden b)" if "scanned arch body cap p" for p cap
    using scanned_reads(3) [OF that] body(2) by blast
  have fin: "finish_scanned r meth verb p finish = ?res" if "scanned arch body cap p" "?max \<le> cap \<or> length ?segs \<le> cap" for p cap
    using finish_scanned_best [OF assms(1-3) that(1) fit [OF that(2)] assms(6)] .
  show ?thesis
  proof (cases "?max \<le> inline_segments")
    case True
    let ?p = "scan_path arch body (take ?max (replicate inline_segments 0)) (take ?max (replicate inline_segments 0))"
    have "scanned arch body ?max ?p" by (rule sc) (use True in simp_all)
    thus ?thesis using True valid fin
      by (simp add: resolve_scanned_checked_def split Let_def)
  next
    case False
    let ?p = "scan_path arch body (replicate inline_segments 0) (replicate inline_segments 0)"
    let ?cap = "min (length ?segs) ?max"
    let ?heap = "scan_path arch body (take ?cap (replicate (?cap * 2) 0)) (drop ?cap (replicate (?cap * 2) 0))"
    have p: "scanned arch body inline_segments ?p" by (rule sc) simp_all
    have heap: "scanned arch body ?cap ?heap" by (rule sc) simp_all
    have "finish_scanned r meth verb ?heap finish = ?res" by (rule fin [OF heap]) linarith
    moreover have "finish_scanned r meth verb ?p finish = ?res" if "\<not> uses_heap_offsets (sp_count ?p)"
      by (rule fin [OF p]) (use that scanned_reads(2) [OF p] in \<open>simp add: uses_heap_offsets_def\<close>)
    ultimately show ?thesis using False valid [OF p] scanned_reads(2) [OF p]
      by (simp add: resolve_scanned_checked_def resolve_with_heap_offsets_def split Let_def)
  qed
qed

lemma resolve_checked_best:
  assumes "list_all wf_spec specs" "built_for route_field specs values r" "length values = length specs"
    and "is_str path" "split_request (rr_any_verb r) path = (body, verb)"
  shows "resolve_checked arch r meth path =
    (if \<exists>b \<in> set path. is_forbidden b then Inl (Err InvalidPath)
     else Inr (map_option (match_of route_field values (path_segments body))
       (best_route (rr_any_verb r) meth verb (path_segments body) specs)))"
proof -
  let ?segs = "path_segments body"
  have fin: "finishes route_field arch values body (\<lambda>lf v path.
      try_bind (try_map (\<lambda>plan. materialize plan path) (leaf_vars lf)) (\<lambda>values.
        Inr \<lparr>rm_leaf = lf, rm_values = values, rm_value = v\<rparr>)) irs (Inr (match_of route_field values ?segs irs))"
    if best: "best_route (rr_any_verb r) meth verb ?segs specs = Some irs" for irs
  proof -
    obtain i rs where irs: "irs = (i, rs)" by (cases irs)
    hence in_specs: "i < length specs" "rs = specs ! i" "spec_accepts (rr_any_verb r) meth verb ?segs rs"
      using best_route_in best by blast+
    hence "wf_spec rs" "atoms_match ?segs (spec_atoms rs)" using assms(1) by (auto simp: list_all_iff spec_accepts_def)
    thus ?thesis using materialize_all irs by (simp add: finishes_def match_of_def)
  qed
  show ?thesis
    by (subst resolve_checked_def, subst resolve_scanned_best [OF assms fin])
      (simp_all split: option.split)
qed

lemma match_captures_match_of:
  "match_captures (match_of route_field values segs irs) =
     template_captures (template_segments (spec_template (snd irs))) segs"
proof -
  let ?t = "spec_template (snd irs)"
  have "map plan_key (leaf_vars (leaf_of route_field (fst irs) (spec_pair (snd irs)))) =
      map fst (template_captures (template_segments ?t) segs)"
    by (simp add: leaf_of_def comp_def plan_key_plan_of template_captures_keys [where i = 0 and segs = segs])
  thus ?thesis by (simp add: match_captures_def match_of_def zip_map_fst_snd)
qed

lemma find_enumerated_map_of:
  "length plans = length vals \<Longrightarrow>
     (case find_enumerated (\<lambda>plan. plan_key plan = name) i plans of
        None \<Rightarrow> None
      | Some (index, _) \<Rightarrow> if index - i < length vals then Some (vals ! (index - i)) else None) =
     map_of (zip (map plan_key plans) vals) name \<and>
     (\<forall>index plan. find_enumerated (\<lambda>plan. plan_key plan = name) i plans = Some (index, plan) \<longrightarrow> i \<le> index)"
proof (induction plans vals arbitrary: i rule: list_induct2)
  case (Cons plan plans v vals)
  show ?case
  proof (cases "plan_key plan = name")
    case False
    show ?thesis
    proof (cases "find_enumerated (\<lambda>plan. plan_key plan = name) (Suc i) plans")
      case None
      thus ?thesis using False Cons.IH [of "Suc i"] by simp
    next
      case (Some kx)
      obtain k x where kx: "kx = (k, x)" by (cases kx)
      hence "Suc i \<le> k" using Cons.IH [of "Suc i"] Some by simp
      then obtain j where "k = Suc (i + j)" by (metis le_iff_add add_Suc)
      thus ?thesis using False Some kx Cons.IH [of "Suc i"] by (cases "j < length vals") simp_all
    qed
  qed simp
qed simp

lemma match_capture_map_of:
  "length (leaf_vars (rm_leaf m)) = length (rm_values m) \<Longrightarrow> match_capture m name = map_of (match_captures m) name"
  using find_enumerated_map_of [of "leaf_vars (rm_leaf m)" "rm_values m" 0 name]
  unfolding match_capture_def match_captures_def diff_zero by simp

lemma match_of_lengths:
  "length (leaf_vars (rm_leaf (match_of route_field values segs irs))) = length (rm_values (match_of route_field values segs irs))"
  using arg_cong [OF template_captures_keys [of 0 "template_segments (spec_template (snd irs))" segs], of length]
  by (simp add: match_of_def leaf_of_def)

lemma match_of_sel:
  "match_name (match_of route_field values segs irs) = fst (snd irs)"
  "rm_value (match_of route_field values segs irs) = values ! fst irs"
  by (simp_all add: match_of_def match_name_def leaf_of_sel)

lemma force_verb_split_built:
  "built_for route_field specs values r \<Longrightarrow> built_for route_field specs values (force_verb_split force r)"
  by (auto simp: built_for_def force_verb_split_def)

lemma with_values_resolve:
  assumes "list_all wf_spec (map fst ents)" "is_str path"
    and "with_values route_field (map (\<lambda>e. (spec_route (fst e), snd e)) ents) = Inr r"
    and "verbs \<longleftrightarrow> force \<or> (\<exists>e \<in> set ents. template_verb (spec_template (fst e)) \<noteq> None)"
    and "split_request verbs path = (body, verb)"
  shows "resolve_checked arch (force_verb_split force r) meth path =
    (if \<exists>b \<in> set path. is_forbidden b then Inl (Err InvalidPath)
     else Inr (map_option (match_of route_field (map snd ents) (path_segments body))
       (best_route verbs meth verb (path_segments body) (map fst ents))))"
proof -
  obtain r' where r': "with_values route_field (map (\<lambda>e. (spec_route (fst e), snd e)) ents) = Inr r'"
    "built_for route_field (map fst ents) (map snd ents) r'"
    "rr_any_verb r' = (\<exists>e \<in> set ents. template_verb (spec_template (fst e)) \<noteq> None)"
    using with_values_built [OF assms(1), of route_field] by blast
  have "rr_any_verb (force_verb_split force r) = verbs"
    using r'(1,3) assms(3,4) by (auto simp: force_verb_split_def)
  thus ?thesis using resolve_checked_best [OF assms(1) force_verb_split_built [OF r'(2)], of path force body verb arch meth]
      assms(2,3,5) r'(1) by simp
qed

section \<open>Properties\<close>

text \<open>
  C29. Every route set builds: for routes made from parsed templates, with any values attached, building
  the trie, flattening it, ordering its edges and rebuilding it gives a resolver, no index, subtraction
  or \<open>expect\<close> fails, and the resolver splits verbs exactly if some template has one.
\<close>

theorem resolver_builds:
  assumes "list_all wf_spec (map fst ents)"
  shows "\<exists>r. with_values route_field (map (\<lambda>e. (spec_route (fst e), snd e)) ents) = Inr r \<and>
    splits_verbs r = (\<exists>e \<in> set ents. template_verb (spec_template (fst e)) \<noteq> None) \<and>
    rr_payloads r = map snd ents"
  by (rule with_values_built [OF assms, of route_field]) (auto simp: splits_verbs_def built_for_def)

theorem resolver_builds_witness:
  "\<exists>r. with_values id
     [(route_new ''Get'' ''GET'' \<lparr>template_segments = [Literal ''a'', Variable (variable_new ''x'' ''*'')],
        template_verb = Some ''go''\<rparr>, 7 :: nat)] = Inr r \<and> splits_verbs r \<and> rr_payloads r = [7]"
proof -
  let ?t = "\<lparr>template_segments = [Literal ''a'', Variable (variable_new ''x'' ''*'')], template_verb = Some ''go''\<rparr>"
  have "list_all wf_spec (map fst [((''Get'', ''GET'', ?t), 7 :: nat)])" by code_simp
  from resolver_builds [OF this, of id] show ?thesis by (simp add: spec_route_def spec_template_def)
qed

text \<open>
  C3. Resolution is the reference: for routes made from parsed templates, resolving a request fails
  exactly if its path has a query or fragment delimiter, and otherwise returns the route that comes
  first, in the order of registration, among the most specific routes that accept the method, the verb
  and the segments of the path, with its value and its captured texts. No step panics, whatever the
  number of segments, the architecture and whether verbs are split because of other route sources.
\<close>

theorem resolve_exact:
  assumes "list_all wf_spec (map fst ents)" "is_str path"
    and "with_values route_field (map (\<lambda>e. (spec_route (fst e), snd e)) ents) = Inr r"
    and "verbs \<longleftrightarrow> force \<or> (\<exists>e \<in> set ents. template_verb (spec_template (fst e)) \<noteq> None)"
    and "split_request verbs path = (body, verb)"
  shows "resolve_checked arch (force_verb_split force r) meth path =
    (if \<exists>b \<in> set path. is_forbidden b then Inl (Err InvalidPath)
     else Inr (map_option (match_of route_field (map snd ents) (path_segments body))
       (best_route verbs meth verb (path_segments body) (map fst ents))))"
  by (rule with_values_resolve [OF assms])

theorem resolve_exact_witness:
  "\<exists>r. with_values id
     [(route_new ''Any'' ''GET'' \<lparr>template_segments = [Variable (variable_new ''x'' ''*'')], template_verb = None\<rparr>, 1 :: nat),
      (route_new ''Img'' ''GET'' \<lparr>template_segments = [Affix ''v-'' ''n'' ''.x''], template_verb = None\<rparr>, 2)] = Inr r \<and>
     resolve_checked X86_64 r ''GET'' ''/v-7.x'' = Inr (Some
       \<lparr>rm_leaf = \<lparr>leaf_method = ''GET'', leaf_verb = None, leaf_name = ''Img'', leaf_vars = [PAffix ''n'' ''n'' 0 2 2],
          leaf_route_index = 1\<rparr>, rm_values = [''7''], rm_value = 2\<rparr>)"
proof -
  let ?any = "(''Any'', ''GET'', \<lparr>template_segments = [Variable (variable_new ''x'' ''*'')], template_verb = None\<rparr>)"
  let ?img = "(''Img'', ''GET'', \<lparr>template_segments = [Affix ''v-'' ''n'' ''.x''], template_verb = None\<rparr>)"
  let ?ents = "[(?any, 1 :: nat), (?img, 2)]"
  have wf: "list_all wf_spec (map fst ?ents)" by code_simp
  have str: "is_str ''/v-7.x''" by code_simp
  obtain r where r: "with_values id (map (\<lambda>e. (spec_route (fst e), snd e)) ?ents) = Inr r"
    using with_values_built [OF wf, of id] by blast
  have split: "split_request False ''/v-7.x'' = (''/v-7.x'', None)" by code_simp
  have verbs: "False \<longleftrightarrow> False \<or> (\<exists>e \<in> set ?ents. template_verb (spec_template (fst e)) \<noteq> None)"
    by (simp add: spec_template_def)
  have "best_route False ''GET'' None (path_segments ''/v-7.x'') (map fst ?ents) = Some (1, ?img)" by code_simp
  moreover have "match_of id (map snd ?ents) (path_segments ''/v-7.x'') (1, ?img) =
      \<lparr>rm_leaf = \<lparr>leaf_method = ''GET'', leaf_verb = None, leaf_name = ''Img'', leaf_vars = [PAffix ''n'' ''n'' 0 2 2],
          leaf_route_index = 1\<rparr>, rm_values = [''7''], rm_value = 2\<rparr>" by code_simp
  ultimately have "resolve_checked X86_64 r ''GET'' ''/v-7.x'' = Inr (Some
       \<lparr>rm_leaf = \<lparr>leaf_method = ''GET'', leaf_verb = None, leaf_name = ''Img'', leaf_vars = [PAffix ''n'' ''n'' 0 2 2],
          leaf_route_index = 1\<rparr>, rm_values = [''7''], rm_value = 2\<rparr>)"
    using resolve_exact [OF wf str r verbs split, of X86_64 "''GET''"] by (simp add: force_verb_split_def)
  thus ?thesis using r by (simp add: spec_route_def)
qed

text \<open>
  C30. What a match shows: its name, its value and its captures are those of the chosen route; the
  captures are, in the order of the template, the variables of the template with the texts of the
  segments they stand for, and looking up a variable by name finds its first capture.
\<close>

theorem resolve_captures:
  assumes "list_all wf_spec (map fst ents)" "is_str path"
    and "with_values route_field (map (\<lambda>e. (spec_route (fst e), snd e)) ents) = Inr r"
    and "resolve arch r meth path = Inr (Some m)"
    and "split_request (splits_verbs r) path = (body, verb)"
  shows "\<exists>i < length ents. match_name m = fst (fst (ents ! i)) \<and> rm_value m = snd (ents ! i) \<and>
    spec_accepts (splits_verbs r) meth verb (path_segments body) (fst (ents ! i)) \<and>
    match_captures m = template_captures (template_segments (spec_template (fst (ents ! i)))) (path_segments body) \<and>
    (\<forall>name. match_capture m name = map_of (match_captures m) name)"
proof -
  have r: "force_verb_split False r = r" by (simp add: force_verb_split_def)
  obtain r' where r': "with_values route_field (map (\<lambda>e. (spec_route (fst e), snd e)) ents) = Inr r'"
    "splits_verbs r' = (\<exists>e \<in> set ents. template_verb (spec_template (fst e)) \<noteq> None)"
    by (rule with_values_built [OF assms(1), of route_field]) (simp add: splits_verbs_def)
  hence "splits_verbs r \<longleftrightarrow> False \<or> (\<exists>e \<in> set ents. template_verb (spec_template (fst e)) \<noteq> None)"
    using assms(3) by simp
  note res = with_values_resolve [OF assms(1-3) this assms(5), of arch meth, unfolded r]
  obtain irs where irs: "best_route (splits_verbs r) meth verb (path_segments body) (map fst ents) = Some irs"
    "m = match_of route_field (map snd ents) (path_segments body) irs"
    using assms(4) unfolding resolve_def res by (auto split: if_splits)
  have i: "fst irs < length ents" "snd irs = fst (ents ! fst irs)"
      "spec_accepts (splits_verbs r) meth verb (path_segments body) (snd irs)"
    using best_route_in [of "splits_verbs r" meth verb "path_segments body" "map fst ents" "fst irs" "snd irs"] irs(1)
    by auto
  show ?thesis
    using i unfolding irs(2)
    by (intro exI [of _ "fst irs"])
       (simp add: match_of_sel match_capture_map_of [OF match_of_lengths] match_captures_match_of)
qed

theorem resolve_captures_witness:
  "\<exists>r m. with_values id
     [(route_new ''Sub'' ''GET'' \<lparr>template_segments = [Literal ''a'', Variable (variable_new ''x'' ''b/**'')],
         template_verb = None\<rparr>, 5 :: nat)] = Inr r \<and>
     resolve Aarch64 r ''GET'' ''/a/b/c/d'' = Inr (Some m) \<and> match_capture m ''x'' = Some ''b/c/d'' \<and> rm_value m = 5"
proof -
  let ?sub = "(''Sub'', ''GET'', \<lparr>template_segments = [Literal ''a'', Variable (variable_new ''x'' ''b/**'')],
         template_verb = None\<rparr>)"
  let ?ents = "[(?sub, 5 :: nat)]"
  have wf: "list_all wf_spec (map fst ?ents)" by code_simp
  have str: "is_str ''/a/b/c/d''" by code_simp
  obtain r where r: "with_values id (map (\<lambda>e. (spec_route (fst e), snd e)) ?ents) = Inr r"
    using with_values_built [OF wf, of id] by blast
  have verbs: "False \<longleftrightarrow> False \<or> (\<exists>e \<in> set ?ents. template_verb (spec_template (fst e)) \<noteq> None)"
    by (simp add: spec_template_def)
  have split: "split_request False ''/a/b/c/d'' = (''/a/b/c/d'', None)" by code_simp
  have segs: "path_segments ''/a/b/c/d'' = [''a'', ''b'', ''c'', ''d'']" by code_simp
  have "best_route False ''GET'' None [''a'', ''b'', ''c'', ''d''] (map fst ?ents) = Some (0, ?sub)" by code_simp
  then obtain m where m: "resolve Aarch64 r ''GET'' ''/a/b/c/d'' = Inr (Some m)"
    using with_values_resolve [OF wf str r verbs split, of Aarch64 "''GET''"]
    by (simp add: resolve_def segs force_verb_split_def)
  have "\<not> splits_verbs r"
    by (rule with_values_built [OF wf, of id]) (use r in \<open>simp add: splits_verbs_def spec_template_def\<close>)
  hence split': "split_request (splits_verbs r) ''/a/b/c/d'' = (''/a/b/c/d'', None)" using split by simp
  have "template_captures (template_segments (spec_template ?sub)) [''a'', ''b'', ''c'', ''d''] = [(''x'', ''b/c/d'')]"
    by code_simp
  thus ?thesis using resolve_captures [OF wf str r m split'] r m by (auto simp: segs spec_route_def)
qed

end
