(* ===== verification/Rust_Utf8.thy ===== *)
theory Rust_Utf8
  imports Rust_Str
begin

text \<open>
  UTF-8 as \<open>String::from_utf8\<close> checks it: the well-formed byte sequences of the Unicode standard.
  Every \<open>&str\<close> satisfies \<open>valid_utf8\<close>. Also hexadecimal digits and machine additions, which the percent
  codecs share.

  \<^item> A valid string never has a stray continuation byte (\<open>valid_utf8_is_str\<close>).
  \<^item> Validity is decided piece by piece around an ASCII byte (\<open>valid_utf8_at_ascii\<close>).
\<close>

section \<open>Well-formed byte sequences\<close>

text \<open>The second byte of a sequence of three or four bytes, by its first byte.\<close>

definition utf8_second :: "char \<Rightarrow> char \<Rightarrow> bool" where
  "utf8_second a b =
     (if of_char a = (0xE0 :: nat) then byte_in 0xA0 0xBF b
      else if of_char a = (0xED :: nat) then byte_in 0x80 0x9F b
      else if of_char a = (0xF0 :: nat) then byte_in 0x90 0xBF b
      else if of_char a = (0xF4 :: nat) then byte_in 0x80 0x8F b
      else is_continuation b)"

fun valid_utf8 :: "string \<Rightarrow> bool" where
  "valid_utf8 [] = True"
| "valid_utf8 (a # bs) =
     (if is_ascii a then valid_utf8 bs
      else if byte_in 0xC2 0xDF a
      then (case bs of b # cs \<Rightarrow> is_continuation b \<and> valid_utf8 cs | [] \<Rightarrow> False)
      else if byte_in 0xE0 0xEF a
      then (case bs of b # c # ds \<Rightarrow> utf8_second a b \<and> is_continuation c \<and> valid_utf8 ds | _ \<Rightarrow> False)
      else if byte_in 0xF0 0xF4 a
      then (case bs of b # c # d # es \<Rightarrow>
              utf8_second a b \<and> is_continuation c \<and> is_continuation d \<and> valid_utf8 es
            | _ \<Rightarrow> False)
      else False)"

lemma utf8_second_continuation: "utf8_second a b \<Longrightarrow> is_continuation b"
  by (auto simp: utf8_second_def is_continuation_def split: if_splits)

lemma continuation_not_ascii: "is_continuation c \<Longrightarrow> \<not> is_ascii c"
  using is_ascii_not_continuation by blast

lemma valid_utf8_ascii: "list_all is_ascii s \<Longrightarrow> valid_utf8 s"
  by (induction s) simp_all

text \<open>A string is one ASCII byte or one longer sequence, followed by a string.\<close>

definition utf8_sequence :: "string \<Rightarrow> bool" where
  "utf8_sequence s =
     (case s of
        [a, b] \<Rightarrow> byte_in 0xC2 0xDF a \<and> is_continuation b
      | [a, b, c] \<Rightarrow> byte_in 0xE0 0xEF a \<and> utf8_second a b \<and> is_continuation c
      | [a, b, c, d] \<Rightarrow>
          byte_in 0xF0 0xF4 a \<and> utf8_second a b \<and> is_continuation c \<and> is_continuation d
      | _ \<Rightarrow> False)"

lemma utf8_sequence_cases:
  assumes "utf8_sequence s"
  obtains a b where "s = [a, b]" "byte_in 0xC2 0xDF a" "is_continuation b"
  | a b c where "s = [a, b, c]" "byte_in 0xE0 0xEF a" "utf8_second a b" "is_continuation c"
  | a b c d where "s = [a, b, c, d]" "byte_in 0xF0 0xF4 a" "utf8_second a b" "is_continuation c"
      "is_continuation d"
  using assms by (auto simp: utf8_sequence_def split: list.splits)

lemma valid_utf8_sequence: "utf8_sequence s \<Longrightarrow> valid_utf8 (s @ r) = valid_utf8 r"
  by (erule utf8_sequence_cases) (auto simp: is_ascii_def)

lemma utf8_sequence_non_ascii: "utf8_sequence s \<Longrightarrow> c \<in> set s \<Longrightarrow> \<not> is_ascii c"
  by (erule utf8_sequence_cases)
     (auto simp: is_ascii_def dest!: utf8_second_continuation continuation_not_ascii)

lemma valid_utf8_uncons:
  assumes "valid_utf8 s"
  obtains "s = []" | a r where "s = a # r" "is_ascii a" "valid_utf8 r"
  | q r where "s = q @ r" "utf8_sequence q" "valid_utf8 r"
proof (cases s)
  case (Cons a bs)
  show ?thesis
  proof (cases "is_ascii a")
    case True
    thus ?thesis using that(2) [of a bs] assms Cons by simp
  next
    case na: False
    consider "byte_in 0xC2 0xDF a" | "byte_in 0xE0 0xEF a" | "byte_in 0xF0 0xF4 a"
      using assms Cons na by (auto split: if_splits)
    thus ?thesis
    proof cases
      case 1
      then obtain b cs where "bs = b # cs" "is_continuation b" "valid_utf8 cs"
        using assms Cons na by (auto split: list.splits)
      thus ?thesis using that(3) [of "[a, b]" cs] Cons 1 by (simp add: utf8_sequence_def)
    next
      case 2
      then obtain b c ds where "bs = b # c # ds" "utf8_second a b" "is_continuation c" "valid_utf8 ds"
        using assms Cons na by (auto split: list.splits)
      thus ?thesis using that(3) [of "[a, b, c]" ds] Cons 2 by (simp add: utf8_sequence_def)
    next
      case 3
      then obtain b c d es where "bs = b # c # d # es" "utf8_second a b" "is_continuation c"
          "is_continuation d" "valid_utf8 es"
        using assms Cons na by (auto split: list.splits)
      thus ?thesis using that(3) [of "[a, b, c, d]" es] Cons 3 by (simp add: utf8_sequence_def)
    qed
  qed
qed (use that(1) in blast)

lemma utf8_sequence_not_Nil: "utf8_sequence q \<Longrightarrow> q \<noteq> []"
  by (auto simp: utf8_sequence_def)

lemma valid_utf8_append: "valid_utf8 xs \<Longrightarrow> valid_utf8 (xs @ ys) = valid_utf8 ys"
proof (induction xs rule: length_induct)
  case (1 xs)
  show ?case using 1(2)
  proof (cases rule: valid_utf8_uncons)
    case (2 a r)
    thus ?thesis using 1 by simp
  next
    case (3 q r)
    thus ?thesis using 1 utf8_sequence_not_Nil [of q] by (simp add: valid_utf8_sequence)
  qed simp
qed

text \<open>An ASCII byte is never inside a longer sequence.\<close>

lemma valid_utf8_before_ascii:
  "valid_utf8 (xs @ x # ys) \<Longrightarrow> is_ascii x \<Longrightarrow> valid_utf8 xs"
proof (induction xs rule: length_induct)
  case (1 xs)
  show ?case using 1(2)
  proof (cases rule: valid_utf8_uncons)
    case (2 a r)
    thus ?thesis using 1 by (cases xs) auto
  next
    case (3 q r)
    have "length q \<le> length xs"
    proof (rule ccontr)
      assume "\<not> length q \<le> length xs"
      then obtain us where "us \<noteq> []" "q = xs @ us" "x # ys = us @ r"
        using 3(1) by (auto simp: append_eq_append_conv2)
      hence "x \<in> set q" by (cases us) auto
      thus False using utf8_sequence_non_ascii [OF 3(2)] 1(3) by blast
    qed
    then obtain xs' where xs: "xs = q @ xs'" "r = xs' @ x # ys"
      using 3(1) by (auto simp: append_eq_append_conv2)
    hence "valid_utf8 xs'" using 1 3 utf8_sequence_not_Nil [of q] by simp
    thus ?thesis using xs 3(2) by (simp add: valid_utf8_sequence)
  qed simp
qed

lemma valid_utf8_at_ascii:
  "is_ascii x \<Longrightarrow> valid_utf8 (xs @ x # ys) \<longleftrightarrow> valid_utf8 xs \<and> valid_utf8 ys"
  using valid_utf8_before_ascii [of xs x ys] valid_utf8_append [of xs "x # ys"] by auto

lemma valid_utf8_is_str: "valid_utf8 s \<Longrightarrow> is_str s"
proof (induction s rule: length_induct)
  case (1 s)
  show ?case using 1(2)
  proof (cases rule: valid_utf8_uncons)
    case (2 a r)
    thus ?thesis using 1 by (simp add: is_str_def)
  next
    case (3 q r)
    have r: "no_stray_continuation False r"
    proof (rule no_stray_continuation_weaken [of True])
      show "no_stray_continuation True r"
        using 1 3 utf8_sequence_not_Nil [of q] by (simp add: is_str_def)
    qed
    show ?thesis using 3(2)
    proof (cases rule: utf8_sequence_cases)
      case (1 a b)
      thus ?thesis using 3(1) r continuation_not_ascii [of b]
        by (auto simp: is_str_def is_ascii_def [of a] is_continuation_def [of a])
    next
      case (2 a b c)
      thus ?thesis using 3(1) r continuation_not_ascii [of b] continuation_not_ascii [of c]
          utf8_second_continuation [of a b]
        by (auto simp: is_str_def is_ascii_def [of a] is_continuation_def [of a])
    next
      case (3 a b c d)
      thus ?thesis using \<open>s = q @ r\<close> r continuation_not_ascii [of b] continuation_not_ascii [of c]
          continuation_not_ascii [of d] utf8_second_continuation [of a b]
        by (auto simp: is_str_def is_ascii_def [of a] is_continuation_def [of a])
    qed
  qed simp
qed

section \<open>Hexadecimal digits\<close>

definition hex :: "char \<Rightarrow> nat option" where
  "hex b =
     (if byte_in 48 57 b then Some (of_char b - 48)
      else if byte_in 97 102 b then Some (of_char b - 97 + 10)
      else if byte_in 65 70 b then Some (of_char b - 65 + 10)
      else None)"

lemma hex_is_ascii: "hex b = Some v \<Longrightarrow> is_ascii b"
  by (auto simp: hex_def is_ascii_def split: if_splits)

lemma hex_less: "hex b = Some v \<Longrightarrow> v < 16"
  by (auto simp: hex_def split: if_splits)

section \<open>Machine additions\<close>

definition usize_max :: nat where
  "usize_max = 2 ^ 64 - 1"

text \<open>The length of every slice is at most \<open>isize::MAX\<close>.\<close>

definition isize_max :: nat where
  "isize_max = 2 ^ 63 - 1"

definition checked_add :: "nat \<Rightarrow> nat \<Rightarrow> nat option" where
  "checked_add a b = (if a + b \<le> usize_max then Some (a + b) else None)"

text \<open>The operator \<open>+\<close>, which panics on overflow.\<close>

definition usize_add :: "nat \<Rightarrow> nat \<Rightarrow> ('e, nat) result" where
  "usize_add a b =
     (case checked_add a b of Some c \<Rightarrow> Inr c
      | None \<Rightarrow> Inl (Panicked ''attempt to add with overflow''))"

lemma usize_add_Inr: "a + b \<le> usize_max \<Longrightarrow> usize_add a b = Inr (a + b)"
  by (simp add: usize_add_def checked_add_def)

lemma usize_max_isize: "usize_max = 2 * isize_max + 1"
  by (simp add: usize_max_def isize_max_def)

lemma isize_max_pos: "8 \<le> isize_max"
  by (simp add: isize_max_def)

end
