(* ===== verification/Query_Scan.thy ===== *)
theory Query_Scan
  imports Path_Template Router_Scan Rust_Utf8
begin

text \<open>
  The byte searches of the query parser (\<open>routerama/src/query/scan.rs\<close>): the scalar searches, their
  SSE2 and NEON versions and the choice between them. \<open>WIDE\<close> is a boolean argument and the target
  architecture is the argument \<open>arch\<close>. The vector operations are those of \<open>Router_Scan\<close>.

  Both vector loops satisfy the interface \<open>byte_finder\<close> or \<open>byte_tester\<close>, so both choices equal the scalar
  search (\<open>find_byte_position\<close>, \<open>contains_either_any\<close>).
\<close>

unbundle bit_operations_syntax

section \<open>Searches\<close>

definition SIMD_THRESHOLD :: nat where
  "SIMD_THRESHOLD = 32"

definition find_byte_scalar :: "string \<Rightarrow> char \<Rightarrow> nat option" where
  "find_byte_scalar bytes needle = position needle bytes"

definition contains_either_scalar :: "string \<Rightarrow> char \<Rightarrow> char \<Rightarrow> bool" where
  "contains_either_scalar bytes one two = list_ex (\<lambda>byte. byte = one \<or> byte = two) bytes"

function find_byte_sse2_from :: "nat \<Rightarrow> string \<Rightarrow> char \<Rightarrow> nat option" where
  "find_byte_sse2_from offset bytes needle =
     (if offset + 16 \<le> length bytes
      then let m = movemask (\<lambda>b. b = needle) (vector_load bytes offset)
           in if m \<noteq> 0 then Some (offset + trailing_zeros m)
              else find_byte_sse2_from (offset + 16) bytes needle
      else map_option (\<lambda>index. offset + index) (find_byte_scalar (drop offset bytes) needle))"
  by pat_completeness auto
termination
  by (relation "measure (\<lambda>(offset, bytes, _). length bytes - offset)") auto

declare find_byte_sse2_from.simps [simp del]

definition find_byte_sse2 :: "string \<Rightarrow> char \<Rightarrow> nat option" where
  "find_byte_sse2 bytes needle = find_byte_sse2_from 0 bytes needle"

text \<open>\<open>_mm_movemask_epi8\<close> of an \<open>_mm_or_si128\<close> is the disjunction of the two masks.\<close>

function contains_either_sse2_from :: "nat \<Rightarrow> string \<Rightarrow> char \<Rightarrow> char \<Rightarrow> bool" where
  "contains_either_sse2_from offset bytes one two =
     (if offset + 16 \<le> length bytes
      then let chunk = vector_load bytes offset;
               m = movemask (\<lambda>b. b = one) chunk OR movemask (\<lambda>b. b = two) chunk
           in if m \<noteq> 0 then True else contains_either_sse2_from (offset + 16) bytes one two
      else contains_either_scalar (drop offset bytes) one two)"
  by pat_completeness auto
termination
  by (relation "measure (\<lambda>(offset, bytes, _). length bytes - offset)") auto

declare contains_either_sse2_from.simps [simp del]

definition contains_either_sse2 :: "string \<Rightarrow> char \<Rightarrow> char \<Rightarrow> bool" where
  "contains_either_sse2 bytes one two = contains_either_sse2_from 0 bytes one two"

function find_byte_neon_from :: "nat \<Rightarrow> string \<Rightarrow> char \<Rightarrow> nat option" where
  "find_byte_neon_from offset bytes needle =
     (if offset + 16 \<le> length bytes
      then let m = nibble_mask (\<lambda>b. b = needle) (vector_load bytes offset)
           in if m \<noteq> 0 then Some (offset + drop_bit 2 (trailing_zeros m))
              else find_byte_neon_from (offset + 16) bytes needle
      else map_option (\<lambda>index. offset + index) (find_byte_scalar (drop offset bytes) needle))"
  by pat_completeness auto
termination
  by (relation "measure (\<lambda>(offset, bytes, _). length bytes - offset)") auto

declare find_byte_neon_from.simps [simp del]

definition find_byte_neon :: "string \<Rightarrow> char \<Rightarrow> nat option" where
  "find_byte_neon bytes needle = find_byte_neon_from 0 bytes needle"

text \<open>\<open>vmaxvq_u8\<close>, the largest lane.\<close>

definition vmaxvq :: "u8 list \<Rightarrow> u8" where
  "vmaxvq lanes = foldr max lanes 0"

function contains_either_neon_from :: "nat \<Rightarrow> string \<Rightarrow> char \<Rightarrow> char \<Rightarrow> bool" where
  "contains_either_neon_from offset bytes one two =
     (if offset + 16 \<le> length bytes
      then let chunk = vector_load bytes offset;
               matched = vmaxvq (map2 (OR) (vceqq (\<lambda>b. b = one) chunk) (vceqq (\<lambda>b. b = two) chunk))
           in if matched \<noteq> 0 then True else contains_either_neon_from (offset + 16) bytes one two
      else contains_either_scalar (drop offset bytes) one two)"
  by pat_completeness auto
termination
  by (relation "measure (\<lambda>(offset, bytes, _). length bytes - offset)") auto

declare contains_either_neon_from.simps [simp del]

definition contains_either_neon :: "string \<Rightarrow> char \<Rightarrow> char \<Rightarrow> bool" where
  "contains_either_neon bytes one two = contains_either_neon_from 0 bytes one two"

definition find_byte :: "target_arch \<Rightarrow> bool \<Rightarrow> string \<Rightarrow> char \<Rightarrow> nat option" where
  "find_byte arch wide bytes needle =
     (if wide \<and> SIMD_THRESHOLD \<le> length bytes
      then (case arch of
              X86_64 \<Rightarrow> find_byte_sse2 bytes needle
            | Aarch64 \<Rightarrow> find_byte_neon bytes needle
            | Other_arch \<Rightarrow> find_byte_scalar bytes needle)
      else find_byte_scalar bytes needle)"

definition contains_either :: "target_arch \<Rightarrow> bool \<Rightarrow> string \<Rightarrow> char \<Rightarrow> char \<Rightarrow> bool" where
  "contains_either arch wide bytes one two =
     (if wide \<and> SIMD_THRESHOLD \<le> length bytes
      then (case arch of
              X86_64 \<Rightarrow> contains_either_sse2 bytes one two
            | Aarch64 \<Rightarrow> contains_either_neon bytes one two
            | Other_arch \<Rightarrow> contains_either_scalar bytes one two)
      else contains_either_scalar bytes one two)"

section \<open>The vector loops are the scalar searches\<close>

lemma map_option_add_0 [simp]: "map_option ((+) (0 :: nat)) x = x"
  by (cases x) simp_all

lemma position_append_miss:
  "c \<notin> set xs \<Longrightarrow> position c (xs @ ys) = map_option ((+) (length xs)) (position c ys)"
  by (induction xs; cases "position c ys") auto

lemma position_append_hit: "c \<in> set xs \<Longrightarrow> position c (xs @ ys) = position c xs"
  by (induction xs) auto

lemma position_nth:
  "position c xs = Some i \<longleftrightarrow> i < length xs \<and> xs ! i = c \<and> (\<forall>j < i. xs ! j \<noteq> c)"
proof (induction xs arbitrary: i)
  case (Cons x xs)
  show ?case by (cases i) (auto simp: Cons less_Suc_eq_0_disj)
qed simp

locale byte_finder =
  fixes search :: "nat \<Rightarrow> string \<Rightarrow> char \<Rightarrow> nat option"
    and vmask :: "(char \<Rightarrow> bool) \<Rightarrow> string \<Rightarrow> 'a::len word"
    and lane :: "nat \<Rightarrow> nat"
  assumes search_unfold: "search offset bytes c =
      (if offset + 16 \<le> length bytes
       then let m = vmask (\<lambda>b. b = c) (vector_load bytes offset)
            in if m \<noteq> 0 then Some (offset + lane (trailing_zeros m)) else search (offset + 16) bytes c
       else map_option (\<lambda>index. offset + index) (find_byte_scalar (drop offset bytes) c))"
    and mask_bits: "length chunk = 16 \<Longrightarrow>
      bit (vmask P chunk) j \<longleftrightarrow> lane j < 16 \<and> P (chunk ! lane j)"
    and lane_mono: "i \<le> j \<Longrightarrow> lane i \<le> lane j"
    and lane_onto: "k < 16 \<Longrightarrow> \<exists>j < LENGTH('a). lane j = k"
begin

lemma mask_hit:
  assumes "length chunk = 16" "vmask (\<lambda>b. b = c) chunk \<noteq> 0"
  shows "position c chunk = Some (lane (trailing_zeros (vmask (\<lambda>b. b = c) chunk)))"
proof -
  let ?m = "vmask (\<lambda>b. b = c) chunk"
  note low = trailing_zeros_bit [OF assms(2)]
  have "chunk ! k \<noteq> c" if k: "k < lane (trailing_zeros ?m)" for k
  proof
    assume "chunk ! k = c"
    have "lane (trailing_zeros ?m) < 16" using low(2) mask_bits [OF assms(1)] by blast
    then obtain j where j: "j < LENGTH('a)" "lane j = k" using lane_onto [of k] k by auto
    have "\<not> trailing_zeros ?m \<le> j" using lane_mono [of "trailing_zeros ?m" j] j(2) k by linarith
    hence "\<not> bit ?m j" using low(3) by simp
    moreover have "k < 16" using k low(2) mask_bits [OF assms(1)] by (metis less_trans)
    ultimately show False using j(2) \<open>chunk ! k = c\<close> mask_bits [OF assms(1)] by blast
  qed
  thus ?thesis using low(2) mask_bits [OF assms(1), of "\<lambda>b. b = c"] assms(1) by (simp add: position_nth)
qed

lemma mask_miss:
  assumes "length chunk = 16" "vmask (\<lambda>b. b = c) chunk = 0"
  shows "c \<notin> set chunk"
proof
  assume "c \<in> set chunk"
  then obtain k where k: "k < 16" "chunk ! k = c" using assms(1) by (metis in_set_conv_nth)
  obtain j where "lane j = k" using lane_onto [of k] k(1) by auto
  hence "bit (vmask (\<lambda>b. b = c) chunk) j" using mask_bits [OF assms(1)] k by simp
  thus False using assms(2) by simp
qed

lemma search_position: "search offset bytes c = map_option ((+) offset) (position c (drop offset bytes))"
proof (induction "length bytes - offset" arbitrary: offset rule: less_induct)
  case less
  show ?case
  proof (cases "offset + 16 \<le> length bytes")
    case True
    let ?chunk = "vector_load bytes offset"
    note len = length_vector_load [OF True] and split = drop_vector_load [OF True]
    show ?thesis
    proof (cases "vmask (\<lambda>b. b = c) ?chunk = 0")
      case m: True
      have "search (offset + 16) bytes c = map_option ((+) (offset + 16)) (position c (drop (offset + 16) bytes))"
        using less [of "offset + 16"] True by simp
      moreover have "((+) offset \<circ> (+) 16) = (+) (offset + 16)" by (simp add: fun_eq_iff)
      ultimately show ?thesis
        using True m search_unfold [of offset bytes c] mask_miss [OF len m] len
        unfolding split by (simp add: position_append_miss option.map_comp)
    next
      case m: False
      have "c \<in> set ?chunk" using mask_hit [OF len m] position_None [of c ?chunk] by auto
      thus ?thesis using True m search_unfold [of offset bytes c] mask_hit [OF len m]
        unfolding split by (simp add: position_append_hit)
    qed
  next
    case False
    thus ?thesis using search_unfold [of offset bytes c] by (simp add: find_byte_scalar_def)
  qed
qed

end

interpretation sse2_find: byte_finder find_byte_sse2_from movemask "\<lambda>j. j"
proof
  show "bit (movemask P chunk) j \<longleftrightarrow> j < 16 \<and> P (chunk ! j)" if "length chunk = 16" for chunk P j
    using that by (simp add: bit_movemask)
  show "\<exists>j < LENGTH(32). j = k" if "k < 16" for k :: nat
    using that by simp
qed (subst find_byte_sse2_from.simps, simp_all)

interpretation neon_find: byte_finder find_byte_neon_from nibble_mask "drop_bit 2"
proof
  show "bit (nibble_mask P chunk) j \<longleftrightarrow> drop_bit 2 j < 16 \<and> P (chunk ! drop_bit 2 j)"
    if "length chunk = 16" for chunk P j
    using that by (auto simp: bit_nibble_mask drop_bit_eq_div)
  show "\<exists>j < LENGTH(64). drop_bit 2 j = k" if "k < 16" for k :: nat
    using that by (intro exI [of _ "4 * k"]) (simp add: drop_bit_eq_div)
qed (subst find_byte_neon_from.simps, simp_all add: drop_bit_eq_div div_le_mono)

lemma find_byte_position: "find_byte arch wide bytes c = position c bytes"
  by (simp add: find_byte_def find_byte_sse2_def find_byte_neon_def find_byte_scalar_def
      sse2_find.search_position neon_find.search_position option.map_ident split: target_arch.split)

locale byte_tester =
  fixes test :: "nat \<Rightarrow> string \<Rightarrow> char \<Rightarrow> char \<Rightarrow> bool"
    and hit :: "string \<Rightarrow> char \<Rightarrow> char \<Rightarrow> bool"
  assumes test_unfold: "test offset bytes a b =
      (if offset + 16 \<le> length bytes
       then hit (vector_load bytes offset) a b \<or> test (offset + 16) bytes a b
       else contains_either_scalar (drop offset bytes) a b)"
    and hit_any: "length chunk = 16 \<Longrightarrow> hit chunk a b \<longleftrightarrow> contains_either_scalar chunk a b"
begin

lemma test_any: "test offset bytes a b = contains_either_scalar (drop offset bytes) a b"
proof (induction "length bytes - offset" arbitrary: offset rule: less_induct)
  case less
  show ?case
  proof (cases "offset + 16 \<le> length bytes")
    case True
    have "test (offset + 16) bytes a b = contains_either_scalar (drop (offset + 16) bytes) a b"
      using less [of "offset + 16"] True by simp
    thus ?thesis
      using True test_unfold [of offset bytes a b] hit_any [OF length_vector_load [OF True], of a b]
      unfolding drop_vector_load [OF True] by (simp add: contains_either_scalar_def)
  qed (simp add: test_unfold)
qed

end

lemma vmaxvq_0: "vmaxvq lanes = 0 \<longleftrightarrow> (\<forall>l \<in> set lanes. l = 0)"
  by (induction lanes) (auto simp: vmaxvq_def max_def word_le_0_iff)

lemma or_eq_0_word: "(a :: 'a::len word) OR b = 0 \<longleftrightarrow> a = 0 \<and> b = 0"
  by (auto simp: bit_eq_iff bit_or_iff)

interpretation sse2_test: byte_tester contains_either_sse2_from
  "\<lambda>chunk a b. movemask (\<lambda>x. x = a) chunk OR movemask (\<lambda>x. x = b) chunk \<noteq> 0"
proof
  show "movemask (\<lambda>x. x = a) chunk OR movemask (\<lambda>x. x = b) chunk \<noteq> 0 \<longleftrightarrow> contains_either_scalar chunk a b"
    if "length chunk = 16" for chunk a b
    using that by (auto simp: or_eq_0_word movemask_0 contains_either_scalar_def list_ex_iff)
qed (subst contains_either_sse2_from.simps, simp add: Let_def)

lemma vceqq_or_hit:
  "vmaxvq (map2 (OR) (vceqq (\<lambda>x. x = a) chunk) (vceqq (\<lambda>x. x = b) chunk)) \<noteq> 0 \<longleftrightarrow>
     contains_either_scalar chunk a b"
  unfolding vmaxvq_0 contains_either_scalar_def by (induction chunk) (auto simp: vceqq_def)

interpretation neon_test: byte_tester contains_either_neon_from
  "\<lambda>chunk a b. vmaxvq (map2 (OR) (vceqq (\<lambda>x. x = a) chunk) (vceqq (\<lambda>x. x = b) chunk)) \<noteq> 0"
proof
  show "contains_either_neon_from offset bytes a b =
      (if offset + 16 \<le> length bytes
       then vmaxvq (map2 (OR) (vceqq (\<lambda>x. x = a) (vector_load bytes offset))
              (vceqq (\<lambda>x. x = b) (vector_load bytes offset))) \<noteq> 0 \<or>
            contains_either_neon_from (offset + 16) bytes a b
       else contains_either_scalar (drop offset bytes) a b)" for offset bytes a b
    by (subst contains_either_neon_from.simps) (simp add: Let_def)
qed (rule vceqq_or_hit)

lemma contains_either_any:
  "contains_either arch wide bytes a b \<longleftrightarrow> a \<in> set bytes \<or> b \<in> set bytes"
proof -
  have "contains_either arch wide bytes a b = contains_either_scalar bytes a b"
    by (simp add: contains_either_def contains_either_sse2_def contains_either_neon_def
        sse2_test.test_any neon_test.test_any split: target_arch.split)
  thus ?thesis by (auto simp: contains_either_scalar_def list_ex_iff)
qed

end
