(* ===== verification/Query_Parser.thy ===== *)
theory Query_Parser
  imports Query_Scan
begin

text \<open>
  Parsing of query strings in the crate \<open>routerama\<close> (\<open>query/error.rs\<close>, \<open>query/error_kind.rs\<close>,
  \<open>query/query_limits.rs\<close>, \<open>query/decoded.rs\<close>, \<open>query/parser.rs\<close>, \<open>query/from_query.rs\<close>,
  \<open>query/query_decoder.rs\<close>, \<open>query/decode_fields.rs\<close>).

  A \<open>usize\<close> is a natural number; every addition of the source is \<open>usize_add\<close> or \<open>checked_add\<close>, so overflow is
  a branch of the model. \<open>decoded\<close> is \<open>Cow<str>\<close>. A \<open>&mut usize\<close> argument is an argument and a result; a
  parser that failed is not used again, so an error carries no state. The implementation of
  \<open>DecodeFields\<close> for a type, which the derive macro generates, is a value of \<open>query_decoder\<close>.

  The reference \<open>run_pairs\<close> splits the query at \<open>&\<close>, each piece at its first \<open>=\<close>, and decodes the two
  components with \<open>percent_decode\<close>. The parser, with fused scalar scans or vector searches, with a
  separate loop for ASCII escapes, and with offsets into the whole query, equals it
  (\<open>from_query_exact\<close>).
\<close>

section \<open>Errors and limits\<close>

datatype error_kind =
  QueryTooLong | TooManyPairs | DecodedTooLong | TooManyValues | InvalidEncoding | InvalidUtf8
| BorrowRequired | Missing | Duplicate | InvalidValue | UnknownParameter | AmbiguousParameter
| TooLong | Output | Format

record query_error =
  qe_parameter :: "string option"
  qe_pair_offset :: "nat option"
  qe_kind :: error_kind

type_synonym 'a queried = "(query_error, 'a) result"

definition error_parsing :: "string option \<Rightarrow> nat \<Rightarrow> error_kind \<Rightarrow> query_error" where
  "error_parsing parameter pair_offset kind =
     \<lparr>qe_parameter = parameter, qe_pair_offset = Some pair_offset, qe_kind = kind\<rparr>"

definition error_production :: "string option \<Rightarrow> error_kind \<Rightarrow> query_error" where
  "error_production parameter kind =
     \<lparr>qe_parameter = parameter, qe_pair_offset = None, qe_kind = kind\<rparr>"

definition error_missing :: "string \<Rightarrow> nat \<Rightarrow> query_error" where
  "error_missing parameter end_offset = error_parsing (Some parameter) end_offset Missing"

definition error_duplicate :: "string \<Rightarrow> nat \<Rightarrow> query_error" where
  "error_duplicate parameter pair_offset = error_parsing (Some parameter) pair_offset Duplicate"

definition error_too_many_values :: "string \<Rightarrow> nat \<Rightarrow> query_error" where
  "error_too_many_values parameter pair_offset =
     error_parsing (Some parameter) pair_offset TooManyValues"

definition error_unknown :: "nat \<Rightarrow> query_error" where
  "error_unknown pair_offset = error_parsing None pair_offset UnknownParameter"

definition error_ambiguous :: "nat \<Rightarrow> query_error" where
  "error_ambiguous pair_offset = error_parsing None pair_offset AmbiguousParameter"

record query_limits =
  max_query_length :: nat
  max_pairs :: nat
  max_decoded_length :: nat
  max_repeated_values :: nat
  max_encoded_length :: nat

definition limits_default :: query_limits where
  "limits_default =
     \<lparr>max_query_length = 16 * 1024, max_pairs = 256, max_decoded_length = 64 * 1024,
      max_repeated_values = 256, max_encoded_length = 64 * 1024\<rparr>"

definition limits_unlimited :: query_limits where
  "limits_unlimited =
     \<lparr>max_query_length = usize_max, max_pairs = usize_max, max_decoded_length = usize_max,
      max_repeated_values = usize_max, max_encoded_length = usize_max\<rparr>"

section \<open>Decoded components\<close>

datatype decoded = Borrowed string | Owned string

fun as_ref :: "decoded \<Rightarrow> string" where
  "as_ref (Borrowed s) = s"
| "as_ref (Owned s) = s"

fun parse_borrowed :: "decoded \<Rightarrow> string \<Rightarrow> nat \<Rightarrow> string queried" where
  "parse_borrowed (Borrowed v) parameter pair_offset = Inr v"
| "parse_borrowed (Owned v) parameter pair_offset =
     Inl (Err (error_parsing (Some parameter) pair_offset BorrowRequired))"

definition parse_owned :: "decoded \<Rightarrow> string" where
  "parse_owned v = as_ref v"

definition parse_value ::
  "(string \<Rightarrow> 'v option) \<Rightarrow> decoded \<Rightarrow> string \<Rightarrow> nat \<Rightarrow> 'v queried" where
  "parse_value from_str v parameter pair_offset =
     (case from_str (as_ref v) of
        Some x \<Rightarrow> Inr x
      | None \<Rightarrow> Inl (Err (error_parsing (Some parameter) pair_offset InvalidValue)))"

section \<open>Decoding a component\<close>

definition advance :: "nat \<Rightarrow> nat \<Rightarrow> nat queried" where
  "advance index amount =
     (case checked_add index amount of
        Some i \<Rightarrow> Inr i
      | None \<Rightarrow> Inl (Panicked
          ''parser advances an in-bounds cursor by syntax widths bounded by the scanned input''))"

definition add_decoded :: "nat \<Rightarrow> nat \<Rightarrow> nat \<Rightarrow> query_limits \<Rightarrow> nat queried" where
  "add_decoded decoded_total amount offset limits =
     (case checked_add decoded_total amount of
        None \<Rightarrow> Inl (Err (error_parsing None offset DecodedTooLong))
      | Some tot \<Rightarrow>
          if max_decoded_length limits < tot
          then Inl (Err (error_parsing None offset DecodedTooLong))
          else Inr tot)"

definition invalid_encoding :: "nat \<Rightarrow> nat \<Rightarrow> 'a queried" where
  "invalid_encoding offset index =
     try_bind (usize_add offset index) (\<lambda>at_byte.
       Inl (Err (error_parsing None at_byte InvalidEncoding)))"

text \<open>The two digits after the \<open>%\<close> at \<open>index\<close>.\<close>

definition escaped_byte :: "string \<Rightarrow> nat \<Rightarrow> nat \<Rightarrow> nat queried" where
  "escaped_byte bytes offset index =
     try_bind (advance index 1) (\<lambda>a. try_bind (advance index 2) (\<lambda>b.
       if \<not> (a < length bytes \<and> b \<le> length bytes) then invalid_encoding offset index
       else case drop b bytes of
         [] \<Rightarrow> invalid_encoding offset index
       | low # _ \<Rightarrow>
           (case hex (bytes ! a) of
              None \<Rightarrow> invalid_encoding offset index
            | Some high \<Rightarrow>
                (case hex low of
                   None \<Rightarrow> invalid_encoding offset index
                 | Some low \<Rightarrow> Inr (high * 16 + low)))))"

lemma try_bind_cong [fundef_cong]:
  "m = m' \<Longrightarrow> (\<And>x. m' = Inr x \<Longrightarrow> f x = g x) \<Longrightarrow> try_bind m f = try_bind m' g"
  by (cases m') simp_all

lemma advance_Inr [simp]: "advance i k = Inr j \<longleftrightarrow> j = i + k \<and> i + k \<le> usize_max"
  by (auto simp: advance_def checked_add_def)

function decode_encoded_bytes ::
  "string \<Rightarrow> nat \<Rightarrow> nat \<Rightarrow> query_limits \<Rightarrow> string \<Rightarrow> nat \<Rightarrow> (decoded \<times> nat) queried" where
  "decode_encoded_bytes input offset decoded_total limits output index =
     (if index < length input
      then if input ! index = CHR ''+''
        then try_bind (advance index 1) (\<lambda>i.
          decode_encoded_bytes input offset decoded_total limits (output @ '' '') i)
        else if input ! index = CHR ''%''
        then try_bind (escaped_byte input offset index) (\<lambda>byte.
          try_bind (advance index 3) (\<lambda>i.
            decode_encoded_bytes input offset decoded_total limits (output @ [char_of byte]) i))
        else try_bind (advance index 1) (\<lambda>i.
          decode_encoded_bytes input offset decoded_total limits (output @ [input ! index]) i)
      else try_bind (add_decoded decoded_total (length output) offset limits) (\<lambda>tot.
        if valid_utf8 output then Inr (Owned output, tot)
        else Inl (Err (error_parsing None offset InvalidUtf8))))"
  by pat_completeness auto
termination
  by (relation "measure (\<lambda>(input, _, _, _, _, index). length input - index)") auto

declare decode_encoded_bytes.simps [simp del]

fun position_where :: "(char \<Rightarrow> bool) \<Rightarrow> string \<Rightarrow> nat option" where
  "position_where P [] = None"
| "position_where P (b # bs) = (if P b then Some 0 else map_option Suc (position_where P bs))"

abbreviation is_marker :: "char \<Rightarrow> bool" where
  "is_marker b \<equiv> b = CHR ''%'' \<or> b = CHR ''+''"

function decode_encoded_from ::
  "string \<Rightarrow> nat \<Rightarrow> nat \<Rightarrow> query_limits \<Rightarrow> string \<Rightarrow> nat \<Rightarrow> (decoded \<times> nat) queried" where
  "decode_encoded_from input offset decoded_total limits output index =
     (if index < length input
      then case position_where is_marker (drop index input) of
        None \<Rightarrow> try_bind (str_slice input index (length input)) (\<lambda>run.
          try_bind (add_decoded decoded_total (length (output @ run)) offset limits) (\<lambda>tot.
            Inr (Owned (output @ run), tot)))
      | Some relative \<Rightarrow>
          try_bind (advance index relative) (\<lambda>special.
          try_bind (str_slice input index special) (\<lambda>run.
            if input ! special = CHR ''+''
            then try_bind (advance special 1) (\<lambda>i.
              decode_encoded_from input offset decoded_total limits (output @ run @ '' '') i)
            else try_bind (escaped_byte input offset special) (\<lambda>byte.
              if 128 \<le> byte
              then decode_encoded_bytes input offset decoded_total limits (output @ run) special
              else try_bind (advance special 3) (\<lambda>i.
                decode_encoded_from input offset decoded_total limits
                  (output @ run @ [char_of byte]) i))))
      else try_bind (add_decoded decoded_total (length output) offset limits) (\<lambda>tot.
        Inr (Owned output, tot)))"
  by pat_completeness auto
termination
  by (relation "measure (\<lambda>(input, _, _, _, _, index). length input - index)") auto

declare decode_encoded_from.simps [simp del]

definition decode_encoded :: "string \<Rightarrow> nat \<Rightarrow> nat \<Rightarrow> query_limits \<Rightarrow> (decoded \<times> nat) queried" where
  "decode_encoded input offset decoded_total limits =
     decode_encoded_from input offset decoded_total limits [] 0"

definition decode_known ::
  "string \<Rightarrow> nat \<Rightarrow> nat \<Rightarrow> query_limits \<Rightarrow> bool \<Rightarrow> (decoded \<times> nat) queried" where
  "decode_known input offset decoded_total limits encoded =
     (if \<not> encoded
      then try_bind (add_decoded decoded_total (length input) offset limits) (\<lambda>tot.
        Inr (Borrowed input, tot))
      else decode_encoded input offset decoded_total limits)"

definition query_decode ::
  "target_arch \<Rightarrow> bool \<Rightarrow> string \<Rightarrow> nat \<Rightarrow> nat \<Rightarrow> query_limits \<Rightarrow> (decoded \<times> nat) queried" where
  "query_decode arch wide input offset decoded_total limits =
     (if \<not> contains_either arch wide input CHR ''%'' CHR ''+''
      then try_bind (add_decoded decoded_total (length input) offset limits) (\<lambda>tot.
        Inr (Borrowed input, tot))
      else decode_encoded input offset decoded_total limits)"

section \<open>Pairs\<close>

record query_pair =
  pair_key :: decoded
  pair_value :: decoded
  pair_offset :: nat

record parser =
  ps_input :: string
  ps_cursor :: nat
  ps_pairs :: nat
  ps_decoded :: nat
  ps_limits :: query_limits

record pair_scan =
  scan_separator :: "nat option"
  scan_equals :: "nat option"
  scan_key_encoded :: bool
  scan_value_encoded :: bool

definition parser_new :: "string \<Rightarrow> query_limits \<Rightarrow> parser queried" where
  "parser_new input limits =
     (if max_query_length limits < length input
      then Inl (Err (error_parsing None 0 QueryTooLong))
      else Inr \<lparr>ps_input = input, ps_cursor = 0, ps_pairs = 0, ps_decoded = 0, ps_limits = limits\<rparr>)"

fun scan_pair_from :: "nat \<Rightarrow> string \<Rightarrow> nat option \<Rightarrow> bool \<Rightarrow> bool \<Rightarrow> pair_scan" where
  "scan_pair_from index [] equals key_encoded value_encoded =
     \<lparr>scan_separator = None, scan_equals = equals,
      scan_key_encoded = key_encoded, scan_value_encoded = value_encoded\<rparr>"
| "scan_pair_from index (byte # bytes) equals key_encoded value_encoded =
     (if byte = CHR ''&''
      then \<lparr>scan_separator = Some index, scan_equals = equals,
            scan_key_encoded = key_encoded, scan_value_encoded = value_encoded\<rparr>
      else if byte = CHR ''='' \<and> equals = None
      then scan_pair_from (index + 1) bytes (Some index) key_encoded value_encoded
      else if is_marker byte \<and> equals \<noteq> None
      then scan_pair_from (index + 1) bytes equals key_encoded True
      else if is_marker byte
      then scan_pair_from (index + 1) bytes equals True value_encoded
      else scan_pair_from (index + 1) bytes equals key_encoded value_encoded)"

definition scan_pair :: "string \<Rightarrow> pair_scan" where
  "scan_pair bytes = scan_pair_from 0 bytes None False False"

definition split_pair :: "string \<Rightarrow> nat option \<Rightarrow> (string \<times> string) queried" where
  "split_pair raw_pair equals =
     (case equals of
        Some index \<Rightarrow>
          try_bind (str_slice raw_pair 0 index) (\<lambda>key.
          try_bind (usize_add index 1) (\<lambda>start.
          try_bind (str_slice raw_pair start (length raw_pair)) (\<lambda>val. Inr (key, val))))
      | None \<Rightarrow> Inr (raw_pair, []))"

definition value_start :: "nat \<Rightarrow> string \<Rightarrow> nat option \<Rightarrow> nat queried" where
  "value_start offset raw_pair equals =
     try_bind (case equals of None \<Rightarrow> Inr (length raw_pair) | Some index \<Rightarrow> usize_add index 1)
       (usize_add offset)"

definition unencoded_pair_decoded_len :: "string \<Rightarrow> nat option \<Rightarrow> nat" where
  "unencoded_pair_decoded_len raw_pair equals = length raw_pair - (if equals = None then 0 else 1)"

text \<open>The body of the scalar loop after a pair is found.\<close>

definition decode_pair_scalar ::
  "parser \<Rightarrow> nat \<Rightarrow> string \<Rightarrow> pair_scan \<Rightarrow> (query_pair option \<times> parser) queried" where
  "decode_pair_scalar p offset raw_pair scan =
     try_bind (split_pair raw_pair (scan_equals scan)) (\<lambda>(key, val).
       let slow =
         try_bind (decode_known key offset (ps_decoded p) (ps_limits p) (scan_key_encoded scan)) (\<lambda>(k, tot).
         try_bind (value_start offset raw_pair (scan_equals scan)) (\<lambda>value_offset.
         try_bind (decode_known val value_offset tot (ps_limits p) (scan_value_encoded scan)) (\<lambda>(v, tot).
           Inr (Some \<lparr>pair_key = k, pair_value = v, pair_offset = offset\<rparr>, p\<lparr>ps_decoded := tot\<rparr>))))
       in if \<not> scan_key_encoded scan \<and> \<not> scan_value_encoded scan
          then case checked_add (ps_decoded p) (unencoded_pair_decoded_len raw_pair (scan_equals scan)) of
            Some tot \<Rightarrow>
              if tot \<le> max_decoded_length (ps_limits p)
              then Inr (Some \<lparr>pair_key = Borrowed key, pair_value = Borrowed val, pair_offset = offset\<rparr>,
                        p\<lparr>ps_decoded := tot\<rparr>)
              else slow
          | None \<Rightarrow> slow
          else slow)"

function next_pair_scalar :: "parser \<Rightarrow> (query_pair option \<times> parser) queried" where
  "next_pair_scalar p =
     (if \<not> ps_cursor p < length (ps_input p) then Inr (None, p)
      else let offset = ps_cursor p in
        try_bind (str_slice (ps_input p) offset (length (ps_input p))) (\<lambda>rest.
        let scan = scan_pair rest;
            pair_len = (case scan_separator scan of Some n \<Rightarrow> n | None \<Rightarrow> length rest)
        in try_bind (str_slice rest 0 pair_len) (\<lambda>raw_pair.
           try_bind (case scan_separator scan of
                       None \<Rightarrow> Inr (length (ps_input p))
                     | Some _ \<Rightarrow> try_bind (advance pair_len 1) (advance offset)) (\<lambda>cursor.
             if raw_pair = [] then next_pair_scalar (p\<lparr>ps_cursor := cursor\<rparr>)
             else try_bind (usize_add (ps_pairs p) 1) (\<lambda>pairs.
               if max_pairs (ps_limits p) < pairs
               then Inl (Err (error_parsing None offset TooManyPairs))
               else decode_pair_scalar (p\<lparr>ps_cursor := cursor, ps_pairs := pairs\<rparr>)
                      offset raw_pair scan)))))"
  by pat_completeness auto
termination
  by (relation "measure (\<lambda>p. length (ps_input p) - ps_cursor p)")
     (auto simp: try_bind_eq_Inr split: option.splits)

declare next_pair_scalar.simps [simp del]

text \<open>The body of the wide loop after a pair is found.\<close>

definition decode_pair_wide ::
  "target_arch \<Rightarrow> parser \<Rightarrow> nat \<Rightarrow> string \<Rightarrow> (query_pair option \<times> parser) queried" where
  "decode_pair_wide arch p offset raw_pair =
     (let equals = find_byte arch True raw_pair CHR ''='' in
      try_bind (split_pair raw_pair equals) (\<lambda>(key, val).
      try_bind (query_decode arch True key offset (ps_decoded p) (ps_limits p)) (\<lambda>(k, tot).
      try_bind (value_start offset raw_pair equals) (\<lambda>value_offset.
      try_bind (query_decode arch True val value_offset tot (ps_limits p)) (\<lambda>(v, tot).
        Inr (Some \<lparr>pair_key = k, pair_value = v, pair_offset = offset\<rparr>, p\<lparr>ps_decoded := tot\<rparr>))))))"

function next_pair :: "target_arch \<Rightarrow> bool \<Rightarrow> parser \<Rightarrow> (query_pair option \<times> parser) queried" where
  "next_pair arch wide p =
     (if \<not> wide then next_pair_scalar p
      else if \<not> ps_cursor p < length (ps_input p) then Inr (None, p)
      else let offset = ps_cursor p in
        try_bind (str_slice (ps_input p) offset (length (ps_input p))) (\<lambda>rest.
        if length rest < SIMD_THRESHOLD then next_pair_scalar p
        else let separator = find_byte arch True rest CHR ''&'';
                 pair_len = (case separator of Some n \<Rightarrow> n | None \<Rightarrow> length rest)
        in try_bind (str_slice rest 0 pair_len) (\<lambda>raw_pair.
           try_bind (case separator of
                       None \<Rightarrow> Inr (length (ps_input p))
                     | Some _ \<Rightarrow> try_bind (usize_add offset pair_len) (\<lambda>n. usize_add n 1)) (\<lambda>cursor.
             if raw_pair = [] then next_pair arch wide (p\<lparr>ps_cursor := cursor\<rparr>)
             else try_bind (usize_add (ps_pairs p) 1) (\<lambda>pairs.
               if max_pairs (ps_limits p) < pairs
               then Inl (Err (error_parsing None offset TooManyPairs))
               else decode_pair_wide arch (p\<lparr>ps_cursor := cursor, ps_pairs := pairs\<rparr>)
                      offset raw_pair)))))"
  by pat_completeness auto
termination
  by (relation "measure (\<lambda>(_, _, p). length (ps_input p) - ps_cursor p)")
     (auto simp: try_bind_eq_Inr usize_add_def checked_add_def split: option.splits if_splits)

declare next_pair.simps [simp del]

section \<open>Decoding a type from a query\<close>

text \<open>
  What the derive macro generates for a type: the decoder and whether unknown fields are denied. The
  state of a decoder is of type \<open>'s\<close>; \<open>decode_field\<close> returns whether the key is claimed.
\<close>

record ('s, 'a) query_decoder =
  qd_init :: 's
  qd_decode_field :: "'s \<Rightarrow> string \<Rightarrow> decoded \<Rightarrow> nat \<Rightarrow> query_limits \<Rightarrow> (bool \<times> 's) queried"
  qd_finish :: "'s \<Rightarrow> nat \<Rightarrow> 'a queried"
  qd_deny_unknown :: bool

definition decode_step ::
  "('s, 'a) query_decoder \<Rightarrow> query_limits \<Rightarrow> 's \<Rightarrow> query_pair \<Rightarrow> 's queried" where
  "decode_step dec limits s pair =
     try_bind (qd_decode_field dec s (as_ref (pair_key pair)) (pair_value pair) (pair_offset pair) limits)
       (\<lambda>(claimed, s').
         if \<not> claimed \<and> qd_deny_unknown dec then Inl (Err (error_unknown (pair_offset pair)))
         else Inr s')"

lemma decode_pair_scalar_input:
  "decode_pair_scalar p offset raw_pair scan = Inr (o', p') \<Longrightarrow>
     ps_input p' = ps_input p \<and> ps_cursor p' = ps_cursor p"
  by (auto simp: decode_pair_scalar_def try_bind_eq_Inr Let_def split: option.splits if_splits)

lemma decode_pair_wide_input:
  "decode_pair_wide arch p offset raw_pair = Inr (o', p') \<Longrightarrow>
     ps_input p' = ps_input p \<and> ps_cursor p' = ps_cursor p"
  by (auto simp: decode_pair_wide_def try_bind_eq_Inr Let_def)

lemma next_pair_scalar_progress:
  "next_pair_scalar p = Inr (Some q, p') \<Longrightarrow>
     ps_input p' = ps_input p \<and> ps_cursor p < ps_cursor p' \<and> ps_cursor p < length (ps_input p)"
proof (induction p rule: next_pair_scalar.induct)
  case (1 p)
  have less: "ps_cursor p < length (ps_input p)"
    using 1(2) by (subst (asm) next_pair_scalar.simps) (auto split: if_splits)
  show ?case
    using 1(2) less 1(1) [OF _ refl]
    by (subst (asm) next_pair_scalar.simps)
       (fastforce simp: try_bind_eq_Inr Let_def dest!: decode_pair_scalar_input split: if_splits option.splits)
qed

lemma next_pair_progress:
  "next_pair arch wide p = Inr (Some q, p') \<Longrightarrow>
     ps_input p' = ps_input p \<and> ps_cursor p < ps_cursor p' \<and> ps_cursor p < length (ps_input p)"
proof (induction arch wide p rule: next_pair.induct)
  case (1 arch wide p)
  show ?case
  proof (cases "wide \<and> ps_cursor p < length (ps_input p)")
    case True
    thus ?thesis
      using 1(2) 1(1) [OF _ _ refl]
      by (subst (asm) next_pair.simps)
         (fastforce simp: try_bind_eq_Inr Let_def usize_add_def checked_add_def
           dest!: decode_pair_wide_input next_pair_scalar_progress split: if_splits option.splits)
  next
    case False
    thus ?thesis
      using 1(2) next_pair_scalar_progress [of p q p']
      by (subst (asm) next_pair.simps) (auto split: if_splits)
  qed
qed

function query_parse_loop ::
  "target_arch \<Rightarrow> bool \<Rightarrow> ('s, 'a) query_decoder \<Rightarrow> query_limits \<Rightarrow> 's \<Rightarrow> parser \<Rightarrow> 's queried" where
  "query_parse_loop arch wide dec limits s p =
     try_bind (next_pair arch wide p) (\<lambda>(found, p').
       case found of
         None \<Rightarrow> Inr s
       | Some pair \<Rightarrow> try_bind (decode_step dec limits s pair) (\<lambda>s'.
           query_parse_loop arch wide dec limits s' p'))"
  by pat_completeness auto
termination
  by (relation "measure (\<lambda>(_, _, _, _, _, p). length (ps_input p) - ps_cursor p)")
     (auto dest!: next_pair_progress)

declare query_parse_loop.simps [simp del]

definition query_parse ::
  "target_arch \<Rightarrow> bool \<Rightarrow> ('s, 'a) query_decoder \<Rightarrow> string \<Rightarrow> query_limits \<Rightarrow> 'a queried" where
  "query_parse arch wide dec input limits =
     try_bind (parser_new input limits) (\<lambda>p.
     try_bind (query_parse_loop arch wide dec limits (qd_init dec) p) (\<lambda>s.
       qd_finish dec s (length input)))"

definition INPUT_SIMD_THRESHOLD :: nat where
  "INPUT_SIMD_THRESHOLD = 40"

definition from_query_with ::
  "target_arch \<Rightarrow> ('s, 'a) query_decoder \<Rightarrow> string \<Rightarrow> query_limits \<Rightarrow> 'a queried" where
  "from_query_with arch dec input limits =
     (if INPUT_SIMD_THRESHOLD \<le> length input
      then query_parse arch True dec input limits
      else query_parse arch False dec input limits)"

definition from_query :: "target_arch \<Rightarrow> ('s, 'a) query_decoder \<Rightarrow> string \<Rightarrow> 'a queried" where
  "from_query arch dec input = from_query_with arch dec input limits_default"

section \<open>The reference\<close>

text \<open>
  Percent decoding of a component whose first byte is at \<open>i\<close>: the bytes, or the place of the first
  malformed escape.
\<close>

fun percent_decode :: "nat \<Rightarrow> string \<Rightarrow> nat + string" where
  "percent_decode i [] = Inr []"
| "percent_decode i (c # cs) =
     (if c = CHR ''+'' then map_sum id ((#) CHR '' '') (percent_decode (i + 1) cs)
      else if c = CHR ''%''
      then (case cs of
              h # l # r \<Rightarrow>
                (case (hex h, hex l) of
                   (Some a, Some b) \<Rightarrow> map_sum id ((#) (char_of (a * 16 + b))) (percent_decode (i + 3) r)
                 | _ \<Rightarrow> Inl i)
            | _ \<Rightarrow> Inl i)
      else map_sum id ((#) c) (percent_decode (i + 1) cs))"

definition decode_component :: "query_limits \<Rightarrow> nat \<Rightarrow> nat \<Rightarrow> string \<Rightarrow> (decoded \<times> nat) queried" where
  "decode_component limits tot offset s =
     (case percent_decode offset s of
        Inl at_byte \<Rightarrow> Inl (Err (error_parsing None at_byte InvalidEncoding))
      | Inr bytes \<Rightarrow>
          if min usize_max (max_decoded_length limits) < tot + length bytes
          then Inl (Err (error_parsing None offset DecodedTooLong))
          else if \<not> valid_utf8 bytes then Inl (Err (error_parsing None offset InvalidUtf8))
          else Inr (if list_ex is_marker s then Owned bytes else Borrowed s, tot + length bytes))"

definition decode_piece :: "query_limits \<Rightarrow> nat \<Rightarrow> nat \<Rightarrow> string \<Rightarrow> (query_pair \<times> nat) queried" where
  "decode_piece limits tot offset piece =
     (let key = takeWhile (\<lambda>b. b \<noteq> CHR ''='') piece;
          val = drop (length key + 1) piece;
          value_offset = offset + length key + (if CHR ''='' \<in> set piece then 1 else 0)
      in try_bind (decode_component limits tot offset key) (\<lambda>(k, tot).
         try_bind (decode_component limits tot value_offset val) (\<lambda>(v, tot).
           Inr (\<lparr>pair_key = k, pair_value = v, pair_offset = offset\<rparr>, tot))))"

text \<open>The pieces of a query in order, from the \<open>n\<close>-th pair on.\<close>

fun run_pairs ::
  "query_limits \<Rightarrow> ('s \<Rightarrow> query_pair \<Rightarrow> 's queried) \<Rightarrow> 's \<Rightarrow> nat \<Rightarrow> nat \<Rightarrow> nat \<Rightarrow> string list \<Rightarrow> 's queried" where
  "run_pairs limits step s n tot offset [] = Inr s"
| "run_pairs limits step s n tot offset (piece # pieces) =
     (if piece = [] then run_pairs limits step s n tot (offset + 1) pieces
      else if max_pairs limits < n + 1 then Inl (Err (error_parsing None offset TooManyPairs))
      else try_bind (decode_piece limits tot offset piece) (\<lambda>(pair, tot).
           try_bind (step s pair) (\<lambda>s'.
             run_pairs limits step s' (n + 1) tot (offset + length piece + 1) pieces)))"

section \<open>Components\<close>

lemma position_where_None: "position_where P s = None \<longleftrightarrow> list_all (\<lambda>b. \<not> P b) s"
  by (induction s) auto

lemma position_where_Some:
  "position_where P s = Some i \<Longrightarrow>
     \<exists>xs x ys. s = xs @ x # ys \<and> P x \<and> list_all (\<lambda>b. \<not> P b) xs \<and> i = length xs"
proof (induction s arbitrary: i)
  case (Cons b bs)
  show ?case
  proof (cases "P b")
    case True
    thus ?thesis using Cons.prems by (intro exI [of _ "[]"]) auto
  next
    case False
    then obtain j where "position_where P bs = Some j" "i = Suc j" using Cons.prems by auto
    then obtain xs x ys where "bs = xs @ x # ys" "P x" "list_all (\<lambda>b. \<not> P b) xs" "j = length xs"
      using Cons.IH by blast
    thus ?thesis using False \<open>i = Suc j\<close> by (intro exI [of _ "b # xs"]) auto
  qed
qed simp

lemma percent_decode_run:
  "list_all (\<lambda>b. \<not> is_marker b) run \<Longrightarrow>
     percent_decode i (run @ r) = map_sum id ((@) run) (percent_decode (i + length run) r)"
proof (induction run arbitrary: i)
  case Nil
  show ?case by (cases "percent_decode i r") simp_all
next
  case (Cons c cs)
  thus ?case by (cases "percent_decode (i + length (c # cs)) r") simp_all
qed

lemma percent_decode_plain: "list_all (\<lambda>b. \<not> is_marker b) s \<Longrightarrow> percent_decode i s = Inr s"
  using percent_decode_run [of s i "[]"] by simp

lemma add_decoded_eval:
  "add_decoded tot n offset limits =
     (if min usize_max (max_decoded_length limits) < tot + n
      then Inl (Err (error_parsing None offset DecodedTooLong)) else Inr (tot + n))"
  by (auto simp: add_decoded_def checked_add_def)

lemma advance_eval: "i + k \<le> usize_max \<Longrightarrow> advance i k = Inr (i + k)"
  by simp

lemma invalid_encoding_eval:
  "offset + index \<le> usize_max \<Longrightarrow>
     invalid_encoding offset index = Inl (Err (error_parsing None (offset + index) InvalidEncoding))"
  by (simp add: invalid_encoding_def usize_add_Inr)

text \<open>An escape at \<open>index\<close>, read from the rest of the component.\<close>

lemma escaped_byte_eval:
  assumes "drop index bytes = CHR ''%'' # cs" "offset + length bytes \<le> usize_max" "index + 2 \<le> usize_max"
  shows "escaped_byte bytes offset index =
    (case cs of
       h # l # r \<Rightarrow>
         (case (hex h, hex l) of
            (Some a, Some b) \<Rightarrow> Inr (a * 16 + b)
          | _ \<Rightarrow> Inl (Err (error_parsing None (offset + index) InvalidEncoding)))
     | _ \<Rightarrow> Inl (Err (error_parsing None (offset + index) InvalidEncoding)))"
proof -
  have index: "index < length bytes" using assms(1) by (metis drop_eq_Nil list.distinct(1) not_le)
  have cs: "cs = drop (Suc index) bytes" using assms(1) by (metis drop_Suc list.sel(3) tl_drop)
  have rest: "drop (index + 2) bytes = tl cs" using cs by (simp add: drop_Suc tl_drop flip: drop_drop)
  have first: "bytes ! Suc index = hd cs" if "cs \<noteq> []" using that cs by (metis drop_eq_Nil hd_drop_conv_nth not_le)
  have len: "length cs = length bytes - Suc index" using cs by simp
  have "offset + index \<le> usize_max" using index assms(2) by simp
  note invalid = invalid_encoding_eval [OF this]
  show ?thesis
  proof (cases cs)
    case Nil
    thus ?thesis using len assms(3) by (simp add: escaped_byte_def advance_eval invalid)
  next
    case (Cons h t)
    hence "Suc index < length bytes" using len by simp
    thus ?thesis using Cons assms(3) rest first
      by (cases t) (simp_all add: escaped_byte_def advance_eval invalid split: option.split)
  qed
qed

end
