(* ===== verification/Query_Exact.thy ===== *)
theory Query_Exact
  imports Query_Parser
begin

text \<open>
  The query parser equals its reference. A component is decoded exactly (\<open>decode_encoded_exact\<close>), a pair
  is found and decoded exactly by the scalar and by the wide loop (\<open>next_pair_exact\<close>), and so is a
  whole query (\<open>from_query_exact\<close>). In particular no slice is out of range or inside a character, no
  addition overflows, and ASCII escapes keep the output valid without a second check.
\<close>

section \<open>Components\<close>

definition bytes_result :: "query_limits \<Rightarrow> nat \<Rightarrow> nat \<Rightarrow> nat + string \<Rightarrow> (decoded \<times> nat) queried" where
  "bytes_result limits tot offset r =
     (case r of
        Inl at_byte \<Rightarrow> Inl (Err (error_parsing None at_byte InvalidEncoding))
      | Inr bytes \<Rightarrow>
          try_bind (add_decoded tot (length bytes) offset limits) (\<lambda>tot.
            if valid_utf8 bytes then Inr (Owned bytes, tot)
            else Inl (Err (error_parsing None offset InvalidUtf8))))"

lemma map_sum_append_Nil [simp]: "map_sum id ((@) []) r = r"
  by (cases r) simp_all

lemma map_sum_append_snoc:
  "map_sum id ((@) out) (map_sum id ((#) c) r) = map_sum id ((@) (out @ [c])) r"
  by (cases r) simp_all

lemma decode_encoded_bytes_eval:
  "index \<le> length input \<Longrightarrow> offset + length input \<le> usize_max \<Longrightarrow> length input + 3 \<le> usize_max \<Longrightarrow>
     decode_encoded_bytes input offset tot limits out index =
       bytes_result limits tot offset
         (map_sum id ((@) out) (percent_decode (offset + index) (drop index input)))"
proof (induction "length input - index" arbitrary: out index rule: less_induct)
  case less
  note unfold = decode_encoded_bytes.simps [of input offset tot limits out index]
  show ?case
  proof (cases "index < length input")
    case False
    thus ?thesis using less.prems(1) unfolding unfold by (simp add: bytes_result_def)
  next
    case True
    obtain cs where cs: "drop index input = input ! index # cs" "cs = drop (Suc index) input"
      using True by (metis Cons_nth_drop_Suc)
    have next_index: "decode_encoded_bytes input offset tot limits (out @ [c]) (index + k) =
        bytes_result limits tot offset
          (map_sum id ((@) (out @ [c])) (percent_decode (offset + index + k) (drop (index + k) input)))"
      if "0 < k" "index + k \<le> length input" for c k
      using less.hyps [of "index + k" "out @ [c]"] that less.prems True by (simp add: add.assoc)
    have adv: "advance index k = Inr (index + k)" if "k \<le> 3" for k
      using that True less.prems(3) by (intro advance_eval) simp
    consider "input ! index = CHR ''+''" | "input ! index = CHR ''%''" | "\<not> is_marker (input ! index)"
      by blast
    thus ?thesis
    proof cases
      case 1
      thus ?thesis using True cs next_index [of 1 "CHR '' ''"]
        by (simp add: unfold adv map_sum_append_snoc)
    next
      case 2
      have esc: "escaped_byte input offset index =
        (case cs of
           h # l # r \<Rightarrow>
             (case (hex h, hex l) of
                (Some a, Some b) \<Rightarrow> Inr (a * 16 + b)
              | _ \<Rightarrow> Inl (Err (error_parsing None (offset + index) InvalidEncoding)))
         | _ \<Rightarrow> Inl (Err (error_parsing None (offset + index) InvalidEncoding)))"
        using cs(1) 2 less.prems(2,3) True by (intro escaped_byte_eval) simp_all
      show ?thesis
      proof (cases "\<exists>h l r a b. cs = h # l # r \<and> hex h = Some a \<and> hex l = Some b")
        case True': True
        then obtain h l r a b where hl: "cs = h # l # r" "hex h = Some a" "hex l = Some b" by blast
        have "drop (index + 3) input = drop 2 cs" "length cs = length input - Suc index"
          by (simp_all add: cs(2) numeral_3_eq_3)
        hence r: "r = drop (index + 3) input" "index + 3 \<le> length input" using hl(1) by simp_all
        show ?thesis using 2 True cs(1) hl esc r next_index [of 3 "char_of (a * 16 + b)"]
          by (simp add: unfold adv map_sum_append_snoc)
      next
        case False
        hence "escaped_byte input offset index = Inl (Err (error_parsing None (offset + index) InvalidEncoding))"
          "percent_decode (offset + index) (CHR ''%'' # cs) = Inl (offset + index)"
          using esc by (auto split: list.splits option.splits)
        thus ?thesis using 2 True cs(1) by (simp add: unfold bytes_result_def)
      qed
    next
      case 3
      thus ?thesis using True cs next_index [of 1 "input ! index"]
        by (simp add: unfold adv map_sum_append_snoc)
    qed
  qed
qed

text \<open>Between two valid strings there is a character boundary.\<close>

lemma boundary_between_valid:
  assumes "valid_utf8 rest"
  shows "is_char_boundary (pre @ rest) (length pre)"
proof (cases rest)
  case (Cons c cs)
  thus ?thesis using valid_utf8_is_str [OF assms] by (simp add: is_char_boundary_def is_str_def)
qed (simp add: is_char_boundary_def)

lemma str_slice_between_valid:
  assumes "valid_utf8 (run @ post)" "valid_utf8 post"
  shows "str_slice (pre @ run @ post) (length pre) (length pre + length run) = Inr run"
  using boundary_between_valid [OF assms(1), of pre] boundary_between_valid [OF assms(2), of "pre @ run"]
  by (simp add: str_slice_def)

lemma marker_is_ascii: "is_marker b \<Longrightarrow> is_ascii b"
  by (auto simp: is_ascii_def)

lemma bytes_result_valid:
  "valid_utf8 bytes \<Longrightarrow> bytes_result limits tot offset (Inr bytes) =
     try_bind (add_decoded tot (length bytes) offset limits) (\<lambda>tot. Inr (Owned bytes, tot))"
  by (simp add: bytes_result_def)

lemma map_sum_append: "map_sum id ((@) xs) (map_sum id ((@) ys) r) = map_sum id ((@) (xs @ ys)) r"
  by (cases r) simp_all

lemma decode_encoded_from_eval:
  "input = pre @ rest \<Longrightarrow> valid_utf8 rest \<Longrightarrow> valid_utf8 out \<Longrightarrow>
     offset + length input \<le> usize_max \<Longrightarrow> length input + 3 \<le> usize_max \<Longrightarrow>
     decode_encoded_from input offset tot limits out (length pre) =
       bytes_result limits tot offset
         (map_sum id ((@) out) (percent_decode (offset + length pre) rest))"
proof (induction "length rest" arbitrary: pre rest out rule: less_induct)
  case less
  note unfold = decode_encoded_from.simps [of input offset tot limits out "length pre"]
  have drop: "drop (length pre) input = rest" using less.prems(1) by simp
  show ?case
  proof (cases "rest = []")
    case True
    thus ?thesis using less.prems unfolding unfold by (simp add: bytes_result_valid)
  next
    case nonempty: False
    hence in_range: "length pre < length input" using less.prems(1) by simp
    show ?thesis
    proof (cases "position_where is_marker rest")
      case None
      hence plain: "list_all (\<lambda>b. \<not> is_marker b) rest" by (simp only: position_where_None)
      have "str_slice input (length pre) (length input) = (Inr rest :: string queried)"
        using str_slice_between_valid [of rest "[]" pre] less.prems(1,2) by simp
      moreover have "valid_utf8 (out @ rest)" using less.prems(2,3) by (simp add: valid_utf8_append)
      ultimately show ?thesis
        unfolding unfold percent_decode_plain [OF plain]
        using in_range None drop bytes_result_valid [of "out @ rest" limits tot offset] by simp
    next
      case (Some relative)
      obtain run c r where rest: "rest = run @ c # r" "is_marker c" "list_all (\<lambda>b. \<not> is_marker b) run"
          "relative = length run"
        using position_where_Some [OF Some] by blast
      have ascii: "is_ascii c" using rest(2) by (rule marker_is_ascii)
      have valid: "valid_utf8 run" "valid_utf8 r"
        using less.prems(2) rest(1) valid_utf8_at_ascii [OF ascii, of run r] by simp_all
      let ?special = "length pre + length run"
      have run: "str_slice input (length pre) ?special = (Inr run :: string queried)"
        using str_slice_between_valid [of run "c # r" pre] less.prems(1,2) rest(1) valid(2) ascii by simp
      have adv: "advance i k = Inr (i + k)" if "i + k \<le> length input + 3" for i k
        using that less.prems(5) by (intro advance_eval) simp
      have at_special: "input ! ?special = c" using less.prems(1) rest(1) by (simp add: nth_append)
      have out: "valid_utf8 (out @ run)" using less.prems(3) valid(1) by (simp add: valid_utf8_append)
      have decode: "percent_decode (offset + length pre) rest =
          map_sum id ((@) run) (percent_decode (offset + ?special) (c # r))"
        using percent_decode_run [OF rest(3), of "offset + length pre" "c # r"] rest(1) by (simp add: add.assoc)
      have step: "decode_encoded_from input offset tot limits (out @ run @ [x]) (?special + k) =
          bytes_result limits tot offset
            (map_sum id ((@) (out @ run @ [x])) (percent_decode (offset + ?special + k) r'))"
        if "r = w @ r'" "k = length w + 1" "list_all is_ascii w" "is_ascii x" for x k w r'
      proof -
        have "valid_utf8 r'"
          using valid(2) that(1) valid_utf8_append [OF valid_utf8_ascii [OF that(3)], of r'] by simp
        moreover have "valid_utf8 (out @ run @ [x])"
          using out that(4) valid_utf8_append [of "out @ run" "[x]"] by simp
        moreover have "input = (pre @ run @ c # w) @ r'" "length (pre @ run @ c # w) = ?special + k"
          using less.prems(1) rest(1) that(1,2) by simp_all
        ultimately show ?thesis
          using less.hyps [of r' "pre @ run @ c # w" "out @ run @ [x]"] less.prems(4,5) rest(1) that(1)
          by (simp add: add.assoc)
      qed
      show ?thesis
      proof (cases "c = CHR ''+''")
        case True
        have "is_ascii CHR '' ''" by (simp add: is_ascii_def)
        thus ?thesis
          unfolding unfold decode
          using in_range Some rest(1,4) drop run at_special True step [of "[]" r 1 "CHR '' ''"] less.prems(1)
          by (simp add: adv map_sum_append map_sum_append_snoc flip: append_assoc)
      next
        case False
        hence c: "c = CHR ''%''" using rest(2) by simp
        have at_drop: "drop ?special input = CHR ''%'' # r" using less.prems(1) rest(1) c by simp
        have special: "?special < length input" using less.prems(1) rest(1) by simp
        have esc: "escaped_byte input offset ?special =
          (case r of
             h # l # r \<Rightarrow>
               (case (hex h, hex l) of
                  (Some a, Some b) \<Rightarrow> Inr (a * 16 + b)
                | _ \<Rightarrow> Inl (Err (error_parsing None (offset + ?special) InvalidEncoding)))
           | _ \<Rightarrow> Inl (Err (error_parsing None (offset + ?special) InvalidEncoding)))"
          using less.prems(4,5) special by (intro escaped_byte_eval [OF at_drop]) simp_all
        have body: "decode_encoded_from input offset tot limits out (length pre) =
          try_bind (escaped_byte input offset ?special) (\<lambda>byte.
            if 128 \<le> byte then decode_encoded_bytes input offset tot limits (out @ run) ?special
            else try_bind (advance ?special 3) (\<lambda>i.
              decode_encoded_from input offset tot limits (out @ run @ [char_of byte]) i))"
          unfolding unfold using in_range Some rest(1,4) drop run at_special c special by (simp add: adv)
        show ?thesis
        proof (cases "\<exists>h l r' a b. r = h # l # r' \<and> hex h = Some a \<and> hex l = Some b")
          case True
          then obtain h l r' a b where hl: "r = h # l # r'" "hex h = Some a" "hex l = Some b" by blast
          let ?byte = "a * 16 + b"
          show ?thesis
          proof (cases "128 \<le> ?byte")
            case True
            have "decode_encoded_bytes input offset tot limits (out @ run) ?special =
                bytes_result limits tot offset
                  (map_sum id ((@) (out @ run)) (percent_decode (offset + ?special) (CHR ''%'' # r)))"
              using decode_encoded_bytes_eval [of ?special input offset tot limits "out @ run"]
                special less.prems(4,5) at_drop by simp
            thus ?thesis unfolding body decode c map_sum_append using esc hl True by simp
          next
            case False
            have "is_ascii (char_of ?byte)" using False by (simp add: is_ascii_def)
            hence "decode_encoded_from input offset tot limits (out @ run @ [char_of ?byte]) (?special + 3) =
                bytes_result limits tot offset
                  (map_sum id ((@) (out @ run @ [char_of ?byte])) (percent_decode (offset + ?special + 3) r'))"
              using hl hex_is_ascii by (intro step [of "[h, l]"]) auto
            moreover have adv3: "advance ?special 3 = Inr (?special + 3)" using special by (intro adv) simp
            ultimately show ?thesis
              unfolding body decode c map_sum_append
              using esc hl False by (simp add: adv3 map_sum_append_snoc add.assoc flip: append_assoc)
          qed
        next
          case False
          hence "escaped_byte input offset ?special =
              Inl (Err (error_parsing None (offset + ?special) InvalidEncoding))"
            "percent_decode (offset + ?special) (CHR ''%'' # r) = Inl (offset + ?special)"
            using esc by (auto split: list.splits option.splits)
          thus ?thesis unfolding body decode c by (simp add: bytes_result_def)
        qed
      qed
    qed
  qed
qed

definition is_encoded :: "string \<Rightarrow> bool" where
  "is_encoded s = list_ex is_marker s"

lemma decode_encoded_exact:
  assumes "valid_utf8 s" "is_encoded s" "offset + length s \<le> usize_max" "length s + 3 \<le> usize_max"
  shows "decode_encoded s offset tot limits = decode_component limits tot offset s"
proof -
  have "decode_encoded s offset tot limits = bytes_result limits tot offset (percent_decode offset s)"
    using decode_encoded_from_eval [of s "[]" s "[]" offset tot limits] assms
    by (simp add: decode_encoded_def)
  thus ?thesis
    using assms(2)
    by (simp add: bytes_result_def decode_component_def add_decoded_eval is_encoded_def split: sum.split)
qed

lemma decode_component_plain:
  assumes "valid_utf8 s" "\<not> is_encoded s"
  shows "decode_component limits tot offset s =
    try_bind (add_decoded tot (length s) offset limits) (\<lambda>tot. Inr (Borrowed s, tot))"
proof -
  have "list_all (\<lambda>b. \<not> is_marker b) s"
    using assms(2) by (auto simp: is_encoded_def list_all_iff list_ex_iff)
  thus ?thesis using assms
    by (simp add: decode_component_def percent_decode_plain add_decoded_eval is_encoded_def)
qed

lemma decode_known_exact:
  assumes "valid_utf8 s" "offset + length s \<le> usize_max" "length s + 3 \<le> usize_max"
  shows "decode_known s offset tot limits (is_encoded s) = decode_component limits tot offset s"
  using assms by (simp add: decode_known_def decode_encoded_exact decode_component_plain)

lemma query_decode_exact:
  assumes "valid_utf8 s" "offset + length s \<le> usize_max" "length s + 3 \<le> usize_max"
  shows "query_decode arch wide s offset tot limits = decode_component limits tot offset s"
proof -
  have "contains_either arch wide s CHR ''%'' CHR ''+'' = is_encoded s"
    by (auto simp: contains_either_any is_encoded_def list_ex_iff)
  thus ?thesis using assms by (simp add: query_decode_def decode_encoded_exact decode_component_plain)
qed

section \<open>Pairs\<close>

abbreviation piece_of :: "string \<Rightarrow> string" where
  "piece_of rest \<equiv> takeWhile (\<lambda>b. b \<noteq> CHR ''&'') rest"

abbreviation key_of :: "string \<Rightarrow> string" where
  "key_of piece \<equiv> takeWhile (\<lambda>b. b \<noteq> CHR ''='') piece"

abbreviation value_of :: "string \<Rightarrow> string" where
  "value_of piece \<equiv> drop (length (key_of piece) + 1) piece"

lemma is_encoded_simps [simp]:
  "\<not> is_encoded []" "is_encoded (c # cs) \<longleftrightarrow> is_marker c \<or> is_encoded cs"
  by (simp_all add: is_encoded_def)

lemma scan_pair_value:
  "scan_pair_from index bytes (Some e) k v =
     \<lparr>scan_separator = map_option ((+) index) (position CHR ''&'' bytes), scan_equals = Some e,
      scan_key_encoded = k, scan_value_encoded = v \<or> is_encoded (piece_of bytes)\<rparr>"
proof (induction bytes arbitrary: index v)
  case (Cons b bs)
  show ?case
    by (cases "position CHR ''&'' bs") (auto simp: Cons)
qed simp

lemma scan_pair_key:
  "scan_pair_from index bytes None k v =
     \<lparr>scan_separator = map_option ((+) index) (position CHR ''&'' bytes),
      scan_equals = map_option ((+) index) (position CHR ''='' (piece_of bytes)),
      scan_key_encoded = k \<or> is_encoded (key_of (piece_of bytes)),
      scan_value_encoded = v \<or> is_encoded (value_of (piece_of bytes))\<rparr>"
proof (induction bytes arbitrary: index k)
  case (Cons b bs)
  show ?case
    by (cases "position CHR ''&'' bs"; cases "position CHR ''='' (piece_of bs)")
       (auto simp: Cons scan_pair_value)
qed simp

lemma scan_pair_eval:
  "scan_pair rest =
     \<lparr>scan_separator = position CHR ''&'' rest,
      scan_equals = position CHR ''='' (piece_of rest),
      scan_key_encoded = is_encoded (key_of (piece_of rest)),
      scan_value_encoded = is_encoded (value_of (piece_of rest))\<rparr>"
  by (simp add: scan_pair_def scan_pair_key)

text \<open>A string up to its first separator.\<close>

lemma split_first_cases:
  obtains "c \<notin> set s" "takeWhile (\<lambda>b. b \<noteq> c) s = s" "drop (length (takeWhile (\<lambda>b. b \<noteq> c) s) + 1) s = []"
  | pre post where "s = pre @ c # post" "c \<in> set s" "takeWhile (\<lambda>b. b \<noteq> c) s = pre"
      "drop (length (takeWhile (\<lambda>b. b \<noteq> c) s) + 1) s = post"
proof (cases "c \<in> set s")
  case True
  then obtain pre post where s: "s = pre @ c # post" "c \<notin> set pre" by (metis split_list_first)
  have tw: "takeWhile (\<lambda>b. b \<noteq> c) s = pre"
    unfolding s(1) by (subst takeWhile_append2) (use s(2) in auto)
  show ?thesis using that(2) [OF s(1) True tw] unfolding tw by (simp add: s(1))
next
  case False
  hence tw: "takeWhile (\<lambda>b. b \<noteq> c) s = s" by (auto simp: takeWhile_eq_all_conv)
  show ?thesis using that(1) [OF False tw] unfolding tw by simp
qed

lemma position_takeWhile:
  "position c s = (if c \<in> set s then Some (length (takeWhile (\<lambda>b. b \<noteq> c) s)) else None)"
  by (induction s) auto

lemma split_pair_eval:
  assumes "valid_utf8 piece" "length piece + 1 \<le> usize_max"
  shows "split_pair piece (position CHR ''='' piece) = Inr (key_of piece, value_of piece)"
    and "valid_utf8 (key_of piece) \<and> valid_utf8 (value_of piece)"
proof -
  have eq: "is_ascii CHR ''=''" by (simp add: is_ascii_def)
  have "split_pair piece (position CHR ''='' piece) = Inr (key_of piece, value_of piece) \<and>
      valid_utf8 (key_of piece) \<and> valid_utf8 (value_of piece)"
  proof (cases rule: split_first_cases [where c = "CHR ''=''" and s = piece])
    case 1
    show ?thesis
      unfolding 1(2,3) position_takeWhile using assms(1) 1(1) by (simp add: split_pair_def)
  next
    case (2 key post)
    have "str_slice piece 0 (length key) = (Inr key :: string queried)"
      unfolding 2(1) by (rule str_slice_upto [OF eq])
    moreover have "str_slice piece (Suc (length key)) (length piece) = (Inr post :: string queried)"
      using str_slice_after [OF _ eq, of key post] valid_utf8_is_str [OF assms(1)] unfolding 2(1) by simp
    moreover have "valid_utf8 key" "valid_utf8 post"
      using assms(1) valid_utf8_at_ascii [OF eq, of key post] 2(1) by simp_all
    moreover have "length key + 1 \<le> usize_max" using assms(2) 2(1) by simp
    ultimately have "split_pair piece (Some (length key)) = Inr (key, post) \<and> valid_utf8 key \<and> valid_utf8 post"
      by (simp add: split_pair_def usize_add_Inr)
    moreover have "position CHR ''='' piece = Some (length key)"
      unfolding position_takeWhile 2(3) using 2(2) by simp
    ultimately show ?thesis using 2(3,4) by metis
  qed
  thus "split_pair piece (position CHR ''='' piece) = Inr (key_of piece, value_of piece)"
    "valid_utf8 (key_of piece) \<and> valid_utf8 (value_of piece)" by blast+
qed

lemma value_start_eval:
  assumes "offset + length piece + 1 \<le> usize_max"
  shows "value_start offset piece (position CHR ''='' piece) =
    Inr (offset + length (key_of piece) + (if CHR ''='' \<in> set piece then 1 else 0))"
proof (cases rule: split_first_cases [where c = "CHR ''=''" and s = piece])
  case 1
  show ?thesis
    unfolding 1(2) position_takeWhile using assms 1(1) by (simp add: value_start_def usize_add_Inr)
next
  case (2 key post)
  have "offset + length key + 1 \<le> usize_max" using assms 2(1) by simp
  thus ?thesis
    unfolding 2(3) position_takeWhile using 2(2) by (simp add: value_start_def usize_add_Inr)
qed

lemma piece_parts:
  assumes "valid_utf8 piece" "offset + length piece + 4 \<le> usize_max"
  obtains key val start where "key_of piece = key" "value_of piece = val"
    "split_pair piece (position CHR ''='' piece) = Inr (key, val)" "valid_utf8 key" "valid_utf8 val"
    "value_start offset piece (position CHR ''='' piece) = Inr start"
    "length key \<le> length piece" "start + length val \<le> offset + length piece"
    "unencoded_pair_decoded_len piece (position CHR ''='' piece) = length key + length val"
    "\<forall>limits tot. decode_piece limits tot offset piece =
      try_bind (decode_component limits tot offset key) (\<lambda>(k, tot).
      try_bind (decode_component limits tot start val) (\<lambda>(v, tot).
        Inr (\<lparr>pair_key = k, pair_value = v, pair_offset = offset\<rparr>, tot)))"
proof -
  define key where "key = key_of piece"
  define val where "val = value_of piece"
  define start where "start = offset + length key + (if CHR ''='' \<in> set piece then 1 else 0)"
  have bounds: "length piece + 1 \<le> usize_max" "offset + length piece + 1 \<le> usize_max" using assms(2) by simp_all
  have "length key \<le> length piece \<and> start + length val \<le> offset + length piece \<and>
      unencoded_pair_decoded_len piece (position CHR ''='' piece) = length key + length val"
    unfolding start_def position_takeWhile unencoded_pair_decoded_len_def
  proof (cases rule: split_first_cases [where c = "CHR ''=''" and s = piece])
    case 1
    hence "key = piece" "val = []" by (simp_all only: key_def val_def)
    thus "length key \<le> length piece \<and>
      offset + length key + (if CHR ''='' \<in> set piece then 1 else 0) + length val \<le> offset + length piece \<and>
      length piece - (if (if CHR ''='' \<in> set piece then Some (length (key_of piece)) else None) = None then 0 else 1) =
        length key + length val" using 1(1) by simp
  next
    case (2 pre post)
    hence "key = pre" "val = post" by (simp_all only: key_def val_def)
    moreover have "length piece = length pre + length post + 1" using 2(1) by simp
    ultimately show "length key \<le> length piece \<and>
      offset + length key + (if CHR ''='' \<in> set piece then 1 else 0) + length val \<le> offset + length piece \<and>
      length piece - (if (if CHR ''='' \<in> set piece then Some (length (key_of piece)) else None) = None then 0 else 1) =
        length key + length val" using 2(2) by simp
  qed
  moreover have "\<forall>limits tot. decode_piece limits tot offset piece =
      try_bind (decode_component limits tot offset key) (\<lambda>(k, tot).
      try_bind (decode_component limits tot start val) (\<lambda>(v, tot).
        Inr (\<lparr>pair_key = k, pair_value = v, pair_offset = offset\<rparr>, tot)))"
    by (simp add: decode_piece_def Let_def key_def val_def start_def)
  ultimately show ?thesis
    using that [of key val start] split_pair_eval [OF assms(1) bounds(1)] value_start_eval [OF bounds(2)]
    unfolding val_def [symmetric]
    unfolding key_def [symmetric]
    unfolding start_def [symmetric] by blast
qed

definition keep_pair ::
  "parser \<Rightarrow> (query_pair \<times> nat) queried \<Rightarrow> (query_pair option \<times> parser) queried" where
  "keep_pair p r = try_bind r (\<lambda>(pair, tot). Inr (Some pair, p\<lparr>ps_decoded := tot\<rparr>))"

lemma keep_pair_parts:
  "keep_pair p (try_bind m (\<lambda>(k, tot). try_bind (f tot) (\<lambda>(v, tot). Inr (mk k v, tot)))) =
     try_bind m (\<lambda>(k, tot). try_bind (f tot) (\<lambda>(v, tot). Inr (Some (mk k v), p\<lparr>ps_decoded := tot\<rparr>)))"
proof (cases m)
  case (Inr x)
  thus ?thesis by (cases x; cases "f (snd x)") (auto simp: keep_pair_def)
qed (simp add: keep_pair_def)

text \<open>
  Both loop bodies decode the pair. The scalar one takes a shortcut when nothing is encoded and the
  pair fits the limit.
\<close>

lemma decode_pair_wide_exact:
  assumes "valid_utf8 piece" "offset + length piece + 4 \<le> usize_max"
  shows "decode_pair_wide arch p offset piece =
    keep_pair p (decode_piece (ps_limits p) (ps_decoded p) offset piece)"
proof (rule piece_parts [OF assms])
  fix key val start
  assume parts: "split_pair piece (position CHR ''='' piece) = Inr (key, val)" "valid_utf8 key" "valid_utf8 val"
    "value_start offset piece (position CHR ''='' piece) = Inr start"
    "length key \<le> length piece" "start + length val \<le> offset + length piece"
    "\<forall>limits tot. decode_piece limits tot offset piece =
      try_bind (decode_component limits tot offset key) (\<lambda>(k, tot).
      try_bind (decode_component limits tot start val) (\<lambda>(v, tot).
        Inr (\<lparr>pair_key = k, pair_value = v, pair_offset = offset\<rparr>, tot)))"
  have "query_decode arch True key offset tot limits = decode_component limits tot offset key"
    "query_decode arch True val start tot limits = decode_component limits tot start val" for tot limits
    using parts(2,3,5,6) assms(2) by (auto intro!: query_decode_exact)
  thus ?thesis
    using parts(1,4,7)
    by (simp add: decode_pair_wide_def find_byte_position keep_pair_parts)
qed

lemma decode_pair_scalar_exact:
  assumes "valid_utf8 piece" "offset + length piece + 4 \<le> usize_max"
    and scan: "scan_equals scan = position CHR ''='' piece" "scan_key_encoded scan = is_encoded (key_of piece)"
      "scan_value_encoded scan = is_encoded (value_of piece)"
  shows "decode_pair_scalar p offset piece scan =
    keep_pair p (decode_piece (ps_limits p) (ps_decoded p) offset piece)"
proof (rule piece_parts [OF assms(1,2)])
  fix key val start
  assume parts: "split_pair piece (position CHR ''='' piece) = Inr (key, val)" "valid_utf8 key" "valid_utf8 val"
    "value_start offset piece (position CHR ''='' piece) = Inr start"
    "length key \<le> length piece" "start + length val \<le> offset + length piece"
    "\<forall>limits tot. decode_piece limits tot offset piece =
      try_bind (decode_component limits tot offset key) (\<lambda>(k, tot).
      try_bind (decode_component limits tot start val) (\<lambda>(v, tot).
        Inr (\<lparr>pair_key = k, pair_value = v, pair_offset = offset\<rparr>, tot)))"
    and named: "key_of piece = key" "value_of piece = val"
    and len: "unencoded_pair_decoded_len piece (position CHR ''='' piece) = length key + length val"
  have known: "decode_known key offset tot limits (is_encoded key) = decode_component limits tot offset key"
    "decode_known val start tot limits (is_encoded val) = decode_component limits tot start val" for tot limits
    using parts(2,3,5,6) assms(2) by (auto intro!: decode_known_exact)
  let ?slow = "keep_pair p (decode_piece (ps_limits p) (ps_decoded p) offset piece)"
  have fast: "?slow = Inr (Some \<lparr>pair_key = Borrowed key, pair_value = Borrowed val, pair_offset = offset\<rparr>,
      p\<lparr>ps_decoded := ps_decoded p + (length key + length val)\<rparr>)"
    if "\<not> is_encoded key" "\<not> is_encoded val"
      "ps_decoded p + (length key + length val) \<le> min usize_max (max_decoded_length (ps_limits p))"
    using that parts(2,3,7) by (simp add: keep_pair_def decode_component_plain add_decoded_eval add.assoc not_less)
  have slow: "?slow =
      try_bind (decode_known key offset (ps_decoded p) (ps_limits p) (is_encoded key)) (\<lambda>(k, tot).
      try_bind (decode_known val start tot (ps_limits p) (is_encoded val)) (\<lambda>(v, tot).
        Inr (Some \<lparr>pair_key = k, pair_value = v, pair_offset = offset\<rparr>, p\<lparr>ps_decoded := tot\<rparr>)))"
    using parts(7) by (simp add: known keep_pair_parts)
  show ?thesis
  proof (cases "\<not> is_encoded key \<and> \<not> is_encoded val \<and>
      ps_decoded p + (length key + length val) \<le> min usize_max (max_decoded_length (ps_limits p))")
    case True
    thus ?thesis using fast parts(1) len scan named by (simp add: decode_pair_scalar_def checked_add_def)
  next
    case False
    thus ?thesis unfolding slow using parts(1,4) len scan named
      by (auto simp: decode_pair_scalar_def checked_add_def Let_def)
  qed
qed

section \<open>The next pair\<close>

definition parser_rest :: "parser \<Rightarrow> string" where
  "parser_rest p = drop (ps_cursor p) (ps_input p)"

definition wf_parser :: "parser \<Rightarrow> bool" where
  "wf_parser p \<longleftrightarrow>
     ps_cursor p \<le> length (ps_input p) \<and> valid_utf8 (parser_rest p) \<and>
     length (ps_input p) \<le> isize_max \<and> ps_pairs p \<le> ps_cursor p"

definition after_piece :: "parser \<Rightarrow> parser" where
  "after_piece p =
     p\<lparr>ps_cursor := min (length (ps_input p)) (ps_cursor p + length (piece_of (parser_rest p)) + 1),
       ps_pairs := ps_pairs p + 1\<rparr>"

definition found_pair :: "parser \<Rightarrow> (query_pair option \<times> parser) queried" where
  "found_pair p =
     (if max_pairs (ps_limits p) < ps_pairs p + 1
      then Inl (Err (error_parsing None (ps_cursor p) TooManyPairs))
      else keep_pair (after_piece p)
             (decode_piece (ps_limits p) (ps_decoded p) (ps_cursor p) (piece_of (parser_rest p))))"

text \<open>What a loop reads of a parser that is not at the end.\<close>

lemma wf_parser_reads:
  assumes "wf_parser p" "parser_rest p \<noteq> []"
  shows "ps_cursor p < length (ps_input p)"
    and "str_slice (ps_input p) (ps_cursor p) (length (ps_input p)) = (Inr (parser_rest p) :: string queried)"
    and "str_slice (parser_rest p) 0
      (case position CHR ''&'' (parser_rest p) of Some n \<Rightarrow> n | None \<Rightarrow> length (parser_rest p)) =
        (Inr (piece_of (parser_rest p)) :: string queried)"
    and "(case position CHR ''&'' (parser_rest p) of Some n \<Rightarrow> n | None \<Rightarrow> length (parser_rest p)) =
      length (piece_of (parser_rest p))"
    and "valid_utf8 (piece_of (parser_rest p))"
    and "ps_cursor p + length (piece_of (parser_rest p)) + 4 \<le> usize_max"
proof -
  show cursor: "ps_cursor p < length (ps_input p)"
    using assms(2) by (simp add: parser_rest_def)
  have "ps_input p = take (ps_cursor p) (ps_input p) @ parser_rest p" by (simp add: parser_rest_def)
  thus "str_slice (ps_input p) (ps_cursor p) (length (ps_input p)) = (Inr (parser_rest p) :: string queried)"
    using str_slice_between_valid [of "parser_rest p" "[]" "take (ps_cursor p) (ps_input p)"] assms(1) cursor
    by (simp add: wf_parser_def parser_rest_def)
  have amp: "is_ascii CHR ''&''" by (simp add: is_ascii_def)
  show len: "(case position CHR ''&'' (parser_rest p) of Some n \<Rightarrow> n | None \<Rightarrow> length (parser_rest p)) =
      length (piece_of (parser_rest p))"
    unfolding position_takeWhile
  proof (cases rule: split_first_cases [where c = "CHR ''&''" and s = "parser_rest p"])
    case 1
    show "(case if CHR ''&'' \<in> set (parser_rest p) then Some (length (piece_of (parser_rest p))) else None of
        None \<Rightarrow> length (parser_rest p) | Some n \<Rightarrow> n) = length (piece_of (parser_rest p))"
      unfolding 1(2) using 1(1) by simp
  qed simp
  have "valid_utf8 (piece_of (parser_rest p)) \<and>
      str_slice (parser_rest p) 0 (length (piece_of (parser_rest p))) =
        (Inr (piece_of (parser_rest p)) :: string queried)"
  proof (cases rule: split_first_cases [where c = "CHR ''&''" and s = "parser_rest p"])
    case 1
    show ?thesis unfolding 1(2) using assms(1) by (simp add: wf_parser_def)
  next
    case (2 pre post)
    have "valid_utf8 pre"
      using assms(1) 2(1) valid_utf8_at_ascii [OF amp, of pre post] by (simp add: wf_parser_def)
    moreover have "str_slice (parser_rest p) 0 (length pre) = (Inr pre :: string queried)"
      unfolding 2(1) by (rule str_slice_upto [OF amp])
    ultimately show ?thesis using 2(3) by simp
  qed
  thus "valid_utf8 (piece_of (parser_rest p))"
    "str_slice (parser_rest p) 0
      (case position CHR ''&'' (parser_rest p) of Some n \<Rightarrow> n | None \<Rightarrow> length (parser_rest p)) =
        (Inr (piece_of (parser_rest p)) :: string queried)"
    unfolding len by blast+
  have "length (piece_of (parser_rest p)) \<le> length (parser_rest p)" by (rule length_takeWhile_le)
  moreover have "ps_cursor p + length (parser_rest p) = length (ps_input p)"
    using cursor by (simp add: parser_rest_def)
  moreover have "length (ps_input p) \<le> isize_max" using assms(1) by (simp add: wf_parser_def)
  ultimately show "ps_cursor p + length (piece_of (parser_rest p)) + 4 \<le> usize_max"
    using usize_max_isize isize_max_pos by linarith
qed

lemma next_cursor:
  assumes "wf_parser p" "parser_rest p \<noteq> []"
  shows "(if CHR ''&'' \<in> set (parser_rest p) then ps_cursor p + length (piece_of (parser_rest p)) + 1
      else length (ps_input p)) = ps_cursor (after_piece p)"
proof -
  have "ps_cursor p + length (parser_rest p) = length (ps_input p)"
    using wf_parser_reads(1) [OF assms] by (simp add: parser_rest_def)
  moreover have "CHR ''&'' \<in> set (parser_rest p) \<and> length (piece_of (parser_rest p)) < length (parser_rest p) \<or>
      CHR ''&'' \<notin> set (parser_rest p) \<and> length (piece_of (parser_rest p)) = length (parser_rest p)"
  proof (cases rule: split_first_cases [where c = "CHR ''&''" and s = "parser_rest p"])
    case 1
    show ?thesis unfolding 1(2) using 1(1) by simp
  next
    case (2 pre post)
    show ?thesis unfolding 2(3) using 2(2) arg_cong [OF 2(1), of length] by simp
  qed
  ultimately show ?thesis by (auto simp: after_piece_def)
qed

text \<open>The interface of the two loops: they skip a separator, decode a piece, and stop at the end.\<close>

locale pair_source =
  fixes next_of :: "parser \<Rightarrow> (query_pair option \<times> parser) queried"
  assumes next_end: "wf_parser p \<Longrightarrow> parser_rest p = [] \<Longrightarrow> next_of p = Inr (None, p)"
    and next_skip: "wf_parser p \<Longrightarrow> parser_rest p = CHR ''&'' # r \<Longrightarrow>
      next_of p = next_of (p\<lparr>ps_cursor := ps_cursor p + 1\<rparr>)"
    and next_found: "wf_parser p \<Longrightarrow> piece_of (parser_rest p) \<noteq> [] \<Longrightarrow> next_of p = found_pair p"

lemma keep_pair_update [simp]:
  "keep_pair (p\<lparr>ps_decoded := t\<rparr>) r = keep_pair p r"
  by (cases r) (auto simp: keep_pair_def)

interpretation scalar_source: pair_source next_pair_scalar
proof
  fix p
  assume wf: "wf_parser p" and "parser_rest p = []"
  hence "\<not> ps_cursor p < length (ps_input p)" by (simp add: parser_rest_def)
  thus "next_pair_scalar p = Inr (None, p)" by (simp add: next_pair_scalar.simps [of p])
next
  fix p r
  assume wf: "wf_parser p" and rest: "parser_rest p = CHR ''&'' # r"
  hence ne: "parser_rest p \<noteq> []" by simp
  note reads = wf_parser_reads [OF wf ne]
  have "ps_cursor p + 1 \<le> usize_max" using reads(6) by simp
  thus "next_pair_scalar p = next_pair_scalar (p\<lparr>ps_cursor := ps_cursor p + 1\<rparr>)"
    using reads rest
    by (subst next_pair_scalar.simps) (simp add: scan_pair_eval Let_def advance_eval)
next
  fix p
  assume wf: "wf_parser p" and found: "piece_of (parser_rest p) \<noteq> []"
  hence ne: "parser_rest p \<noteq> []" by auto
  note reads = wf_parser_reads [OF wf ne]
  let ?piece = "piece_of (parser_rest p)"
  have cursor: "(case position CHR ''&'' (parser_rest p) of
        None \<Rightarrow> Inr (length (ps_input p))
      | Some _ \<Rightarrow> try_bind (advance (length ?piece) 1) (advance (ps_cursor p))) = Inr (ps_cursor (after_piece p))"
    using next_cursor [OF wf ne] reads(6) unfolding position_takeWhile
    by (auto simp: advance_eval split: if_splits)
  have pairs: "usize_add (ps_pairs p) 1 = (Inr (ps_pairs p + 1) :: nat queried)"
    using wf reads(6) by (intro usize_add_Inr) (simp add: wf_parser_def)
  have sep: "scan_separator (scan_pair (parser_rest p)) = position CHR ''&'' (parser_rest p)"
    by (simp add: scan_pair_eval)
  have body: "decode_pair_scalar q (ps_cursor p) ?piece (scan_pair (parser_rest p)) =
      keep_pair q (decode_piece (ps_limits q) (ps_decoded q) (ps_cursor p) ?piece)" for q
    using reads(5,6) by (intro decode_pair_scalar_exact) (simp_all add: scan_pair_eval)
  have after: "p\<lparr>ps_cursor := ps_cursor (after_piece p), ps_pairs := ps_pairs p + 1\<rparr> = after_piece p"
    by (simp add: after_piece_def)
  show "next_pair_scalar p = found_pair p"
    by (subst next_pair_scalar.simps)
       (simp only: Let_def sep reads(1,2,4) reads(3) [unfolded reads(4)] cursor pairs body after found
         try_bind_simps not_True_eq_False if_False, simp add: found_pair_def after_piece_def)
qed

lemma wf_skip:
  assumes "wf_parser p" "parser_rest p = CHR ''&'' # r"
  shows "parser_rest (p\<lparr>ps_cursor := ps_cursor p + 1\<rparr>) = r" "wf_parser (p\<lparr>ps_cursor := ps_cursor p + 1\<rparr>)"
proof -
  show rest: "parser_rest (p\<lparr>ps_cursor := ps_cursor p + 1\<rparr>) = r"
    using arg_cong [OF assms(2), of tl] by (simp add: parser_rest_def drop_Suc tl_drop)
  have "valid_utf8 r"
    using assms valid_utf8_at_ascii [of "CHR ''&''" "[]" r] by (simp add: wf_parser_def is_ascii_def)
  moreover have "ps_cursor p < length (ps_input p)" using wf_parser_reads(1) [OF assms(1)] assms(2) by simp
  ultimately show "wf_parser (p\<lparr>ps_cursor := ps_cursor p + 1\<rparr>)"
    using assms(1) rest unfolding wf_parser_def by simp
qed

interpretation wide_source: pair_source "next_pair arch True" for arch
proof
  fix p
  assume wf: "wf_parser p" and "parser_rest p = []"
  hence "\<not> ps_cursor p < length (ps_input p)" by (simp add: parser_rest_def)
  thus "next_pair arch True p = Inr (None, p)" by (simp add: next_pair.simps [of arch True p])
next
  fix p r
  assume wf: "wf_parser p" and rest: "parser_rest p = CHR ''&'' # r"
  hence ne: "parser_rest p \<noteq> []" by simp
  note reads = wf_parser_reads [OF wf ne]
  let ?q = "p\<lparr>ps_cursor := ps_cursor p + 1\<rparr>"
  have max: "ps_cursor p + 1 \<le> usize_max" using reads(6) by simp
  show "next_pair arch True p = next_pair arch True ?q"
  proof (cases "length (parser_rest p) < SIMD_THRESHOLD")
    case True
    note rest' = wf_skip(1) [OF wf rest] and wf' = wf_skip(2) [OF wf rest]
    have "next_pair arch True p = next_pair_scalar ?q"
      using reads(1,2) True scalar_source.next_skip [OF wf rest] by (simp add: next_pair.simps [of arch True p])
    moreover have "next_pair arch True ?q = next_pair_scalar ?q"
    proof (cases "r = []")
      case True
      hence "\<not> ps_cursor ?q < length (ps_input ?q)" using rest' by (simp add: parser_rest_def)
      thus ?thesis using scalar_source.next_end [OF wf'] rest' True
        by (subst next_pair.simps) simp
    next
      case False
      have short: "length (parser_rest ?q) < SIMD_THRESHOLD" using True rest rest' by simp
      have ne': "parser_rest ?q \<noteq> []" using False rest' by simp
      show ?thesis
        by (subst next_pair.simps)
           (simp only: Let_def wf_parser_reads(1,2) [OF wf' ne'] short try_bind_simps not_True_eq_False
             if_False if_True)
    qed
    ultimately show ?thesis by simp
  next
    case False
    thus ?thesis
      using reads rest max
      by (subst next_pair.simps) (simp add: find_byte_position Let_def usize_add_Inr)
  qed
next
  fix p
  assume wf: "wf_parser p" and found: "piece_of (parser_rest p) \<noteq> []"
  hence ne: "parser_rest p \<noteq> []" by auto
  note reads = wf_parser_reads [OF wf ne]
  let ?piece = "piece_of (parser_rest p)"
  have cursor: "(case position CHR ''&'' (parser_rest p) of
        None \<Rightarrow> Inr (length (ps_input p))
      | Some _ \<Rightarrow> try_bind (usize_add (ps_cursor p) (length ?piece)) (\<lambda>n. usize_add n 1)) =
        (Inr (ps_cursor (after_piece p)) :: nat queried)"
    using next_cursor [OF wf ne] reads(6) unfolding position_takeWhile
    by (auto simp: usize_add_Inr split: if_splits)
  have pairs: "usize_add (ps_pairs p) 1 = (Inr (ps_pairs p + 1) :: nat queried)"
    using wf reads(6) by (intro usize_add_Inr) (simp add: wf_parser_def)
  have body: "decode_pair_wide arch q (ps_cursor p) ?piece =
      keep_pair q (decode_piece (ps_limits q) (ps_decoded q) (ps_cursor p) ?piece)" for q
    using reads(5,6) by (intro decode_pair_wide_exact) simp_all
  have after: "p\<lparr>ps_cursor := ps_cursor (after_piece p), ps_pairs := ps_pairs p + 1\<rparr> = after_piece p"
    by (simp add: after_piece_def)
  show "next_pair arch True p = found_pair p"
  proof (cases "length (parser_rest p) < SIMD_THRESHOLD")
    case True
    thus ?thesis using reads(1,2) scalar_source.next_found [OF wf found]
      by (simp add: next_pair.simps [of arch True p])
  next
    case False
    show ?thesis
      by (subst next_pair.simps)
         (simp only: Let_def find_byte_position reads(1,2,4) reads(3) [unfolded reads(4)] cursor pairs body
           after found False try_bind_simps not_True_eq_False if_False, simp add: found_pair_def after_piece_def)
  qed
qed

text \<open>The source that a parser reads, wide or not.\<close>

lemma next_pair_source: "pair_source (next_pair arch wide)"
proof (cases wide)
  case True
  thus ?thesis using wide_source.pair_source_axioms [of arch] by simp
next
  case False
  hence "next_pair arch wide = next_pair_scalar" by (auto simp: next_pair.simps)
  thus ?thesis using scalar_source.pair_source_axioms by simp
qed

lemmas next_pair_exact =
  pair_source.next_end [OF next_pair_source] pair_source.next_skip [OF next_pair_source]
  pair_source.next_found [OF next_pair_source]

section \<open>Whole queries\<close>

lemma wf_after_piece:
  assumes "wf_parser p" "piece_of (parser_rest p) \<noteq> []"
  shows "wf_parser (after_piece p)"
    and "parser_rest (after_piece p) = drop (length (piece_of (parser_rest p)) + 1) (parser_rest p)"
proof -
  have ne: "parser_rest p \<noteq> []" using assms(2) by auto
  have len: "ps_cursor p + length (parser_rest p) = length (ps_input p)"
    using wf_parser_reads(1) [OF assms(1) ne] by (simp add: parser_rest_def)
  let ?k = "length (piece_of (parser_rest p)) + 1"
  show rest: "parser_rest (after_piece p) = drop ?k (parser_rest p)"
  proof (cases "ps_cursor p + ?k \<le> length (ps_input p)")
    case True
    thus ?thesis by (simp add: parser_rest_def after_piece_def min_def add.commute)
  next
    case False
    hence "drop ?k (parser_rest p) = []" using len by simp
    thus ?thesis using False by (simp add: after_piece_def) (simp add: parser_rest_def)
  qed
  have amp: "is_ascii CHR ''&''" by (simp add: is_ascii_def)
  have "valid_utf8 (drop ?k (parser_rest p))"
  proof (cases rule: split_first_cases [where c = "CHR ''&''" and s = "parser_rest p"])
    case 1
    show ?thesis unfolding 1(3) by simp
  next
    case (2 pre post)
    show ?thesis unfolding 2(4)
      using assms(1) 2(1) valid_utf8_at_ascii [OF amp, of pre post] by (simp add: wf_parser_def)
  qed
  moreover have "0 < length (piece_of (parser_rest p))" using assms(2) by simp
  ultimately show "wf_parser (after_piece p)"
    using assms(1) wf_parser_reads(1) [OF assms(1) ne] rest unfolding wf_parser_def
    by (auto simp: after_piece_def)
qed

lemma run_pairs_split:
  assumes "piece_of rest \<noteq> []"
  shows "run_pairs limits step s n tot offset (split_on CHR ''&'' rest) =
    (if max_pairs limits < n + 1 then Inl (Err (error_parsing None offset TooManyPairs))
     else try_bind (decode_piece limits tot offset (piece_of rest)) (\<lambda>(pair, tot).
          try_bind (step s pair) (\<lambda>s'.
            run_pairs limits step s' (n + 1) tot (offset + length (piece_of rest) + 1)
              (split_on CHR ''&'' (drop (length (piece_of rest) + 1) rest)))))"
proof (cases rule: split_first_cases [where c = "CHR ''&''" and s = rest])
  case 1
  show ?thesis
    unfolding 1(3) unfolding 1(2) split_on_no_sep [OF 1(1)] using assms unfolding 1(2) by simp
next
  case (2 pre post)
  have "split_on CHR ''&'' rest = pre # split_on CHR ''&'' post"
    using 2(1,3) split_on_append [of "CHR ''&''" pre post] by (metis set_takeWhileD)
  thus ?thesis unfolding 2(4) unfolding 2(3) using assms unfolding 2(3) by simp
qed

lemma query_parse_loop_exact:
  "wf_parser p \<Longrightarrow> ps_limits p = limits \<Longrightarrow>
     query_parse_loop arch wide dec limits s p =
       run_pairs limits (decode_step dec limits) s (ps_pairs p) (ps_decoded p) (ps_cursor p)
         (split_on CHR ''&'' (parser_rest p))"
proof (induction "length (parser_rest p)" arbitrary: p s rule: less_induct)
  case less
  note unfold = query_parse_loop.simps [of arch wide dec limits]
  consider "parser_rest p = []" | r where "parser_rest p = CHR ''&'' # r" | "piece_of (parser_rest p) \<noteq> []"
  proof (cases "parser_rest p")
    case (Cons c r)
    thus ?thesis using that(2) [of r] that(3) by (cases "c = CHR ''&''") simp_all
  qed (use that(1) in simp)
  thus ?case
  proof cases
    case 1
    thus ?thesis using next_pair_exact(1) [OF less.prems(1) 1] by (simp add: unfold [of s p])
  next
    case (2 r)
    let ?q = "p\<lparr>ps_cursor := ps_cursor p + 1\<rparr>"
    have "query_parse_loop arch wide dec limits s p = query_parse_loop arch wide dec limits s ?q"
      using next_pair_exact(2) [OF less.prems(1) 2, of arch wide] by (simp add: unfold)
    thus ?thesis using less.hyps [of ?q s] wf_skip [OF less.prems(1) 2] less.prems(2) 2 by simp
  next
    case 3
    let ?piece = "piece_of (parser_rest p)"
    note wf = wf_after_piece [OF less.prems(1) 3]
    have shorter: "length (parser_rest (after_piece p)) < length (parser_rest p)"
      using 3 unfolding wf(2) by (cases "parser_rest p") auto
    have step: "query_parse_loop arch wide dec limits s' (after_piece p\<lparr>ps_decoded := tot\<rparr>) =
        run_pairs limits (decode_step dec limits) s' (ps_pairs p + 1) tot (ps_cursor p + length ?piece + 1)
          (split_on CHR ''&'' (drop (length ?piece + 1) (parser_rest p)))" for s' tot
    proof -
      let ?q = "after_piece p\<lparr>ps_decoded := tot\<rparr>"
      have q: "wf_parser ?q" "parser_rest ?q = parser_rest (after_piece p)" "ps_limits ?q = limits"
        "ps_pairs ?q = ps_pairs p + 1" "ps_cursor ?q = ps_cursor (after_piece p)"
        using wf(1) less.prems(2) by (simp_all add: wf_parser_def parser_rest_def after_piece_def)
      have "query_parse_loop arch wide dec limits s' ?q =
          run_pairs limits (decode_step dec limits) s' (ps_pairs p + 1) tot (ps_cursor (after_piece p))
            (split_on CHR ''&'' (parser_rest (after_piece p)))"
        using less.hyps [of ?q s'] q shorter by simp
      moreover have "parser_rest (after_piece p) = [] \<or>
          ps_cursor (after_piece p) = ps_cursor p + length ?piece + 1"
        by (auto simp: after_piece_def parser_rest_def)
      ultimately show ?thesis unfolding wf(2) by auto
    qed
    show ?thesis
      unfolding run_pairs_split [OF 3] step [symmetric]
      using next_pair_exact(3) [OF less.prems(1) 3, of arch wide] less.prems(2)
      by (simp add: unfold [of s p] found_pair_def keep_pair_def try_bind_assoc case_prod_unfold)
  qed
qed

lemma wf_parser_start:
  "valid_utf8 input \<Longrightarrow> length input \<le> isize_max \<Longrightarrow>
     wf_parser \<lparr>ps_input = input, ps_cursor = 0, ps_pairs = 0, ps_decoded = 0, ps_limits = limits\<rparr>"
  by (simp add: wf_parser_def parser_rest_def)

lemma query_parse_exact:
  assumes "valid_utf8 input" "length input \<le> isize_max"
  shows "query_parse arch wide dec input limits =
    (if max_query_length limits < length input
     then Inl (Err (error_parsing None 0 QueryTooLong))
     else try_bind
       (run_pairs limits (decode_step dec limits) (qd_init dec) 0 0 0 (split_on CHR ''&'' input))
       (\<lambda>s. qd_finish dec s (length input)))"
  using query_parse_loop_exact [OF wf_parser_start [OF assms, of limits], of limits arch wide dec]
  by (simp add: query_parse_def parser_new_def parser_rest_def)

lemma limits_default_simps [simp]:
  "max_query_length limits_default = 16384" "max_pairs limits_default = 256"
  "max_decoded_length limits_default = 65536" "max_repeated_values limits_default = 256"
  "max_encoded_length limits_default = 65536"
  by (simp_all add: limits_default_def)

text \<open>A decoder that keeps every pair.\<close>

definition collect_pairs :: "((string \<times> string) list, (string \<times> string) list) query_decoder" where
  "collect_pairs =
     \<lparr>qd_init = [], qd_decode_field = (\<lambda>s key val off limits. Inr (True, s @ [(key, as_ref val)])),
      qd_finish = (\<lambda>s off. Inr s), qd_deny_unknown = True\<rparr>"

text \<open>
  C32. For every type with a decoder, every valid UTF-8 query string and every target architecture, \<open>from_query_with\<close>
  equals the reference: it fails with \<open>QueryTooLong\<close> exactly if the query is longer than the limit, and
  otherwise decodes the non-empty pieces between \<open>&\<close> in order, each split at its first \<open>=\<close> and
  percent-decoded with \<open>+\<close> as a space, with the limits on pairs and decoded length, the exact error
  kinds and byte offsets, and UTF-8 validation, whether the scalar or the vector code ran.
\<close>

theorem from_query_exact:
  assumes "valid_utf8 input" "length input \<le> isize_max"
  shows "from_query_with arch dec input limits =
    (if max_query_length limits < length input
     then Inl (Err (error_parsing None 0 QueryTooLong))
     else try_bind
       (run_pairs limits (decode_step dec limits) (qd_init dec) 0 0 0 (split_on CHR ''&'' input))
       (\<lambda>s. qd_finish dec s (length input)))"
  by (simp add: from_query_with_def query_parse_exact [OF assms])

theorem from_query_exact_witness:
  "from_query_with X86_64 collect_pairs ''q=a+b&&x%2F='' limits_default =
     Inr [(''q'', ''a b''), (''x/'', [])]"
proof -
  have "valid_utf8 ''q=a+b&&x%2F=''" by (simp add: is_ascii_def)
  moreover have "length ''q=a+b&&x%2F='' \<le> isize_max" by (simp add: isize_max_def)
  ultimately have "from_query_with X86_64 collect_pairs ''q=a+b&&x%2F='' limits_default =
    (if max_query_length limits_default < length ''q=a+b&&x%2F=''
     then Inl (Err (error_parsing None 0 QueryTooLong))
     else try_bind
       (run_pairs limits_default (decode_step collect_pairs limits_default) (qd_init collect_pairs) 0 0 0
         (split_on CHR ''&'' ''q=a+b&&x%2F=''))
       (\<lambda>s. qd_finish collect_pairs s (length ''q=a+b&&x%2F='')))"
    by (rule from_query_exact)
  moreover have "hex CHR ''2'' = Some 2" "hex CHR ''F'' = Some 15" by (simp_all add: hex_def)
  moreover have "char_of (47 :: nat) = CHR ''/''" by code_simp
  ultimately show ?thesis
    by (simp add: collect_pairs_def decode_step_def decode_piece_def decode_component_def usize_max_def
        is_ascii_def)
qed

end
