(* ===== verification/Query_Encoder.thy ===== *)
theory Query_Encoder
  imports Query_Exact
begin

text \<open>
  Production of query strings in the crate \<open>routerama\<close> (\<open>query/encoder.rs\<close>, \<open>query/to_query.rs\<close>,
  and \<open>encode_parameter\<close> of \<open>routerama_build/src/macro_impl/query.rs\<close>).

  A destination \<open>W: fmt::Write\<close> is a state of type \<open>'w\<close> with its \<open>write_str\<close>, which says whether it accepted
  the text; \<open>string_write_str\<close> is the one of \<open>String\<close>. An operation of the encoder returns its result and
  the encoder, since a failed operation leaves what it wrote. A \<open>Display\<close> implementation is a
  \<open>fmt_program\<close>: the texts it writes, each depending on whether the last was accepted, and its result.
  The integer formatter of the crate \<open>itoa\<close> is the parameter \<open>itoa\<close>. Sums of indices into a slice are
  natural numbers; the count of written bytes uses \<open>checked_add\<close>.

  Every operation writes a list of texts (\<open>emit\<close>), whose concatenation is the encoded text, to any
  writer that keeps what it accepts (locale \<open>fmt_write\<close>); \<open>String\<close> fails only for the length limit.
\<close>

section \<open>The encoder\<close>

type_synonym 'w write_str = "'w \<Rightarrow> string \<Rightarrow> bool \<times> 'w"

definition string_write_str :: "string write_str" where
  "string_write_str out s = (True, out @ s)"

record 'w encoder =
  en_output :: 'w
  en_limits :: query_limits
  en_written :: nat
  en_first :: bool

type_synonym 'w encoding = "'w encoder \<Rightarrow> unit queried \<times> 'w encoder"

definition encoder_new :: "'w \<Rightarrow> query_limits \<Rightarrow> 'w encoder" where
  "encoder_new output limits =
     \<lparr>en_output = output, en_limits = limits, en_written = 0, en_first = True\<rparr>"

definition enc_done :: "'w encoding" where
  "enc_done e = (Inr (), e)"

text \<open>Sequence with \<open>?\<close>.\<close>

definition enc_then :: "'w encoding \<Rightarrow> 'w encoding \<Rightarrow> 'w encoding" where
  "enc_then m n e = (case m e of (Inl x, e') \<Rightarrow> (Inl x, e') | (Inr _, e') \<Rightarrow> n e')"

definition write_raw :: "'w write_str \<Rightarrow> string option \<Rightarrow> string \<Rightarrow> 'w encoding" where
  "write_raw write_str parameter val e =
     (case checked_add (en_written e) (length val) of
        None \<Rightarrow> (Inl (Err (error_production parameter TooLong)), e)
      | Some new_length \<Rightarrow>
          if max_encoded_length (en_limits e) < new_length
          then (Inl (Err (error_production parameter TooLong)), e)
          else case write_str (en_output e) val of
            (False, out) \<Rightarrow> (Inl (Err (error_production parameter Output)), e\<lparr>en_output := out\<rparr>)
          | (True, out) \<Rightarrow> (Inr (), e\<lparr>en_output := out, en_written := new_length\<rparr>))"

definition is_safe :: "char \<Rightarrow> bool" where
  "is_safe byte =
     (is_ascii_alphanumeric byte \<or> byte = CHR ''*'' \<or> byte = CHR ''-'' \<or> byte = CHR ''.'' \<or> byte = CHR ''_'')"

definition HEX :: string where
  "HEX = ''0123456789ABCDEF''"

definition hex_escape :: "char \<Rightarrow> string" where
  "hex_escape byte = [CHR ''%'', HEX ! (of_char byte div 16), HEX ! (of_char byte mod 16)]"

definition write_slice :: "'w write_str \<Rightarrow> string \<Rightarrow> string \<Rightarrow> nat \<Rightarrow> nat \<Rightarrow> 'w encoding" where
  "write_slice write_str parameter val a b e =
     (case str_slice val a b of
        Inl x \<Rightarrow> (Inl x, e)
      | Inr run \<Rightarrow> write_raw write_str (Some parameter) run e)"

definition write_escape :: "'w write_str \<Rightarrow> string \<Rightarrow> char \<Rightarrow> 'w encoding" where
  "write_escape write_str parameter byte e =
     (if byte = CHR '' '' then write_raw write_str (Some parameter) ''+'' e
      else let escaped = hex_escape byte
           in if valid_utf8 escaped then write_raw write_str (Some parameter) escaped e
              else (Inl (Panicked ''percent escape is ASCII''), e))"

fun write_encoded_from ::
  "'w write_str \<Rightarrow> string \<Rightarrow> string \<Rightarrow> nat \<Rightarrow> nat \<Rightarrow> string \<Rightarrow> 'w encoding" where
  "write_encoded_from write_str parameter val run_start index [] =
     (if run_start < length val then write_slice write_str parameter val run_start (length val)
      else enc_done)"
| "write_encoded_from write_str parameter val run_start index (byte # bytes) =
     (if is_safe byte then write_encoded_from write_str parameter val run_start (index + 1) bytes
      else enc_then
        (if run_start < index then write_slice write_str parameter val run_start index else enc_done)
        (enc_then (write_escape write_str parameter byte)
          (write_encoded_from write_str parameter val (index + 1) (index + 1) bytes)))"

definition write_encoded :: "'w write_str \<Rightarrow> string \<Rightarrow> string \<Rightarrow> 'w encoding" where
  "write_encoded write_str parameter val = write_encoded_from write_str parameter val 0 0 val"

definition start_pair :: "'w write_str \<Rightarrow> string \<Rightarrow> string \<Rightarrow> 'w encoding" where
  "start_pair write_str parameter encoded_parameter =
     enc_then (\<lambda>e. if \<not> en_first e then write_raw write_str (Some parameter) ''&'' e else enc_done e)
     (enc_then (\<lambda>e. enc_done (e\<lparr>en_first := False\<rparr>))
     (enc_then (write_raw write_str (Some parameter) encoded_parameter)
       (write_raw write_str (Some parameter) ''='')))"

definition pair_str :: "'w write_str \<Rightarrow> string \<Rightarrow> string \<Rightarrow> string \<Rightarrow> 'w encoding" where
  "pair_str write_str parameter encoded_parameter val =
     enc_then (start_pair write_str parameter encoded_parameter) (write_encoded write_str parameter val)"

text \<open>The methods for integers, which differ only in the type.\<close>

definition pair_integer ::
  "'w write_str \<Rightarrow> (int \<Rightarrow> string) \<Rightarrow> string \<Rightarrow> string \<Rightarrow> int \<Rightarrow> 'w encoding" where
  "pair_integer write_str itoa parameter encoded_parameter val =
     enc_then (start_pair write_str parameter encoded_parameter)
       (write_raw write_str (Some parameter) (itoa val))"

definition pair_bool :: "'w write_str \<Rightarrow> string \<Rightarrow> string \<Rightarrow> bool \<Rightarrow> 'w encoding" where
  "pair_bool write_str parameter encoded_parameter val =
     enc_then (start_pair write_str parameter encoded_parameter)
       (write_raw write_str (Some parameter) (if val then ''true'' else ''false''))"

datatype fmt_program = Fmt_Done bool | Fmt_Write string "bool \<Rightarrow> fmt_program"

text \<open>
  \<open>write!\<close> to an \<open>EncodingWriter\<close>: whether the formatting succeeded, the last error the adapter kept, and the
  encoder.
\<close>

primrec run_display ::
  "'w write_str \<Rightarrow> string \<Rightarrow> fmt_program \<Rightarrow> query_error option \<Rightarrow> 'w encoder \<Rightarrow>
     (bool \<times> query_error option) queried \<times> 'w encoder" where
  "run_display write_str parameter (Fmt_Done ok) error e = (Inr (ok, error), e)"
| "run_display write_str parameter (Fmt_Write s continue) error e =
     (case write_encoded write_str parameter s e of
        (Inr _, e') \<Rightarrow> run_display write_str parameter (continue True) error e'
      | (Inl (Err x), e') \<Rightarrow> run_display write_str parameter (continue False) (Some x) e'
      | (Inl (Panicked m), e') \<Rightarrow> (Inl (Panicked m), e'))"

definition pair_display :: "'w write_str \<Rightarrow> string \<Rightarrow> string \<Rightarrow> fmt_program \<Rightarrow> 'w encoding" where
  "pair_display write_str parameter encoded_parameter val =
     enc_then (start_pair write_str parameter encoded_parameter) (\<lambda>e.
       case run_display write_str parameter val None e of
         (Inl x, e') \<Rightarrow> (Inl x, e')
       | (Inr (ok, error), e') \<Rightarrow>
           (if \<not> ok
            then Inl (Err (case error of Some x \<Rightarrow> x | None \<Rightarrow> error_production (Some parameter) Format))
            else Inr (), e'))"

fun encode_parameter :: "string \<Rightarrow> string" where
  "encode_parameter [] = []"
| "encode_parameter (byte # bytes) =
     (if is_ascii_alphanumeric byte \<or> byte = CHR ''*'' \<or> byte = CHR ''-'' \<or> byte = CHR ''.'' \<or> byte = CHR ''_''
      then byte # encode_parameter bytes
      else if byte = CHR '' '' then CHR ''+'' # encode_parameter bytes
      else CHR ''%'' # HEX ! (of_char byte div 16) # HEX ! (of_char byte mod 16) # encode_parameter bytes)"

definition write_query_with :: "'w encoding \<Rightarrow> 'w \<Rightarrow> query_limits \<Rightarrow> unit queried \<times> 'w" where
  "write_query_with encode_fields output limits =
     (case encode_fields (encoder_new output limits) of (r, e) \<Rightarrow> (r, en_output e))"

definition to_query_string_with :: "string encoding \<Rightarrow> query_limits \<Rightarrow> string queried" where
  "to_query_string_with encode_fields limits =
     (case write_query_with encode_fields [] limits of
        (Inl x, _) \<Rightarrow> Inl x
      | (Inr _, output) \<Rightarrow> Inr output)"

definition to_query_string :: "string encoding \<Rightarrow> string queried" where
  "to_query_string encode_fields = to_query_string_with encode_fields limits_default"

section \<open>What the operations write\<close>

definition emit_all :: "'w write_str \<Rightarrow> string \<Rightarrow> string list \<Rightarrow> 'w encoding" where
  "emit_all write_str parameter ts =
     foldr (\<lambda>t rest. enc_then (write_raw write_str (Some parameter) t) rest) ts enc_done"

lemma enc_then_assoc: "enc_then (enc_then a b) c = enc_then a (enc_then b c)"
  by (simp add: enc_then_def fun_eq_iff split: prod.split sum.split)

lemma enc_then_done [simp]: "enc_then enc_done m = m" "enc_then m enc_done = m"
  by (auto simp: enc_then_def enc_done_def fun_eq_iff split: prod.split sum.split)

lemma emit_all_simps [simp]:
  "emit_all ws p [] = enc_done"
  "emit_all ws p (t # ts) = enc_then (write_raw ws (Some p) t) (emit_all ws p ts)"
  by (simp_all add: emit_all_def)

lemma emit_all_append: "emit_all ws p (ts @ us) = enc_then (emit_all ws p ts) (emit_all ws p us)"
  by (induction ts) (simp_all add: enc_then_assoc)

text \<open>The texts that \<open>write_encoded\<close> writes: runs of safe bytes and escapes.\<close>

fun encoded_runs :: "string \<Rightarrow> string \<Rightarrow> string list" where
  "encoded_runs run [] = (if run = [] then [] else [run])"
| "encoded_runs run (b # bs) =
     (if is_safe b then encoded_runs (run @ [b]) bs
      else (if run = [] then [] else [run]) @ [if b = CHR '' '' then ''+'' else hex_escape b] @ encoded_runs [] bs)"

lemma concat_encoded_runs: "concat (encoded_runs run s) = run @ encode_parameter s"
  by (induction run s rule: encoded_runs.induct) (auto simp: is_safe_def hex_escape_def)

lemma is_safe_ascii: "is_safe b \<Longrightarrow> is_ascii b"
  by (auto simp: is_safe_def ascii_defs)

lemma HEX_ascii: "i < 16 \<Longrightarrow> is_ascii (HEX ! i)"
  by (auto simp: HEX_def numeral_eq_Suc less_Suc_eq is_ascii_def)

lemma hex_escape_ascii: "list_all is_ascii (hex_escape b)"
proof -
  have "of_char b < (256 :: nat)" by simp
  hence "of_char b div 16 < (16 :: nat)" by (simp only: less_mult_imp_div_less)
  thus ?thesis by (simp add: hex_escape_def HEX_ascii is_ascii_def [of "CHR ''%''"])
qed

lemma write_escape_emit:
  "\<not> is_safe b \<Longrightarrow> write_escape ws p b = write_raw ws (Some p) (if b = CHR '' '' then ''+'' else hex_escape b)"
  by (simp add: write_escape_def valid_utf8_ascii hex_escape_ascii fun_eq_iff)

lemma write_slice_run:
  assumes "is_str (pre @ run @ post)" "run \<noteq> []" "list_all is_ascii run"
  shows "write_slice ws p (pre @ run @ post) (length pre) (length pre + length run) = write_raw ws (Some p) run"
proof -
  obtain c cs where run: "run = c # cs" "is_ascii c" using assms(2,3) by (cases run) auto
  have "is_char_boundary (pre @ run @ post) (length pre)"
    using boundary_at_ascii [OF run(2), of pre "cs @ post"] run(1) by simp
  moreover have "is_char_boundary (pre @ run @ post) (length pre + length run)"
  proof -
    obtain l xs where last: "run = xs @ [l]" using assms(2) by (metis append_butlast_last_id)
    hence "is_ascii l" using assms(3) by simp
    thus ?thesis using boundary_after_ascii [of "pre @ xs" l post] assms(1) last by simp
  qed
  ultimately have "str_slice (pre @ run @ post) (length pre) (length pre + length run) = (Inr run :: string queried)"
    by (simp add: str_slice_def)
  thus ?thesis by (simp add: write_slice_def fun_eq_iff)
qed

lemma write_encoded_from_emit:
  "is_str val \<Longrightarrow> val = pre @ run @ bytes \<Longrightarrow> list_all is_safe run \<Longrightarrow>
     write_encoded_from ws p val (length pre) (length pre + length run) bytes =
       emit_all ws p (encoded_runs run bytes)"
proof (induction bytes arbitrary: pre run)
  case Nil
  have "list_all is_ascii run" using Nil.prems(3) by (auto simp: list_all_iff is_safe_ascii)
  thus ?case using Nil.prems write_slice_run [of pre run "[]" ws p] by auto
next
  case (Cons b bs)
  have ascii: "list_all is_ascii run" using Cons.prems(3) by (auto simp: list_all_iff is_safe_ascii)
  show ?case
  proof (cases "is_safe b")
    case True
    thus ?thesis using Cons.IH [of pre "run @ [b]"] Cons.prems by simp
  next
    case False
    have "write_encoded_from ws p val (length pre + length run + 1) (length pre + length run + 1) bs =
        emit_all ws p (encoded_runs [] bs)"
      using Cons.IH [of "pre @ run @ [b]" "[]"] Cons.prems by simp
    moreover have "(if length pre < length pre + length run
          then write_slice ws p val (length pre) (length pre + length run) else enc_done) =
        emit_all ws p (if run = [] then [] else [run])"
      using write_slice_run [of pre run "b # bs" ws p] Cons.prems(1,2) ascii by auto
    ultimately show ?thesis
      using False by (simp add: write_escape_emit emit_all_append del: emit_all_simps) simp
  qed
qed

lemma write_encoded_emit:
  "valid_utf8 val \<Longrightarrow> write_encoded ws p val = emit_all ws p (encoded_runs [] val)"
  using write_encoded_from_emit [of val "[]" "[]" val ws p] valid_utf8_is_str [of val]
  by (simp add: write_encoded_def)

definition lead :: "'w encoder \<Rightarrow> string \<Rightarrow> string list" where
  "lead e encoded_parameter = (if en_first e then [] else [''&'']) @ [encoded_parameter, ''='']"

lemma start_pair_emit:
  "start_pair ws p ep e = emit_all ws p (lead e ep) (e\<lparr>en_first := False\<rparr>)"
proof (cases "en_first e")
  case True
  thus ?thesis by (simp add: start_pair_def enc_then_def enc_done_def lead_def)
next
  case False
  hence e: "e\<lparr>en_first := False\<rparr> = e" by simp
  have raw_first: "en_first (snd (write_raw ws q t e')) = en_first e'" for q t e'
    by (auto simp: write_raw_def split: option.split prod.split bool.split)
  obtain r e' where raw: "write_raw ws (Some p) ''&'' e = (r, e')" by (cases "write_raw ws (Some p) ''&'' e")
  have "e'\<lparr>en_first := False\<rparr> = e'" using raw_first [of "Some p" "''&''" e] raw False by simp
  thus ?thesis
    unfolding e using False raw by (simp add: start_pair_def enc_then_def enc_done_def lead_def split: sum.split)
qed

lemma enc_then_start:
  "enc_then (start_pair ws p ep) (emit_all ws p ts) e = emit_all ws p (lead e ep @ ts) (e\<lparr>en_first := False\<rparr>)"
  by (simp add: enc_then_def start_pair_emit emit_all_append)

lemma pair_emits:
  "valid_utf8 val \<Longrightarrow>
     pair_str ws p ep val e = emit_all ws p (lead e ep @ encoded_runs [] val) (e\<lparr>en_first := False\<rparr>)"
  "pair_integer ws itoa p ep n e = emit_all ws p (lead e ep @ [itoa n]) (e\<lparr>en_first := False\<rparr>)"
  "pair_bool ws p ep b e =
     emit_all ws p (lead e ep @ [if b then ''true'' else ''false'']) (e\<lparr>en_first := False\<rparr>)"
  by (simp_all add: pair_str_def pair_integer_def pair_bool_def write_encoded_emit
      flip: enc_then_start)

text \<open>The text that a \<open>Display\<close> implementation shows when every write is accepted.\<close>

primrec shown :: "fmt_program \<Rightarrow> string option" where
  "shown (Fmt_Done ok) = (if ok then Some [] else None)"
| "shown (Fmt_Write s continue) = map_option ((@) s) (shown (continue True))"

primrec writes_valid :: "fmt_program \<Rightarrow> bool" where
  "writes_valid (Fmt_Done ok) = True"
| "writes_valid (Fmt_Write s continue) = (valid_utf8 s \<and> writes_valid (continue True))"

lemma encode_parameter_append: "encode_parameter (s @ t) = encode_parameter s @ encode_parameter t"
  by (induction s) simp_all

section \<open>Writers\<close>

locale fmt_write =
  fixes write_str :: "'w write_str"
    and text_of :: "'w \<Rightarrow> string"
  assumes accepted: "write_str w s = (True, w') \<Longrightarrow> text_of w' = text_of w @ s"
begin

lemma write_raw_text:
  "write_raw write_str q t e = (Inr (), e') \<Longrightarrow>
     text_of (en_output e') = text_of (en_output e) @ t \<and> en_first e' = en_first e"
  by (auto simp: write_raw_def accepted split: option.splits if_splits prod.splits bool.splits)

lemma emit_all_text:
  "emit_all write_str p ts e = (Inr (), e') \<Longrightarrow>
     text_of (en_output e') = text_of (en_output e) @ concat ts \<and> en_first e' = en_first e"
proof (induction ts arbitrary: e)
  case (Cons t ts)
  obtain e1 where e1: "write_raw write_str (Some p) t e = (Inr (), e1)" "emit_all write_str p ts e1 = (Inr (), e')"
    using Cons.prems by (auto simp: enc_then_def split: prod.splits sum.splits)
  show ?case using Cons.IH [OF e1(2)] write_raw_text [OF e1(1)] by simp
qed (simp add: enc_done_def)

lemma pair_str_text:
  assumes "pair_str write_str p ep val e = (Inr (), e')" "valid_utf8 val"
  shows "text_of (en_output e') =
    text_of (en_output e) @ (if en_first e then [] else ''&'') @ ep @ ''='' @ encode_parameter val"
  using emit_all_text [OF assms(1) [unfolded pair_emits(1) [OF assms(2)]]]
  by (simp add: lead_def concat_encoded_runs)

end

text \<open>A writer that accepts every text fails only for the length limit.\<close>

locale total_write = fmt_write +
  assumes accepts: "fst (write_str w s)"
begin

lemma write_raw_fits:
  assumes "en_written e + length t \<le> min usize_max (max_encoded_length (en_limits e))"
  obtains out where "write_raw write_str q t e = (Inr (), e\<lparr>en_output := out, en_written := en_written e + length t\<rparr>)"
    "text_of out = text_of (en_output e) @ t"
proof -
  obtain out where "write_str (en_output e) t = (True, out)"
    using accepts [of "en_output e" t] by (cases "write_str (en_output e) t") auto
  thus ?thesis using that [of out] accepted assms by (simp add: write_raw_def checked_add_def not_less)
qed

lemma write_raw_too_long:
  "\<not> en_written e + length t \<le> min usize_max (max_encoded_length (en_limits e)) \<Longrightarrow>
     write_raw write_str q t e = (Inl (Err (error_production q TooLong)), e)"
  by (auto simp: write_raw_def checked_add_def)

lemma emit_all_fits:
  "en_written e + length (concat ts) \<le> min usize_max (max_encoded_length (en_limits e)) \<Longrightarrow>
     \<exists>out. emit_all write_str p ts e =
         (Inr (), e\<lparr>en_output := out, en_written := en_written e + length (concat ts)\<rparr>) \<and>
       text_of out = text_of (en_output e) @ concat ts"
proof (induction ts arbitrary: e)
  case Nil
  show ?case by (intro exI [of _ "en_output e"]) (simp add: enc_done_def)
next
  case (Cons t ts)
  obtain out where out: "write_raw write_str (Some p) t e =
      (Inr (), e\<lparr>en_output := out, en_written := en_written e + length t\<rparr>)"
      "text_of out = text_of (en_output e) @ t"
    using write_raw_fits [of e t "Some p"] Cons.prems by auto
  show ?case using Cons.IH [of "e\<lparr>en_output := out, en_written := en_written e + length t\<rparr>"] Cons.prems out
    by (auto simp: enc_then_def add.assoc)
qed

lemma emit_all_too_long:
  "\<not> en_written e + length (concat ts) \<le> min usize_max (max_encoded_length (en_limits e)) \<Longrightarrow>
     en_written e \<le> min usize_max (max_encoded_length (en_limits e)) \<Longrightarrow>
     \<exists>e'. emit_all write_str p ts e = (Inl (Err (error_production (Some p) TooLong)), e')"
proof (induction ts arbitrary: e)
  case (Cons t ts)
  show ?case
  proof (cases "en_written e + length t \<le> min usize_max (max_encoded_length (en_limits e))")
    case True
    then obtain out where "write_raw write_str (Some p) t e =
        (Inr (), e\<lparr>en_output := out, en_written := en_written e + length t\<rparr>)"
      using write_raw_fits by blast
    thus ?thesis using Cons.IH [of "e\<lparr>en_output := out, en_written := en_written e + length t\<rparr>"] Cons.prems True
      by (auto simp: enc_then_def add.assoc)
  next
    case False
    thus ?thesis by (simp add: enc_then_def write_raw_too_long del: min_less_iff_disj)
  qed
qed simp

lemma run_display_fits:
  "shown prog = Some s \<Longrightarrow> writes_valid prog \<Longrightarrow>
     en_written e + length (encode_parameter s) \<le> min usize_max (max_encoded_length (en_limits e)) \<Longrightarrow>
     \<exists>out. run_display write_str p prog error e =
         (Inr (True, error), e\<lparr>en_output := out, en_written := en_written e + length (encode_parameter s)\<rparr>) \<and>
       text_of out = text_of (en_output e) @ encode_parameter s"
proof (induction prog arbitrary: s e)
  case (Fmt_Done ok)
  thus ?case by (intro exI [of _ "en_output e"]) (auto split: if_splits)
next
  case (Fmt_Write t continue)
  obtain s' where s': "shown (continue True) = Some s'" "s = t @ s'" using Fmt_Write.prems(1) by auto
  note len = encode_parameter_append [of t s']
  obtain out where out: "write_encoded write_str p t e =
      (Inr (), e\<lparr>en_output := out, en_written := en_written e + length (encode_parameter t)\<rparr>)"
      "text_of out = text_of (en_output e) @ encode_parameter t"
    using emit_all_fits [of e "encoded_runs [] t" p] Fmt_Write.prems(2,3) s'(2) len
    by (auto simp: write_encoded_emit concat_encoded_runs)
  show ?case
    using Fmt_Write.IH [OF _ s'(1), of "e\<lparr>en_output := out, en_written := en_written e + length (encode_parameter t)\<rparr>"]
      Fmt_Write.prems(2,3) s'(2) out len
    by (auto simp: add.assoc)
qed

end

interpretation string_writer: total_write string_write_str "\<lambda>s. s"
  by unfold_locales (simp_all add: string_write_str_def)

end
