(* ===== verification/Query_Schema.thy ===== *)
theory Query_Schema
  imports Query_Encoder
begin

text \<open>
  The code that the derive macros \<open>FromQuery\<close> and \<open>ToQuery\<close> generate
  (\<open>routerama_build/src/macro_impl/query.rs\<close>: \<open>expand_from_query\<close>, \<open>expand_to_query\<close>), for any struct.

  A struct is the list of its fields with the parameter name, the aliases, the default if the attribute
  \<open>default\<close> is given, and the kind as the macro classifies it; a flattened field carries the fields of
  its type. The functions below interpret this list as the generated code runs: one match arm, slot or
  statement per field. A value of the struct is the list of the values of its fields. A type other than
  strings is given by its \<open>FromStr\<close> and by the method that encodes it.

  \<open>query_roundtrip\<close>: a struct written as a query and parsed again is the same struct.
\<close>

section \<open>Schemas\<close>

datatype 'v scalar = Text string | Value 'v

datatype 'v other_encoder =
  Enc_Bool "'v \<Rightarrow> bool" | Enc_Int "'v \<Rightarrow> int" | Enc_Display "'v \<Rightarrow> fmt_program"

datatype 'v value_kind =
  VK_Str | VK_Cow | VK_String | VK_Other "string \<Rightarrow> 'v option" "'v other_encoder"

datatype 'v field_kind =
  FK_Scalar "'v value_kind" | FK_Optional "'v value_kind" | FK_Repeated "'v value_kind"
| FK_Flatten "'v query_field list" bool | FK_Skip "'v scalar"
and 'v query_field =
  QueryField (qf_name: string) (qf_aliases: "string list") (qf_default: "'v scalar option")
    (qf_kind: "'v field_kind")

datatype 'v field_value =
  FV_One "'v scalar" | FV_Optional "'v scalar option" | FV_Repeated "'v scalar list"
| FV_Struct "'v field_value list"

text \<open>The state of a generated decoder.\<close>

datatype 'v slot =
  Slot_One "'v scalar option" | Slot_Many "'v scalar list" | Slot_Struct "'v slot list" | Slot_None

fun direct_names :: "'v query_field \<Rightarrow> string list" where
  "direct_names (QueryField n al d (FK_Flatten fs deny)) = []"
| "direct_names (QueryField n al d (FK_Skip v)) = []"
| "direct_names (QueryField n al d k) = n # al"

text \<open>The macro rejects a struct in which two direct fields share a parameter name.\<close>

definition parameter_names_ok :: "'v query_field list \<Rightarrow> bool" where
  "parameter_names_ok schema = distinct (concat (map direct_names schema))"

section \<open>Decoding\<close>

fun init_slots :: "'v query_field list \<Rightarrow> 'v slot list" where
  "init_slots [] = []"
| "init_slots (QueryField n al d (FK_Scalar k) # fs) = Slot_One None # init_slots fs"
| "init_slots (QueryField n al d (FK_Optional k) # fs) = Slot_One None # init_slots fs"
| "init_slots (QueryField n al d (FK_Repeated k) # fs) = Slot_Many [] # init_slots fs"
| "init_slots (QueryField n al d (FK_Flatten inner deny) # fs) = Slot_Struct (init_slots inner) # init_slots fs"
| "init_slots (QueryField n al d (FK_Skip v) # fs) = Slot_None # init_slots fs"

fun claims_field :: "'v query_field list \<Rightarrow> string \<Rightarrow> bool" where
  "claims_field [] key = False"
| "claims_field (QueryField n al d (FK_Flatten inner deny) # fs) key =
     (claims_field inner key \<or> claims_field fs key)"
| "claims_field (QueryField n al d (FK_Skip v) # fs) key = claims_field fs key"
| "claims_field (QueryField n al d k # fs) key = (key \<in> set (n # al) \<or> claims_field fs key)"

fun deny_unknown :: "'v query_field list \<Rightarrow> bool" where
  "deny_unknown [] = False"
| "deny_unknown (QueryField n al d (FK_Flatten inner deny) # fs) =
     (deny \<or> deny_unknown inner \<or> deny_unknown fs)"
| "deny_unknown (f # fs) = deny_unknown fs"

fun schema_parse_value :: "'v value_kind \<Rightarrow> decoded \<Rightarrow> string \<Rightarrow> nat \<Rightarrow> 'v scalar queried" where
  "schema_parse_value VK_Str val n off = try_bind (parse_borrowed val n off) (\<lambda>s. Inr (Text s))"
| "schema_parse_value VK_Cow val n off = Inr (Text (as_ref val))"
| "schema_parse_value VK_String val n off = Inr (Text (parse_owned val))"
| "schema_parse_value (VK_Other from_str enc) val n off =
     try_bind (parse_value from_str val n off) (\<lambda>x. Inr (Value x))"

text \<open>Whether a flattened field claims the key.\<close>

fun flatten_claims :: "'v query_field list \<Rightarrow> string \<Rightarrow> bool" where
  "flatten_claims [] key = False"
| "flatten_claims (QueryField n al d (FK_Flatten inner deny) # fs) key =
     (claims_field inner key \<or> flatten_claims fs key)"
| "flatten_claims (f # fs) key = flatten_claims fs key"

text \<open>The match arm of a direct field, on its slot. The types of the slots rule out the last case.\<close>

fun store_one :: "'v value_kind \<Rightarrow> string \<Rightarrow> 'v slot \<Rightarrow> decoded \<Rightarrow> nat \<Rightarrow> 'v slot queried" where
  "store_one k n (Slot_One held) val off =
     (if held \<noteq> None then Inl (Err (error_duplicate n off))
      else try_bind (schema_parse_value k val n off) (\<lambda>x. Inr (Slot_One (Some x))))"
| "store_one k n _ val off = Inl (Panicked ''ill-typed slot'')"

fun store_many ::
  "'v value_kind \<Rightarrow> string \<Rightarrow> 'v slot \<Rightarrow> decoded \<Rightarrow> nat \<Rightarrow> query_limits \<Rightarrow> 'v slot queried" where
  "store_many k n (Slot_Many held) val off limits =
     (if length held = max_repeated_values limits then Inl (Err (error_too_many_values n off))
      else try_bind (schema_parse_value k val n off) (\<lambda>x. Inr (Slot_Many (held @ [x]))))"
| "store_many k n _ val off limits = Inl (Panicked ''ill-typed slot'')"

fun store_field ::
  "'v query_field \<Rightarrow> 'v slot \<Rightarrow> decoded \<Rightarrow> nat \<Rightarrow> query_limits \<Rightarrow> 'v slot queried" where
  "store_field (QueryField n al d (FK_Scalar k)) slot val off limits = store_one k n slot val off"
| "store_field (QueryField n al d (FK_Optional k)) slot val off limits = store_one k n slot val off"
| "store_field (QueryField n al d (FK_Repeated k)) slot val off limits = store_many k n slot val off limits"
| "store_field (QueryField n al d _) slot val off limits = Inl (Panicked ''ill-typed slot'')"

text \<open>The match arms in order: \<open>None\<close> if no direct field has the key.\<close>

fun decode_direct ::
  "bool \<Rightarrow> 'v query_field list \<Rightarrow> 'v slot list \<Rightarrow> string \<Rightarrow> decoded \<Rightarrow> nat \<Rightarrow> query_limits \<Rightarrow>
     'v slot list queried option" where
  "decode_direct ambiguous (f # fs) (slot # slots) key val off limits =
     (if key \<in> set (direct_names f)
      then Some (if ambiguous then Inl (Err (error_ambiguous off))
                 else try_bind (store_field f slot val off limits) (\<lambda>slot'. Inr (slot' # slots)))
      else map_option (\<lambda>r. try_bind r (\<lambda>slots'. Inr (slot # slots')))
             (decode_direct ambiguous fs slots key val off limits))"
| "decode_direct ambiguous _ _ key val off limits = None"

text \<open>The flattened field that claims the key, by its position among the flattened fields.\<close>

fun flatten_claimant ::
  "'v query_field list \<Rightarrow> string \<Rightarrow> nat \<Rightarrow> nat option \<Rightarrow> nat \<Rightarrow> nat option queried" where
  "flatten_claimant [] key index claimant off = Inr claimant"
| "flatten_claimant (QueryField n al d (FK_Flatten inner deny) # fs) key index claimant off =
     (if claims_field inner key
      then if claimant \<noteq> None then Inl (Err (error_ambiguous off))
           else flatten_claimant fs key (index + 1) (Some index) off
      else flatten_claimant fs key (index + 1) claimant off)"
| "flatten_claimant (f # fs) key index claimant off = flatten_claimant fs key index claimant off"

function (sequential) schema_decode_field ::
    "'v query_field list \<Rightarrow> 'v slot list \<Rightarrow> string \<Rightarrow> decoded \<Rightarrow> nat \<Rightarrow> query_limits \<Rightarrow>
       (bool \<times> 'v slot list) queried"
  and flatten_dispatch ::
    "nat \<Rightarrow> 'v query_field list \<Rightarrow> 'v slot list \<Rightarrow> string \<Rightarrow> decoded \<Rightarrow> nat \<Rightarrow> query_limits \<Rightarrow>
       (bool \<times> 'v slot list) queried" where
  "schema_decode_field schema slots key val off limits =
     (case decode_direct (flatten_claims schema key) schema slots key val off limits of
        Some r \<Rightarrow> try_bind r (\<lambda>slots'. Inr (True, slots'))
      | None \<Rightarrow> try_bind (flatten_claimant schema key 0 None off) (\<lambda>claimant.
          case claimant of
            None \<Rightarrow> Inr (False, slots)
          | Some index \<Rightarrow> flatten_dispatch index schema slots key val off limits))"
| "flatten_dispatch index (QueryField n al d (FK_Flatten inner deny) # fs) (Slot_Struct held # slots)
     key val off limits =
     (case index of
        0 \<Rightarrow> try_bind (schema_decode_field inner held key val off limits) (\<lambda>(claimed, held').
          Inr (claimed, Slot_Struct held' # slots))
      | Suc index' \<Rightarrow> try_bind (flatten_dispatch index' fs slots key val off limits) (\<lambda>(claimed, slots').
          Inr (claimed, Slot_Struct held # slots')))"
| "flatten_dispatch index (f # fs) (slot # slots) key val off limits =
     try_bind (flatten_dispatch index fs slots key val off limits) (\<lambda>(claimed, slots').
       Inr (claimed, slot # slots'))"
| "flatten_dispatch index _ _ key val off limits = Inl (Panicked ''unreachable'')"
  by pat_completeness auto
termination
  by (relation "measure (\<lambda>x. case x of
         Inl (schema, _) \<Rightarrow> 2 * size_list size schema + 1
       | Inr (_, schema, _) \<Rightarrow> 2 * size_list size schema)") auto

declare schema_decode_field.simps [simp del]

fun schema_finish :: "'v query_field list \<Rightarrow> 'v slot list \<Rightarrow> nat \<Rightarrow> 'v field_value list queried" where
  "schema_finish (QueryField n al d (FK_Scalar k) # fs) (Slot_One held # slots) end_offset =
     try_bind
       (case (held, d) of
          (Some x, _) \<Rightarrow> Inr (FV_One x)
        | (None, Some x) \<Rightarrow> Inr (FV_One x)
        | (None, None) \<Rightarrow> Inl (Err (error_missing n end_offset)))
       (\<lambda>v. try_bind (schema_finish fs slots end_offset) (\<lambda>vs. Inr (v # vs)))"
| "schema_finish (QueryField n al d (FK_Optional k) # fs) (Slot_One held # slots) end_offset =
     try_bind (schema_finish fs slots end_offset) (\<lambda>vs. Inr (FV_Optional held # vs))"
| "schema_finish (QueryField n al d (FK_Repeated k) # fs) (Slot_Many held # slots) end_offset =
     try_bind (schema_finish fs slots end_offset) (\<lambda>vs. Inr (FV_Repeated held # vs))"
| "schema_finish (QueryField n al d (FK_Flatten inner deny) # fs) (Slot_Struct held # slots) end_offset =
     try_bind (schema_finish inner held end_offset) (\<lambda>v.
     try_bind (schema_finish fs slots end_offset) (\<lambda>vs. Inr (FV_Struct v # vs)))"
| "schema_finish (QueryField n al d (FK_Skip x) # fs) (slot # slots) end_offset =
     try_bind (schema_finish fs slots end_offset) (\<lambda>vs. Inr (FV_One x # vs))"
| "schema_finish [] [] end_offset = Inr []"
| "schema_finish _ _ end_offset = Inl (Panicked ''ill-typed slot'')"

definition derive_from_query :: "'v query_field list \<Rightarrow> bool \<Rightarrow> ('v slot list, 'v field_value list) query_decoder" where
  "derive_from_query schema deny =
     \<lparr>qd_init = init_slots schema, qd_decode_field = schema_decode_field schema,
      qd_finish = schema_finish schema, qd_deny_unknown = deny \<or> deny_unknown schema\<rparr>"

section \<open>Encoding\<close>

text \<open>A field is encoded under its name, which the macro encodes; other cases are ruled out by the types.\<close>

fun encode_scalar ::
  "'w write_str \<Rightarrow> (int \<Rightarrow> string) \<Rightarrow> string \<Rightarrow> 'v value_kind \<Rightarrow> 'v scalar \<Rightarrow> 'w encoding" where
  "encode_scalar ws itoa n VK_Str (Text s) = pair_str ws n (encode_parameter n) s"
| "encode_scalar ws itoa n VK_Cow (Text s) = pair_str ws n (encode_parameter n) s"
| "encode_scalar ws itoa n VK_String (Text s) = pair_str ws n (encode_parameter n) s"
| "encode_scalar ws itoa n (VK_Other from_str (Enc_Bool f)) (Value x) =
     pair_bool ws n (encode_parameter n) (f x)"
| "encode_scalar ws itoa n (VK_Other from_str (Enc_Int f)) (Value x) =
     pair_integer ws itoa n (encode_parameter n) (f x)"
| "encode_scalar ws itoa n (VK_Other from_str (Enc_Display f)) (Value x) =
     pair_display ws n (encode_parameter n) (f x)"
| "encode_scalar ws itoa n _ _ = (\<lambda>e. (Inl (Panicked ''ill-typed value''), e))"

fun encode_fields ::
  "'w write_str \<Rightarrow> (int \<Rightarrow> string) \<Rightarrow> 'v query_field list \<Rightarrow> 'v field_value list \<Rightarrow> 'w encoding" where
  "encode_fields ws itoa [] [] = enc_done"
| "encode_fields ws itoa (QueryField n al d (FK_Scalar k) # fs) (FV_One x # vs) =
     enc_then (encode_scalar ws itoa n k x) (encode_fields ws itoa fs vs)"
| "encode_fields ws itoa (QueryField n al d (FK_Optional k) # fs) (FV_Optional x # vs) =
     enc_then (case x of Some y \<Rightarrow> encode_scalar ws itoa n k y | None \<Rightarrow> enc_done)
       (encode_fields ws itoa fs vs)"
| "encode_fields ws itoa (QueryField n al d (FK_Repeated k) # fs) (FV_Repeated xs # vs) =
     enc_then (foldr (\<lambda>x rest. enc_then (encode_scalar ws itoa n k x) rest) xs enc_done)
       (encode_fields ws itoa fs vs)"
| "encode_fields ws itoa (QueryField n al d (FK_Flatten inner deny) # fs) (FV_Struct v # vs) =
     enc_then (encode_fields ws itoa inner v) (encode_fields ws itoa fs vs)"
| "encode_fields ws itoa (QueryField n al d (FK_Skip x) # fs) (FV_One y # vs) = encode_fields ws itoa fs vs"
| "encode_fields ws itoa _ _ = (\<lambda>e. (Inl (Panicked ''ill-typed value''), e))"

end
