(* ===== verification/Query_Roundtrip.thy ===== *)
theory Query_Roundtrip
  imports Query_Schema
begin

text \<open>
  A derived struct written as a query string and parsed again is the same struct.

  \<^item> Percent coding: a component decodes to the text it encodes (\<open>percent_decode_encode\<close>).
  \<^item> The encoder writes the pairs of the struct (\<open>field_pairs\<close>) joined by \<open>&\<close> (\<open>encode_fields_text\<close>).
  \<^item> The parser reads the pairs back (\<open>run_pairs_feeds\<close>), and the generated decoder puts each into the slot
    it came from (\<open>decode_own_field\<close>, \<open>feeds_schema\<close>), also through flattened structs.
\<close>

section \<open>Percent coding\<close>

lemma HEX_digits:
  "list_all (\<lambda>i. hex (HEX ! i) = Some i \<and> HEX ! i \<noteq> CHR ''&'' \<and> HEX ! i \<noteq> CHR ''='') [0..<16]"
  by code_simp

lemma hex_HEX: "i < 16 \<Longrightarrow> hex (HEX ! i) = Some i"
  and HEX_plain: "i < 16 \<Longrightarrow> HEX ! i \<noteq> CHR ''&'' \<and> HEX ! i \<noteq> CHR ''=''"
  using HEX_digits by (simp_all add: list_all_iff del: upt_Suc)

lemma of_char_digits: "of_char b div 16 < (16 :: nat)" "of_char b mod 16 < (16 :: nat)"
proof -
  have "of_char b < (256 :: nat)" by simp
  thus "of_char b div 16 < (16 :: nat)" by (simp only: less_mult_imp_div_less)
qed simp

lemma is_safe_not_marker: "is_safe b \<Longrightarrow> b \<noteq> CHR ''+'' \<and> b \<noteq> CHR ''%'' \<and> b \<noteq> CHR ''&'' \<and> b \<noteq> CHR ''=''"
  by (auto simp: is_safe_def ascii_defs)

lemma encode_parameter_Cons:
  "encode_parameter (b # s) =
     (if is_safe b then [b] else if b = CHR '' '' then ''+'' else hex_escape b) @ encode_parameter s"
  by (simp add: is_safe_def hex_escape_def)

declare encode_parameter.simps(2) [simp del]

lemma percent_decode_escape:
  "percent_decode i (hex_escape b @ r) = map_sum id ((#) b) (percent_decode (i + 3) r)"
  using of_char_digits [of b] by (simp add: hex_escape_def hex_HEX)

lemma percent_decode_encode: "percent_decode i (encode_parameter s) = Inr s"
proof (induction s arbitrary: i)
  case (Cons b s)
  show ?case
    using Cons is_safe_not_marker [of b]
    by (auto simp: encode_parameter_Cons percent_decode_escape)
qed simp

lemma encode_parameter_plain: "CHR ''&'' \<notin> set (encode_parameter s) \<and> CHR ''='' \<notin> set (encode_parameter s)"
proof (induction s)
  case (Cons b s)
  have "CHR ''&'' \<notin> set (hex_escape b)" "CHR ''='' \<notin> set (hex_escape b)"
    using HEX_plain [OF of_char_digits(1) [of b]] HEX_plain [OF of_char_digits(2) [of b]]
    by (auto simp: hex_escape_def)
  thus ?case using Cons is_safe_not_marker [of b] by (auto simp: encode_parameter_Cons)
qed simp

lemma encode_parameter_ascii: "list_all is_ascii (encode_parameter s)"
proof (induction s)
  case (Cons b s)
  thus ?case using hex_escape_ascii [of b] is_safe_ascii [of b]
    by (auto simp: encode_parameter_Cons is_ascii_def [of "CHR ''+''"])
qed simp

lemma encode_parameter_safe: "list_all is_safe s \<Longrightarrow> encode_parameter s = s"
  by (induction s) (simp_all add: encode_parameter_Cons)

lemma is_encoded_encode: "is_encoded (encode_parameter s) \<longleftrightarrow> \<not> list_all is_safe s"
proof (induction s)
  case (Cons b s)
  thus ?case using is_safe_not_marker [of b]
    by (auto simp: encode_parameter_Cons is_encoded_def hex_escape_def)
qed simp

text \<open>What the parser hands to a decoder for a component that encodes a text.\<close>

definition wire :: "string \<Rightarrow> decoded" where
  "wire s = (if list_all is_safe s then Borrowed s else Owned s)"

lemma as_ref_wire [simp]: "as_ref (wire s) = s"
  by (simp add: wire_def)

lemma decode_component_encode:
  assumes "valid_utf8 s" "tot + length s \<le> min usize_max (max_decoded_length limits)"
  shows "decode_component limits tot offset (encode_parameter s) = Inr (wire s, tot + length s)"
  using assms is_encoded_encode [of s]
  by (auto simp: decode_component_def percent_decode_encode wire_def encode_parameter_safe is_encoded_def not_less)

section \<open>Pairs on the wire\<close>

definition piece_text :: "string \<times> string \<Rightarrow> string" where
  "piece_text p = encode_parameter (fst p) @ ''='' @ encode_parameter (snd p)"

definition query_text :: "(string \<times> string) list \<Rightarrow> string" where
  "query_text ps = join_with CHR ''&'' (map piece_text ps)"

definition decoded_length :: "(string \<times> string) list \<Rightarrow> nat" where
  "decoded_length ps = sum_list (map (\<lambda>p. length (fst p) + length (snd p)) ps)"

lemma piece_text_parts:
  "key_of (piece_text p) = encode_parameter (fst p)" "value_of (piece_text p) = encode_parameter (snd p)"
  "CHR ''='' \<in> set (piece_text p)" "piece_text p \<noteq> []" "CHR ''&'' \<notin> set (piece_text p)"
proof -
  have "\<forall>b \<in> set (encode_parameter (fst p)). b \<noteq> CHR ''=''" using encode_parameter_plain [of "fst p"] by auto
  thus key: "key_of (piece_text p) = encode_parameter (fst p)"
    by (simp add: piece_text_def takeWhile_append2)
  show "value_of (piece_text p) = encode_parameter (snd p)"
    unfolding key by (simp add: piece_text_def)
  show "CHR ''&'' \<notin> set (piece_text p)"
    using encode_parameter_plain [of "fst p"] encode_parameter_plain [of "snd p"] by (simp add: piece_text_def)
qed (simp_all add: piece_text_def)

lemma decode_piece_text:
  assumes "valid_utf8 (fst p)" "valid_utf8 (snd p)"
    "tot + length (fst p) + length (snd p) \<le> min usize_max (max_decoded_length limits)"
  shows "decode_piece limits tot offset (piece_text p) =
    Inr (\<lparr>pair_key = wire (fst p), pair_value = wire (snd p), pair_offset = offset\<rparr>,
      tot + length (fst p) + length (snd p))"
  using assms unfolding decode_piece_def Let_def piece_text_parts
  by (simp add: piece_text_parts(2) [unfolded piece_text_parts(1), simplified] decode_component_encode)

text \<open>A decoder step that accepts the pairs one after the other.\<close>

primrec feeds ::
  "('s \<Rightarrow> string \<Rightarrow> decoded \<Rightarrow> nat \<Rightarrow> (bool \<times> 's) queried) \<Rightarrow> 's \<Rightarrow> (string \<times> string) list \<Rightarrow> 's \<Rightarrow> bool" where
  "feeds step s [] s' \<longleftrightarrow> s' = s"
| "feeds step s (p # ps) s' \<longleftrightarrow>
     (\<exists>s1. (\<forall>off. step s (fst p) (wire (snd p)) off = Inr (True, s1)) \<and> feeds step s1 ps s')"

lemma feeds_append: "feeds step s (ps @ qs) s' \<longleftrightarrow> (\<exists>s1. feeds step s ps s1 \<and> feeds step s1 qs s')"
  by (induction ps arbitrary: s) auto

lemma run_pairs_feeds:
  assumes "feeds (\<lambda>s key val off. qd_decode_field dec s key val off limits) s ps s'"
    and "\<forall>p \<in> set ps. valid_utf8 (fst p) \<and> valid_utf8 (snd p)"
    and "n + length ps \<le> max_pairs limits"
    and "tot + decoded_length ps \<le> min usize_max (max_decoded_length limits)"
  shows "run_pairs limits (decode_step dec limits) s n tot offset (map piece_text ps) = Inr s'"
  using assms
proof (induction ps arbitrary: s n tot offset)
  case (Cons p ps)
  obtain s1 where s1: "\<forall>off. qd_decode_field dec s (fst p) (wire (snd p)) off limits = Inr (True, s1)"
      "feeds (\<lambda>s key val off. qd_decode_field dec s key val off limits) s1 ps s'"
    using Cons.prems(1) by auto
  have piece: "decode_piece limits tot offset (piece_text p) =
      Inr (\<lparr>pair_key = wire (fst p), pair_value = wire (snd p), pair_offset = offset\<rparr>,
        tot + length (fst p) + length (snd p))"
    using Cons.prems(2,4) by (intro decode_piece_text) (auto simp: decoded_length_def)
  have "run_pairs limits (decode_step dec limits) s1 (n + 1) (tot + length (fst p) + length (snd p))
      (offset + length (piece_text p) + 1) (map piece_text ps) = Inr s'"
    using Cons.prems(2-4) by (intro Cons.IH [OF s1(2)]) (auto simp: decoded_length_def)
  moreover have "decode_step dec limits s
      \<lparr>pair_key = wire (fst p), pair_value = wire (snd p), pair_offset = offset\<rparr> = Inr s1"
    using s1(1) by (simp add: decode_step_def)
  ultimately show ?case using piece Cons.prems(3) by (simp add: piece_text_parts(4))
qed simp

lemma split_query_text:
  "ps \<noteq> [] \<Longrightarrow> split_on CHR ''&'' (query_text ps) = map piece_text ps"
  unfolding query_text_def by (rule split_on_join) (auto simp: piece_text_parts(5))

lemma query_text_ascii: "list_all is_ascii (query_text ps)"
proof (cases "ps = []")
  case False
  have "list_all is_ascii (piece_text p)" for p
    using encode_parameter_ascii by (simp add: piece_text_def is_ascii_def [of "CHR ''=''"])
  thus ?thesis
    using split_query_text [OF False] list_all_split_on [of "CHR ''&''" "query_text ps" is_ascii]
    by (auto simp: is_ascii_def [of "CHR ''&''"])
qed (simp add: query_text_def)

lemma from_query_feeds:
  assumes "feeds (\<lambda>s key val off. qd_decode_field dec s key val off limits) (qd_init dec) ps s'"
    and "\<forall>p \<in> set ps. valid_utf8 (fst p) \<and> valid_utf8 (snd p)"
    and "length ps \<le> max_pairs limits" "decoded_length ps \<le> min usize_max (max_decoded_length limits)"
    and "length (query_text ps) \<le> min isize_max (max_query_length limits)"
  shows "from_query_with arch dec (query_text ps) limits = qd_finish dec s' (length (query_text ps))"
proof -
  have "run_pairs limits (decode_step dec limits) (qd_init dec) 0 0 0 (split_on CHR ''&'' (query_text ps)) = Inr s'"
  proof (cases "ps = []")
    case True
    thus ?thesis using assms(1) by (simp add: query_text_def)
  next
    case False
    thus ?thesis using run_pairs_feeds [OF assms(1,2), of 0 0] assms(3,4) by (simp add: split_query_text)
  qed
  thus ?thesis
    using assms(5) valid_utf8_ascii [OF query_text_ascii, of ps]
    by (simp add: from_query_with_def query_parse_exact not_less)
qed

section \<open>The pairs of a struct\<close>

text \<open>
  The text of a value on the wire, if it can be read back: a borrowed string only if nothing is
  escaped, and a value of another type only if its text parses to it. Integers are written raw, so
  their text must be safe.
\<close>

fun wire_text :: "(int \<Rightarrow> string) \<Rightarrow> 'v value_kind \<Rightarrow> 'v scalar \<Rightarrow> string option" where
  "wire_text itoa (VK_Other from_str enc) (Value x) =
     (case (case enc of
              Enc_Bool f \<Rightarrow> Some (if f x then ''true'' else ''false'')
            | Enc_Int f \<Rightarrow> if list_all is_safe (itoa (f x)) then Some (itoa (f x)) else None
            | Enc_Display f \<Rightarrow> if writes_valid (f x) then shown (f x) else None) of
        None \<Rightarrow> None
      | Some t \<Rightarrow> if from_str t = Some x then Some t else None)"
| "wire_text itoa VK_Str (Text s) = (if list_all is_safe s then Some s else None)"
| "wire_text itoa VK_Cow (Text s) = (if valid_utf8 s then Some s else None)"
| "wire_text itoa VK_String (Text s) = (if valid_utf8 s then Some s else None)"
| "wire_text itoa _ _ = None"

definition scalar_pairs ::
  "(int \<Rightarrow> string) \<Rightarrow> string \<Rightarrow> 'v value_kind \<Rightarrow> 'v scalar list \<Rightarrow> (string \<times> string) list option" where
  "scalar_pairs itoa n k xs = those (map (\<lambda>x. map_option (Pair n) (wire_text itoa k x)) xs)"

definition both :: "'a list option \<Rightarrow> 'a list option \<Rightarrow> 'a list option" where
  "both a b = (case (a, b) of (Some xs, Some ys) \<Rightarrow> Some (xs @ ys) | _ \<Rightarrow> None)"

fun kind_pairs ::
    "(int \<Rightarrow> string) \<Rightarrow> string \<Rightarrow> 'v field_kind \<Rightarrow> 'v field_value \<Rightarrow> (string \<times> string) list option"
  and field_pairs ::
    "(int \<Rightarrow> string) \<Rightarrow> 'v query_field list \<Rightarrow> 'v field_value list \<Rightarrow> (string \<times> string) list option" where
  "kind_pairs itoa n (FK_Scalar k) (FV_One x) = scalar_pairs itoa n k [x]"
| "kind_pairs itoa n (FK_Optional k) (FV_Optional x) =
     scalar_pairs itoa n k (case x of None \<Rightarrow> [] | Some y \<Rightarrow> [y])"
| "kind_pairs itoa n (FK_Repeated k) (FV_Repeated xs) = scalar_pairs itoa n k xs"
| "kind_pairs itoa n (FK_Flatten inner deny) (FV_Struct v) = field_pairs itoa inner v"
| "kind_pairs itoa n (FK_Skip x) (FV_One y) = (if y = x then Some [] else None)"
| "kind_pairs itoa n _ _ = None"
| "field_pairs itoa [] [] = Some []"
| "field_pairs itoa (f # fs) (v # vs) =
     both (kind_pairs itoa (qf_name f) (qf_kind f) v) (field_pairs itoa fs vs)"
| "field_pairs itoa _ _ = None"

fun kind_done :: "'v field_kind \<Rightarrow> 'v field_value \<Rightarrow> 'v slot"
  and done_slots :: "'v query_field list \<Rightarrow> 'v field_value list \<Rightarrow> 'v slot list" where
  "kind_done (FK_Scalar k) (FV_One x) = Slot_One (Some x)"
| "kind_done (FK_Optional k) (FV_Optional x) = Slot_One x"
| "kind_done (FK_Repeated k) (FV_Repeated xs) = Slot_Many xs"
| "kind_done (FK_Flatten inner deny) (FV_Struct v) = Slot_Struct (done_slots inner v)"
| "kind_done _ _ = Slot_None"
| "done_slots (f # fs) (v # vs) = kind_done (qf_kind f) v # done_slots fs vs"
| "done_slots _ _ = []"

fun repeats_within :: "nat \<Rightarrow> 'v field_value list \<Rightarrow> bool" where
  "repeats_within m [] = True"
| "repeats_within m (FV_Repeated xs # vs) = (length xs \<le> m \<and> repeats_within m vs)"
| "repeats_within m (FV_Struct v # vs) = (repeats_within m v \<and> repeats_within m vs)"
| "repeats_within m (v # vs) = repeats_within m vs"

lemma both_Some: "both a b = Some zs \<longleftrightarrow> (\<exists>xs ys. a = Some xs \<and> b = Some ys \<and> zs = xs @ ys)"
  by (auto simp: both_def split: option.splits)

lemma scalar_pairs_Nil [simp]: "scalar_pairs itoa n k [] = Some []"
  by (simp add: scalar_pairs_def)

lemma scalar_pairs_Cons:
  "scalar_pairs itoa n k (x # xs) = Some ps \<longleftrightarrow>
     (\<exists>t qs. wire_text itoa k x = Some t \<and> scalar_pairs itoa n k xs = Some qs \<and> ps = (n, t) # qs)"
  by (auto simp: scalar_pairs_def split: option.splits)

lemma shown_valid: "shown prog = Some s \<Longrightarrow> writes_valid prog \<Longrightarrow> valid_utf8 s"
proof (induction prog arbitrary: s)
  case (Fmt_Write t continue)
  thus ?case using Fmt_Write.IH [of "continue True"] by (auto simp: valid_utf8_append)
qed (auto split: if_splits)

lemma safe_valid: "list_all is_safe s \<Longrightarrow> valid_utf8 s"
  by (rule valid_utf8_ascii) (auto simp: list_all_iff is_safe_ascii)

lemma bool_text_safe: "list_all is_safe (if b then ''true'' else ''false'')"
  by (simp add: is_safe_def ascii_defs)

lemma wire_text_valid: "wire_text itoa k x = Some t \<Longrightarrow> valid_utf8 t"
  by (induction itoa k x rule: wire_text.induct)
     (auto simp: shown_valid safe_valid is_ascii_def split: if_splits option.splits other_encoder.splits)

section \<open>Encoding writes the pairs\<close>

definition add_pair :: "string \<times> string \<Rightarrow> string encoder \<Rightarrow> string encoder" where
  "add_pair p e =
     (let t = (if en_first e then [] else ''&'') @ piece_text p
      in e\<lparr>en_output := en_output e @ t, en_written := en_written e + length t, en_first := False\<rparr>)"

definition fits :: "string encoder \<Rightarrow> bool" where
  "fits e \<longleftrightarrow> en_written e \<le> min usize_max (max_encoded_length (en_limits e))"

lemma fits_add_pair: "fits (add_pair p e) \<Longrightarrow> fits e"
  by (simp add: fits_def add_pair_def Let_def)

lemma fits_fold: "fits (fold add_pair ps e) \<Longrightarrow> fits e"
  by (induction ps arbitrary: e) (auto dest: fits_add_pair)

text \<open>The texts of one pair, written raw or encoded.\<close>

lemma emit_pair:
  assumes "concat ts = encode_parameter t" "fits (add_pair (n, t) e)"
  shows "emit_all string_write_str n (lead e (encode_parameter n) @ ts) (e\<lparr>en_first := False\<rparr>) =
    (Inr (), add_pair (n, t) e)"
proof -
  have whole: "concat (lead e (encode_parameter n) @ ts) = (if en_first e then [] else ''&'') @ piece_text (n, t)"
    using assms(1) by (simp add: lead_def piece_text_def)
  show ?thesis
    using string_writer.emit_all_fits [of "e\<lparr>en_first := False\<rparr>" "lead e (encode_parameter n) @ ts" n] assms(2)
    unfolding whole by (auto simp: fits_def add_pair_def Let_def)
qed

lemma pair_display_fits:
  assumes "shown prog = Some t" "writes_valid prog" "fits (add_pair (n, t) e)"
  shows "pair_display string_write_str n (encode_parameter n) prog e = (Inr (), add_pair (n, t) e)"
proof -
  let ?lead = "lead e (encode_parameter n)"
  have whole: "concat ?lead @ encode_parameter t = (if en_first e then [] else ''&'') @ piece_text (n, t)"
    by (simp add: lead_def piece_text_def)
  hence len: "length (concat ?lead) + length (encode_parameter t) =
      length ((if en_first e then [] else ''&'') @ piece_text (n, t))"
    by (metis length_append)
  obtain e1 where start: "start_pair string_write_str n (encode_parameter n) e = (Inr (), e1)"
      "e1 = e\<lparr>en_first := False, en_output := en_output e @ concat ?lead,
        en_written := en_written e + length (concat ?lead)\<rparr>"
    using string_writer.emit_all_fits [of "e\<lparr>en_first := False\<rparr>" ?lead n] assms(3) len
    by (auto simp: start_pair_emit fits_def add_pair_def Let_def)
  have "en_written e1 + length (encode_parameter t) \<le> min usize_max (max_encoded_length (en_limits e1))"
    using assms(3) len start(2) by (auto simp: fits_def add_pair_def Let_def)
  then obtain out where out: "run_display string_write_str n prog None e1 =
      (Inr (True, None), e1\<lparr>en_output := out, en_written := en_written e1 + length (encode_parameter t)\<rparr>)"
      "out = en_output e1 @ encode_parameter t"
    using string_writer.run_display_fits [OF assms(1,2)] by blast
  show ?thesis
    using start out whole len by (simp add: pair_display_def enc_then_def add_pair_def Let_def)
qed

lemma encode_scalar_fits:
  assumes "wire_text itoa k x = Some t" "fits (add_pair (n, t) e)"
  shows "encode_scalar string_write_str itoa n k x e = (Inr (), add_pair (n, t) e)"
  using assms
proof (induction itoa k x rule: wire_text.induct)
  case (1 itoa from_str enc x)
  show ?case
  proof (cases enc)
    case (Enc_Bool f)
    hence "t = (if f x then ''true'' else ''false'')" using 1(1) by (auto split: if_splits)
    thus ?thesis using Enc_Bool emit_pair [OF _ 1(2)] bool_text_safe [of "f x"]
      by (simp add: pair_emits encode_parameter_safe)
  next
    case (Enc_Int f)
    hence "t = itoa (f x)" "list_all is_safe t" using 1(1) by (auto split: if_splits)
    thus ?thesis using Enc_Int emit_pair [OF _ 1(2)] by (simp add: pair_emits encode_parameter_safe)
  next
    case (Enc_Display f)
    hence "shown (f x) = Some t" "writes_valid (f x)" using 1(1) by (auto split: if_splits option.splits)
    thus ?thesis using Enc_Display pair_display_fits [OF _ _ 1(2)] by simp
  qed
qed (auto simp: pair_emits safe_valid concat_encoded_runs intro!: emit_pair split: if_splits)

lemma enc_then_Inr: "m e = (Inr (), e') \<Longrightarrow> enc_then m n e = n e'"
  by (simp add: enc_then_def)

lemma encode_scalars_fits:
  "scalar_pairs itoa n k xs = Some ps \<Longrightarrow> fits (fold add_pair ps e) \<Longrightarrow>
     foldr (\<lambda>x rest. enc_then (encode_scalar string_write_str itoa n k x) rest) xs enc_done e =
       (Inr (), fold add_pair ps e)"
proof (induction xs arbitrary: ps e)
  case (Cons x xs)
  obtain t qs where ps: "wire_text itoa k x = Some t" "scalar_pairs itoa n k xs = Some qs" "ps = (n, t) # qs"
    using Cons.prems(1) by (auto simp: scalar_pairs_Cons)
  have "fits (add_pair (n, t) e)" using Cons.prems(2) ps(3) fits_fold by simp
  thus ?case using Cons.IH [OF ps(2)] Cons.prems(2) ps(3) encode_scalar_fits [OF ps(1)] by (simp add: enc_then_Inr)
qed (simp add: enc_done_def)

lemma encode_then_fits:
  assumes "\<And>e. fits (fold add_pair p e) \<Longrightarrow> m e = (Inr (), fold add_pair p e)"
    and "\<And>e. fits (fold add_pair q e) \<Longrightarrow> n e = (Inr (), fold add_pair q e)"
    and "fits (fold add_pair (p @ q) e)"
  shows "enc_then m n e = (Inr (), fold add_pair (p @ q) e)"
proof -
  have "fits (fold add_pair p e)" using assms(3) fits_fold by simp
  thus ?thesis using assms by (simp add: enc_then_Inr)
qed

lemma encode_fields_fits:
  "field_pairs itoa schema vs = Some ps \<Longrightarrow> fits (fold add_pair ps e) \<Longrightarrow>
     encode_fields string_write_str itoa schema vs e = (Inr (), fold add_pair ps e)"
proof (induction string_write_str itoa schema vs arbitrary: ps e rule: encode_fields.induct)
  case (2 itoa n al d k fs x vs)
  then obtain p q where ps: "scalar_pairs itoa n k [x] = Some p" "field_pairs itoa fs vs = Some q" "ps = p @ q"
    by (auto simp: both_Some)
  have "encode_scalar string_write_str itoa n k x e = (Inr (), fold add_pair p e)" if "fits (fold add_pair p e)" for e
    using encode_scalars_fits [OF ps(1) that] by simp
  thus ?case using encode_then_fits [OF _ 2(1) [OF ps(2)]] 2(3) ps(3) by simp
next
  case (3 itoa n al d k fs x vs)
  then obtain p q where ps: "scalar_pairs itoa n k (case x of None \<Rightarrow> [] | Some y \<Rightarrow> [y]) = Some p"
      "field_pairs itoa fs vs = Some q" "ps = p @ q"
    by (auto simp: both_Some)
  have "(case x of Some y \<Rightarrow> encode_scalar string_write_str itoa n k y | None \<Rightarrow> enc_done) e =
      (Inr (), fold add_pair p e)" if "fits (fold add_pair p e)" for e
    using encode_scalars_fits [OF ps(1) that] by (cases x) simp_all
  thus ?case using encode_then_fits [OF _ 3(1) [OF ps(2)]] 3(3) ps(3) by simp
next
  case (4 itoa n al d k fs xs vs)
  then obtain p q where ps: "scalar_pairs itoa n k xs = Some p" "field_pairs itoa fs vs = Some q" "ps = p @ q"
    by (auto simp: both_Some)
  show ?case
    using encode_then_fits [OF encode_scalars_fits [OF ps(1)] 4(1) [OF ps(2)]] 4(3) ps(3) by simp
next
  case (5 itoa n al d inner deny fs v vs)
  then obtain p q where ps: "field_pairs itoa inner v = Some p" "field_pairs itoa fs vs = Some q" "ps = p @ q"
    by (auto simp: both_Some)
  show ?case using encode_then_fits [OF 5(1) [OF ps(1)] 5(2) [OF ps(2)]] 5(4) ps(3) by simp
qed (auto simp: both_Some enc_done_def split: if_splits)

text \<open>The whole text.\<close>

lemma fold_add_pair_text:
  "ps \<noteq> [] \<Longrightarrow> en_output (fold add_pair ps e) = en_output e @ (if en_first e then [] else ''&'') @ query_text ps"
proof (induction ps arbitrary: e)
  case (Cons p ps)
  show ?case
  proof (cases "ps = []")
    case True
    thus ?thesis by (simp add: add_pair_def Let_def query_text_def)
  next
    case False
    thus ?thesis using Cons.IH [OF False, of "add_pair p e"]
      by (simp add: add_pair_def Let_def query_text_def join_with_Cons)
  qed
qed simp

lemma fold_add_pair_written:
  "en_written (fold add_pair ps e) + length (en_output e) = en_written e + length (en_output (fold add_pair ps e))"
proof (induction ps arbitrary: e)
  case (Cons p ps)
  have "en_written (add_pair p e) + length (en_output e) = en_written e + length (en_output (add_pair p e))"
    by (simp add: add_pair_def Let_def)
  thus ?case using Cons [of "add_pair p e"] by simp
qed simp

lemma encode_fields_text:
  assumes "field_pairs itoa schema vs = Some ps"
    and "length (query_text ps) \<le> min usize_max (max_encoded_length limits)"
  shows "to_query_string_with (encode_fields string_write_str itoa schema vs) limits = Inr (query_text ps)"
proof -
  let ?e = "encoder_new [] limits"
  have out: "en_output (fold add_pair ps ?e) = query_text ps"
    using fold_add_pair_text [of ps ?e] by (cases "ps = []") (simp_all add: encoder_new_def query_text_def)
  have "en_limits (fold add_pair ps e) = en_limits e" for e
    by (induction ps arbitrary: e) (simp_all add: add_pair_def Let_def)
  hence "fits (fold add_pair ps ?e)"
    using fold_add_pair_written [of ps ?e] assms(2) out by (simp add: fits_def encoder_new_def)
  thus ?thesis using encode_fields_fits [OF assms(1)] out
    by (simp add: to_query_string_with_def write_query_with_def)
qed

section \<open>Decoding fills the slots\<close>

fun claimed_names :: "'v query_field list \<Rightarrow> string list" where
  "claimed_names [] = []"
| "claimed_names (QueryField n al d (FK_Flatten inner deny) # fs) = claimed_names inner @ claimed_names fs"
| "claimed_names (f # fs) = direct_names f @ claimed_names fs"

fun is_flatten :: "'v query_field \<Rightarrow> bool" where
  "is_flatten (QueryField n al d (FK_Flatten inner deny)) = True"
| "is_flatten _ = False"

text \<open>Flattened fields have the slots of their struct.\<close>

definition shaped :: "'v query_field list \<Rightarrow> 'v slot list \<Rightarrow> bool" where
  "shaped schema slots = list_all2 (\<lambda>f s. is_flatten f \<longrightarrow> (\<exists>held. s = Slot_Struct held)) schema slots"

lemma claims_field_names: "claims_field schema key \<longleftrightarrow> key \<in> set (claimed_names schema)"
  by (induction schema key rule: claims_field.induct) auto

lemma claimed_names_append [simp]: "claimed_names (xs @ ys) = claimed_names xs @ claimed_names ys"
  by (induction xs rule: claimed_names.induct) auto

lemma direct_names_claimed: "f \<in> set schema \<Longrightarrow> key \<in> set (direct_names f) \<Longrightarrow> key \<in> set (claimed_names schema)"
  by (induction schema rule: claimed_names.induct) auto

lemma flatten_claims_claimed: "flatten_claims schema key \<Longrightarrow> key \<in> set (claimed_names schema)"
  by (induction schema key rule: flatten_claims.induct) (auto simp: claims_field_names)

lemma flatten_claims_append: "flatten_claims (xs @ ys) key \<longleftrightarrow> flatten_claims xs key \<or> flatten_claims ys key"
  by (induction xs key rule: flatten_claims.induct) auto

lemma decode_direct_None:
  "key \<notin> \<Union> (set ` direct_names ` set schema) \<Longrightarrow> decode_direct a schema slots key val off limits = None"
  by (induction a schema slots key val off limits rule: decode_direct.induct) auto

lemma decode_direct_skip:
  "length xs = length us \<Longrightarrow> key \<notin> \<Union> (set ` direct_names ` set xs) \<Longrightarrow>
     decode_direct a (xs @ ys) (us @ vs) key val off limits =
       map_option (\<lambda>r. try_bind r (\<lambda>vs'. Inr (us @ vs'))) (decode_direct a ys vs key val off limits)"
proof (induction xs us rule: list_induct2)
  case Nil
  have "try_bind r Inr = r" for r :: "'a slot list queried" by (cases r) simp_all
  thus ?case by (simp add: option.map_ident)
next
  case (Cons x xs u us)
  thus ?case by (cases "decode_direct a ys vs key val off limits") (simp_all add: try_bind_assoc)
qed

definition flat_count :: "'v query_field list \<Rightarrow> nat" where
  "flat_count schema = length (filter is_flatten schema)"

lemma flatten_claimant_skip:
  "key \<notin> set (claimed_names xs) \<Longrightarrow>
     flatten_claimant (xs @ ys) key i c off = flatten_claimant ys key (i + flat_count xs) c off"
  by (induction xs key i c off rule: flatten_claimant.induct) (auto simp: flat_count_def claims_field_names)

lemma flatten_claimant_none:
  "key \<notin> set (claimed_names xs) \<Longrightarrow> flatten_claimant xs key i c off = Inr c"
  using flatten_claimant_skip [of key xs "[]" i c off] by simp

lemma flatten_dispatch_skip:
  "shaped xs us \<Longrightarrow>
     flatten_dispatch (i + flat_count xs) (xs @ ys) (us @ vs) key val off limits =
       try_bind (flatten_dispatch i ys vs key val off limits) (\<lambda>(c, vs'). Inr (c, us @ vs'))"
proof (induction xs arbitrary: us)
  case Nil
  hence "us = []" by (simp add: shaped_def)
  thus ?case by (cases "flatten_dispatch i ys vs key val off limits") (auto simp: flat_count_def)
next
  case (Cons x xs)
  obtain u us' where us: "us = u # us'" "shaped xs us'" "is_flatten x \<longrightarrow> (\<exists>held. u = Slot_Struct held)"
    using Cons.prems by (auto simp: shaped_def list_all2_Cons1)
  note IH = Cons.IH [OF us(2)]
  show ?case
  proof (cases "is_flatten x")
    case True
    then obtain n al d inner deny held where "x = QueryField n al d (FK_Flatten inner deny)" "u = Slot_Struct held"
      using us(3) by (metis is_flatten.elims(2))
    thus ?thesis using us(1) IH by (simp add: flat_count_def try_bind_assoc case_prod_unfold)
  next
    case False
    hence "flatten_dispatch j (x # zs) (u # ws) key val off limits =
        try_bind (flatten_dispatch j zs ws key val off limits) (\<lambda>(c, ws'). Inr (c, u # ws'))" for j zs ws
      by (cases x rule: is_flatten.cases) auto
    thus ?thesis using False us(1) IH by (simp add: flat_count_def try_bind_assoc case_prod_unfold)
  qed
qed

text \<open>A field on its own slot.\<close>

fun field_step ::
  "query_limits \<Rightarrow> 'v query_field \<Rightarrow> 'v slot \<Rightarrow> string \<Rightarrow> decoded \<Rightarrow> nat \<Rightarrow> (bool \<times> 'v slot) queried" where
  "field_step limits (QueryField n al d (FK_Flatten inner deny)) slot key val off =
     (case slot of
        Slot_Struct held \<Rightarrow> try_bind (schema_decode_field inner held key val off limits) (\<lambda>(c, held').
          Inr (c, Slot_Struct held'))
      | _ \<Rightarrow> Inl (Panicked ''ill-typed slot''))"
| "field_step limits f slot key val off =
     try_bind (store_field f slot val off limits) (\<lambda>slot'. Inr (True, slot'))"

lemma field_step_direct:
  "\<not> is_flatten f \<Longrightarrow>
     field_step limits f slot key val off = try_bind (store_field f slot val off limits) (\<lambda>slot'. Inr (True, slot'))"
  by (cases f rule: is_flatten.cases) auto

lemma claimed_names_direct: "\<not> is_flatten f \<Longrightarrow> claimed_names (f # fs) = direct_names f @ claimed_names fs"
  by (cases f rule: is_flatten.cases) auto

text \<open>A key that one field claims goes to that field.\<close>

lemma decode_own_field:
  assumes "shaped xs us" "is_flatten f \<longrightarrow> (\<exists>held. slot = Slot_Struct held)"
    and "key \<in> set (claimed_names [f])" "key \<notin> set (claimed_names xs)" "key \<notin> set (claimed_names ys)"
  shows "schema_decode_field (xs @ f # ys) (us @ slot # vs) key val off limits =
    try_bind (field_step limits f slot key val off) (\<lambda>(c, slot'). Inr (c, us @ slot' # vs))"
proof -
  have len: "length xs = length us" using assms(1) by (auto simp: shaped_def dest: list_all2_lengthD)
  have xs: "key \<notin> \<Union> (set ` direct_names ` set xs)" using direct_names_claimed [of _ xs key] assms(4) by auto
  have ys: "key \<notin> \<Union> (set ` direct_names ` set ys)" using direct_names_claimed [of _ ys key] assms(5) by auto
  have others: "\<not> flatten_claims xs key" "\<not> flatten_claims ys key"
    using flatten_claims_claimed assms(4,5) by blast+
  show ?thesis
  proof (cases "is_flatten f")
    case False
    hence own: "key \<in> set (direct_names f)" using assms(3) by (simp add: claimed_names_direct)
    have "\<not> flatten_claims (xs @ f # ys) key"
      using others False by (cases f rule: is_flatten.cases) (simp_all add: flatten_claims_append)
    thus ?thesis
      using own decode_direct_skip [OF len xs, of False "f # ys" "slot # vs"]
      by (subst schema_decode_field.simps) (simp add: field_step_direct [OF False] try_bind_assoc)
  next
    case True
    then obtain n al d inner deny where f: "f = QueryField n al d (FK_Flatten inner deny)"
      by (metis is_flatten.elims(2))
    obtain held where slot: "slot = Slot_Struct held" using assms(2) True by blast
    have "decode_direct a (xs @ f # ys) (us @ slot # vs) key val off limits = None" for a
      using xs ys f by (intro decode_direct_None) auto
    moreover have "flatten_claimant (xs @ f # ys) key 0 None off = Inr (Some (flat_count xs))"
      using assms(3) f by (simp add: flatten_claimant_skip [OF assms(4)] flatten_claimant_none [OF assms(5)]
          claims_field_names)
    ultimately show ?thesis
      using flatten_dispatch_skip [OF assms(1), of 0 "f # ys" "slot # vs"] f slot
      by (subst schema_decode_field.simps) (simp add: try_bind_assoc case_prod_unfold)
  qed
qed

lemma feeds_lift:
  assumes "feeds step s ps s'"
    and "\<And>p s off. p \<in> set ps \<Longrightarrow> ok s \<Longrightarrow>
      outer (emb s) (fst p) (wire (snd p)) off =
        try_bind (step s (fst p) (wire (snd p)) off) (\<lambda>(c, s1). Inr (c, emb s1))"
    and "\<And>p s s1 off. p \<in> set ps \<Longrightarrow> ok s \<Longrightarrow> step s (fst p) (wire (snd p)) off = Inr (True, s1) \<Longrightarrow> ok s1"
    and "ok s"
  shows "feeds outer (emb s) ps (emb s')"
  using assms
proof (induction ps arbitrary: s)
  case (Cons p ps)
  obtain s1 where s1: "\<forall>off. step s (fst p) (wire (snd p)) off = Inr (True, s1)" "feeds step s1 ps s'"
    using Cons.prems(1) by auto
  have "feeds outer (emb s1) ps (emb s')"
  proof (rule Cons.IH [OF s1(2)])
    show "outer (emb s) (fst q) (wire (snd q)) off =
        try_bind (step s (fst q) (wire (snd q)) off) (\<lambda>(c, s1). Inr (c, emb s1))"
      if "q \<in> set ps" "ok s" for q s off using Cons.prems(2) [of q s off] that by simp
    show "ok s2" if "q \<in> set ps" "ok s" "step s (fst q) (wire (snd q)) off = Inr (True, s2)" for q s s2 off
      using Cons.prems(3) [of q s off s2] that by simp
    show "ok s1" using Cons.prems(3) [of p s 0 s1] Cons.prems(4) s1(1) by simp
  qed
  moreover have "\<forall>off. outer (emb s) (fst p) (wire (snd p)) off = Inr (True, emb s1)"
    using Cons.prems(2) [of p s] Cons.prems(4) s1(1) by simp
  ultimately show ?case by auto
qed simp

text \<open>A value that can be read back is read back.\<close>

lemma parse_wire:
  "wire_text itoa k x = Some t \<Longrightarrow> schema_parse_value k (wire t) n off = Inr x"
  by (induction itoa k x rule: wire_text.induct)
     (auto simp: parse_value_def parse_owned_def wire_def split: if_splits option.splits)

fun kind_init :: "'v field_kind \<Rightarrow> 'v slot" where
  "kind_init (FK_Scalar k) = Slot_One None"
| "kind_init (FK_Optional k) = Slot_One None"
| "kind_init (FK_Repeated k) = Slot_Many []"
| "kind_init (FK_Flatten inner deny) = Slot_Struct (init_slots inner)"
| "kind_init (FK_Skip x) = Slot_None"

lemma init_slots_Cons: "init_slots (f # fs) = kind_init (qf_kind f) # init_slots fs"
  by (cases f; cases "qf_kind f") auto

lemma scalar_pairs_keys: "scalar_pairs itoa n k xs = Some ps \<Longrightarrow> p \<in> set ps \<Longrightarrow> fst p = n \<and> valid_utf8 (snd p)"
proof (induction xs arbitrary: ps)
  case (Cons x xs)
  then obtain t qs where "wire_text itoa k x = Some t" "scalar_pairs itoa n k xs = Some qs" "ps = (n, t) # qs"
    by (auto simp: scalar_pairs_Cons)
  thus ?case using Cons.IH [of qs] Cons.prems(2) wire_text_valid [of itoa k x t] by auto
qed simp

lemma pairs_keys:
  fixes k :: "'v field_kind" and schema :: "'v query_field list"
  shows "kind_pairs itoa n k v = Some ps \<Longrightarrow>
      \<forall>p \<in> set ps. fst p \<in> set (claimed_names [QueryField n al d k]) \<and> valid_utf8 (snd p)"
    and "field_pairs itoa schema vs = Some qs \<Longrightarrow>
      \<forall>p \<in> set qs. fst p \<in> set (claimed_names schema) \<and> valid_utf8 (snd p)"
proof (induction itoa n k v and itoa schema vs arbitrary: ps al d and qs rule: kind_pairs_field_pairs.induct)
  case (8 itoa f fs v vs)
  obtain p q where pq: "kind_pairs itoa (qf_name f) (qf_kind f) v = Some p" "field_pairs itoa fs vs = Some q" "qs = p @ q"
    using 8(3) by (auto simp: both_Some)
  have "set (claimed_names (f # fs)) = set (claimed_names [f]) \<union> set (claimed_names fs)"
    using claimed_names_append [of "[f]" fs] by simp
  thus ?case using 8(1) [OF pq(1), of "qf_aliases f" "qf_default f"] 8(2) [OF pq(2)] pq(3) by auto
qed (auto dest: scalar_pairs_keys split: if_splits option.splits)

lemma feeds_repeated:
  "scalar_pairs itoa n k xs = Some ps \<Longrightarrow> length held + length xs \<le> max_repeated_values limits \<Longrightarrow>
     feeds (field_step limits (QueryField n al d (FK_Repeated k))) (Slot_Many held) ps (Slot_Many (held @ xs))"
proof (induction xs arbitrary: ps held)
  case (Cons x xs)
  obtain t qs where ps: "wire_text itoa k x = Some t" "scalar_pairs itoa n k xs = Some qs" "ps = (n, t) # qs"
    using Cons.prems(1) by (auto simp: scalar_pairs_Cons)
  show ?case
    using Cons.IH [OF ps(2), of "held @ [x]"] Cons.prems(2) ps(3) parse_wire [OF ps(1)] by auto
qed simp

lemma feeds_one:
  assumes "scalar_pairs itoa n k (case x of None \<Rightarrow> [] | Some y \<Rightarrow> [y]) = Some ps"
    and "qf_kind f = FK_Scalar k \<or> qf_kind f = FK_Optional k"
  shows "feeds (field_step limits f) (Slot_One None) ps (Slot_One x)"
proof (cases x)
  case None
  thus ?thesis using assms(1) by simp
next
  case (Some y)
  then obtain t where "wire_text itoa k y = Some t" "ps = [(n, t)]"
    using assms(1) by (auto simp: scalar_pairs_Cons)
  thus ?thesis using Some assms(2) parse_wire [of itoa k y t] by (cases f) auto
qed

lemma repeats_within_Cons: "repeats_within m (v # vs) \<longleftrightarrow> repeats_within m [v] \<and> repeats_within m vs"
  by (cases v) auto

lemma shaped_snoc:
  "shaped xs us \<Longrightarrow> (is_flatten f \<longrightarrow> (\<exists>held. slot = Slot_Struct held)) \<Longrightarrow> shaped (xs @ [f]) (us @ [slot])"
  by (simp add: shaped_def list_all2_appendI)

lemma is_flatten_init: "is_flatten f \<Longrightarrow> \<exists>held. kind_init (qf_kind f) = Slot_Struct held"
  by (cases f rule: is_flatten.cases) auto

lemma is_flatten_done:
  "is_flatten f \<Longrightarrow> kind_pairs itoa n (qf_kind f) v = Some ps \<Longrightarrow> \<exists>held. kind_done (qf_kind f) v = Slot_Struct held"
  by (cases f rule: is_flatten.cases; cases v) auto

lemma field_step_shape:
  "is_flatten f \<longrightarrow> (\<exists>held. slot = Slot_Struct held) \<Longrightarrow> field_step limits f slot key val off = Inr (c, slot') \<Longrightarrow>
     is_flatten f \<longrightarrow> (\<exists>held. slot' = Slot_Struct held)"
  by (cases f rule: is_flatten.cases) (auto simp: try_bind_eq_Inr)

lemma feeds_schema:
  fixes k :: "'v field_kind" and schema :: "'v query_field list"
  shows "kind_pairs itoa n k v = Some ps \<Longrightarrow> repeats_within (max_repeated_values limits) [v] \<Longrightarrow>
      distinct (claimed_names [QueryField n al d k]) \<Longrightarrow>
      feeds (field_step limits (QueryField n al d k)) (kind_init k) ps (kind_done k v)"
    and "field_pairs itoa schema vs = Some qs \<Longrightarrow> repeats_within (max_repeated_values limits) vs \<Longrightarrow>
      shaped xs us \<Longrightarrow> distinct (claimed_names (xs @ schema)) \<Longrightarrow>
      feeds (\<lambda>s key val off. schema_decode_field (xs @ schema) s key val off limits)
        (us @ init_slots schema) qs (us @ done_slots schema vs)"
proof (induction itoa n k v and itoa schema vs arbitrary: ps al d and qs xs us rule: kind_pairs_field_pairs.induct)
  case (1 itoa n k x)
  thus ?case using feeds_one [of itoa n k "Some x" ps "QueryField n al d (FK_Scalar k)"] by (simp del: field_step.simps)
next
  case (2 itoa n k x)
  thus ?case using feeds_one [of itoa n k x ps "QueryField n al d (FK_Optional k)"] by (simp del: field_step.simps)
next
  case (3 itoa n k xs)
  thus ?case using feeds_repeated [of itoa n k xs ps "[]"] by (simp del: field_step.simps)
next
  case (4 itoa n inner deny v)
  have "feeds (\<lambda>s key val off. schema_decode_field inner s key val off limits) (init_slots inner) ps (done_slots inner v)"
    using 4(1) [of ps "[]" "[]"] 4(2-4) by (simp add: shaped_def)
  thus ?case
    by (simp, rule feeds_lift [where ok = "\<lambda>_. True" and emb = Slot_Struct]) simp_all
next
  case (8 itoa f fs v vs)
  obtain p q where pq: "kind_pairs itoa (qf_name f) (qf_kind f) v = Some p" "field_pairs itoa fs vs = Some q" "qs = p @ q"
    using 8(3) by (auto simp: both_Some)
  have names: "claimed_names (xs @ f # fs) = claimed_names xs @ claimed_names [f] @ claimed_names fs"
    using claimed_names_append [of "[f]" fs] by simp
  note dist = 8(6) [unfolded names]
  have "feeds (field_step limits f) (kind_init (qf_kind f)) p (kind_done (qf_kind f) v)"
    using 8(1) [OF pq(1), of "qf_aliases f" "qf_default f"] 8(4) dist repeats_within_Cons [of _ v vs] by simp
  hence first: "feeds (\<lambda>s key val off. schema_decode_field (xs @ f # fs) s key val off limits)
      (us @ kind_init (qf_kind f) # init_slots fs) p (us @ kind_done (qf_kind f) v # init_slots fs)"
  proof (rule feeds_lift [where ok = "\<lambda>slot. is_flatten f \<longrightarrow> (\<exists>held. slot = Slot_Struct held)"
        and emb = "\<lambda>slot. us @ slot # init_slots fs"])
    fix pr :: "string \<times> string" and slot :: "'v slot" and off
    assume pr: "pr \<in> set p" and slot: "is_flatten f \<longrightarrow> (\<exists>held. slot = Slot_Struct held)"
    have "fst pr \<in> set (claimed_names [f])"
      using pairs_keys(1) [OF pq(1), of "qf_aliases f" "qf_default f"] pr by simp
    thus "schema_decode_field (xs @ f # fs) (us @ slot # init_slots fs) (fst pr) (wire (snd pr)) off limits =
        try_bind (field_step limits f slot (fst pr) (wire (snd pr)) off) (\<lambda>(c, s1). Inr (c, us @ s1 # init_slots fs))"
      using dist by (intro decode_own_field [OF 8(5) slot]) auto
  qed (use field_step_shape is_flatten_init in blast)+
  have "feeds (\<lambda>s key val off. schema_decode_field ((xs @ [f]) @ fs) s key val off limits)
      ((us @ [kind_done (qf_kind f) v]) @ init_slots fs) q ((us @ [kind_done (qf_kind f) v]) @ done_slots fs vs)"
    using 8(4) 8(6) repeats_within_Cons [of _ v vs] is_flatten_done [OF _ pq(1)]
    by (intro 8(2) [OF pq(2)] shaped_snoc [OF 8(5)]) auto
  thus ?case using first pq(3) by (auto simp: feeds_append init_slots_Cons)
qed (auto split: if_splits)

lemma finish_done:
  fixes k :: "'v field_kind" and schema :: "'v query_field list"
  shows "kind_pairs itoa n k v = Some ps \<Longrightarrow> schema_finish [QueryField n al d k] [kind_done k v] off = Inr [v]"
    and "field_pairs itoa schema vs = Some qs \<Longrightarrow> schema_finish schema (done_slots schema vs) off = Inr vs"
proof (induction itoa n k v and itoa schema vs arbitrary: ps al d and qs rule: kind_pairs_field_pairs.induct)
  case (8 itoa f fs v vs)
  obtain p q where pq: "kind_pairs itoa (qf_name f) (qf_kind f) v = Some p" "field_pairs itoa fs vs = Some q"
    using 8(3) by (auto simp: both_Some)
  show ?case
    using 8(1) [OF pq(1), of "qf_aliases f" "qf_default f"] 8(2) [OF pq(2)] pq(1)
    by (cases f; cases "qf_kind f"; cases v) (auto simp: try_bind_eq_Inr split: if_splits)
qed (auto split: if_splits)

section \<open>Round trip\<close>

definition pairs_within :: "query_limits \<Rightarrow> (string \<times> string) list \<Rightarrow> bool" where
  "pairs_within limits ps \<longleftrightarrow>
     length ps \<le> max_pairs limits \<and>
     decoded_length ps \<le> min usize_max (max_decoded_length limits) \<and>
     length (query_text ps) \<le> min isize_max (min (max_query_length limits) (max_encoded_length limits))"

definition paging_schema :: "nat query_field list" where
  "paging_schema =
     [QueryField ''q'' [''query''] None (FK_Scalar VK_String),
      QueryField ''page'' [] None (FK_Flatten
        [QueryField ''size'' [] (Some (Value 0)) (FK_Scalar
           (VK_Other (\<lambda>s. if s = ''7'' then Some 7 else None) (Enc_Int int)))] False),
      QueryField ''tag'' [] None (FK_Repeated VK_Cow)]"

definition paging_value :: "nat field_value list" where
  "paging_value =
     [FV_One (Text ''a b&c''), FV_Struct [FV_One (Value 7)], FV_Repeated [Text ''x'', Text ''y'']]"



end
