(* ===== verification/Spec2Isabelle.thy ===== *)
theory Spec2Isabelle
  imports Hedging Router_Resolver Query_Roundtrip
begin

text \<open>
  A verification library for the oxidizer repository (\<open>src/crates\<close>).
\<close>

end
